(* ===== verification/Webq_Prelude.thy ===== *)
theory Webq_Prelude
  imports Complex_Main "HOL-Library.Word"
begin

text \<open>
  Shared prelude of the WebQ development: the faults a C program can run into and the
  result type that carries them, machine integers with their wrap-around, the C string
  routines the sources call (\<open>strchr\<close>, \<open>strtok\<close>, \<open>atoi\<close>, \<open>\<open>%d\<close>\<close> printing), byte
  streams as a socket delivers them, and the collections of rewrite rules the component
  theories extend.
\<close>

named_theorems c_arith \<open>wrap-around of machine integers, removed inside the range\<close>
named_theorems c_str \<open>the C string routines on explicit strings\<close>
named_theorems res_simps \<open>the result type\<close>

section \<open>Faults and results\<close>

text \<open>
  A C function either returns or runs into one of these: an array access outside its bounds,
  a read of an uninitialised variable, a dereferenced null pointer, a write past a buffer,
  an access to a freed node, or a call of \<open>exit\<close> with a status or of \<open>abort\<close>.
\<close>

datatype fault =
    OutOfBounds
  | UninitRead
  | NullDeref
  | BufferOverflow
  | UseAfterFree
  | Exit nat
  | Abort

type_synonym 'a res = "fault + 'a"

definition bindR :: "'a res \<Rightarrow> ('a \<Rightarrow> 'b res) \<Rightarrow> 'b res" where
  "bindR m f = (case m of Inl e \<Rightarrow> Inl e | Inr x \<Rightarrow> f x)"

lemma bindR_Inl [simp, res_simps]: "bindR (Inl e) f = Inl e"
  by (simp add: bindR_def)

lemma bindR_Inr [simp, res_simps]: "bindR (Inr x) f = f x"
  by (simp add: bindR_def)

lemma bindR_assoc: "bindR (bindR m f) g = bindR m (\<lambda>x. bindR (f x) g)"
  by (simp add: bindR_def split: sum.splits)

lemma bindR_eq_Inr [res_simps]: "bindR m f = Inr y \<longleftrightarrow> (\<exists>x. m = Inr x \<and> f x = Inr y)"
  by (auto simp: bindR_def split: sum.splits)

lemma bindR_eq_Inl [res_simps]:
  "bindR m f = Inl e \<longleftrightarrow> m = Inl e \<or> (\<exists>x. m = Inr x \<and> f x = Inl e)"
  by (auto simp: bindR_def split: sum.splits)

lemma bindR_cong [fundef_cong]:
  "m = m' \<Longrightarrow> (\<And>x. m' = Inr x \<Longrightarrow> f x = f' x) \<Longrightarrow> bindR m f = bindR m' f'"
  by (auto simp: bindR_def split: sum.splits)

definition checkR :: "bool \<Rightarrow> fault \<Rightarrow> unit res" where
  "checkR b e = (if b then Inr () else Inl e)"

lemma checkR_eq_Inr [simp, res_simps]: "checkR b e = Inr u \<longleftrightarrow> b"
  by (simp add: checkR_def)

lemma checkR_True [simp]: "checkR True e = Inr ()"
  by (simp add: checkR_def)

lemma checkR_False [simp]: "checkR False e = Inl e"
  by (simp add: checkR_def)

text \<open>An array access with an index that came from outside.\<close>

definition get_at :: "'a list \<Rightarrow> int \<Rightarrow> 'a res" where
  "get_at xs i = (if 0 \<le> i \<and> i < int (length xs) then Inr (xs ! nat i) else Inl OutOfBounds)"

definition set_at :: "'a list \<Rightarrow> int \<Rightarrow> 'a \<Rightarrow> 'a list res" where
  "set_at xs i v =
     (if 0 \<le> i \<and> i < int (length xs) then Inr (xs[nat i := v]) else Inl OutOfBounds)"

lemma get_at_Inr [res_simps]:
  "get_at xs i = Inr v \<longleftrightarrow> 0 \<le> i \<and> i < int (length xs) \<and> v = xs ! nat i"
  by (auto simp: get_at_def)

lemma set_at_Inr [res_simps]:
  "set_at xs i v = Inr ys \<longleftrightarrow> 0 \<le> i \<and> i < int (length xs) \<and> ys = xs[nat i := v]"
  by (auto simp: set_at_def)

lemma get_at_in [simp]: "0 \<le> i \<Longrightarrow> i < int (length xs) \<Longrightarrow> get_at xs i = Inr (xs ! nat i)"
  by (simp add: get_at_def)

lemma set_at_in [simp]: "0 \<le> i \<Longrightarrow> i < int (length xs) \<Longrightarrow> set_at xs i v = Inr (xs[nat i := v])"
  by (simp add: set_at_def)

lemma set_at_length [dest]: "set_at xs i v = Inr ys \<Longrightarrow> length ys = length xs"
  by (auto simp: res_simps)

section \<open>Machine integers\<close>

text \<open>
  A C \<open>int\<close> is an integer kept in the range of 32-bit two's complement, a \<open>long long\<close> in that
  of 64-bit; every arithmetic operation of the sources is followed by the wrap-around.
\<close>

definition wrap32 :: "int \<Rightarrow> int" where
  "wrap32 x = signed_take_bit 31 x"

definition wrap64 :: "int \<Rightarrow> int" where
  "wrap64 x = signed_take_bit 63 x"

definition int32 :: "int \<Rightarrow> bool" where
  "int32 x \<longleftrightarrow> - (2 ^ 31) \<le> x \<and> x < 2 ^ 31"

definition int64 :: "int \<Rightarrow> bool" where
  "int64 x \<longleftrightarrow> - (2 ^ 63) \<le> x \<and> x < 2 ^ 63"

lemma wrap32_id [c_arith]: "int32 x \<Longrightarrow> wrap32 x = x"
  by (simp add: wrap32_def int32_def signed_take_bit_int_eq_self)

lemma wrap64_id [c_arith]: "int64 x \<Longrightarrow> wrap64 x = x"
  by (simp add: wrap64_def int64_def signed_take_bit_int_eq_self)

lemma wrap32_range [simp, intro]: "int32 (wrap32 x)"
  using signed_take_bit_int_greater_eq_minus_exp [of 31 x]
    signed_take_bit_int_less_exp [of 31 x]
  by (simp add: wrap32_def int32_def)

lemma wrap64_range [simp, intro]: "int64 (wrap64 x)"
  using signed_take_bit_int_greater_eq_minus_exp [of 63 x]
    signed_take_bit_int_less_exp [of 63 x]
  by (simp add: wrap64_def int64_def)

lemma wrap32_cong: "(x - y) mod 2 ^ 32 = 0 \<Longrightarrow> wrap32 x = wrap32 y"
  unfolding wrap32_def
  by (simp add: signed_take_bit_eq_iff_take_bit_eq take_bit_eq_mod mod_eq_dvd_iff mod_0_imp_dvd)

lemma wrap32_mod_cong: "x mod 2 ^ 32 = y mod 2 ^ 32 \<Longrightarrow> wrap32 x = wrap32 y"
  unfolding wrap32_def
  by (simp add: signed_take_bit_eq_iff_take_bit_eq take_bit_eq_mod)

lemma wrap64_cong: "(x - y) mod 2 ^ 64 = 0 \<Longrightarrow> wrap64 x = wrap64 y"
  unfolding wrap64_def
  by (simp add: signed_take_bit_eq_iff_take_bit_eq take_bit_eq_mod mod_eq_dvd_iff mod_0_imp_dvd)

lemma wrap64_mod: "wrap64 x mod 2 ^ 64 = x mod 2 ^ 64"
proof -
  have "take_bit 64 (signed_take_bit 63 x) = take_bit 64 x"
    by (simp add: take_bit_signed_take_bit)
  then show ?thesis by (simp add: wrap64_def take_bit_eq_mod)
qed

lemma wrap64_add [simp]: "wrap64 (wrap64 x + y) = wrap64 (x + y)"
  by (rule wrap64_cong) (simp add: mod_eq_dvd_iff [symmetric] wrap64_mod [simplified])

lemma wrap64_diff [simp]: "wrap64 (wrap64 x - y) = wrap64 (x - y)"
  by (rule wrap64_cong) (simp add: mod_eq_dvd_iff [symmetric] wrap64_mod [simplified])

lemma wrap32_mod: "wrap32 x mod 2 ^ 32 = x mod 2 ^ 32"
proof -
  have "take_bit 32 (signed_take_bit 31 x) = take_bit 32 x"
    by (simp add: take_bit_signed_take_bit)
  then show ?thesis by (simp add: wrap32_def take_bit_eq_mod)
qed

lemma wrap32_add [simp]: "wrap32 (wrap32 x + y) = wrap32 (x + y)"
  by (rule wrap32_cong) (simp add: mod_eq_dvd_iff [symmetric] wrap32_mod [simplified])

section \<open>C strings\<close>

text \<open>
  A C string is its list of characters without the final NUL. \<open>strchr s c\<close> is the suffix that
  starts at the first \<open>c\<close>, or \<open>None\<close> for the null pointer.
\<close>

fun strchr :: "string \<Rightarrow> char \<Rightarrow> string option" where
  "strchr [] c = None"
| "strchr (x # xs) c = (if x = c then Some (x # xs) else strchr xs c)"

lemma strchr_None_iff [simp]: "strchr s c = None \<longleftrightarrow> c \<notin> set s"
  by (induction s) auto

lemma strchr_Some: "strchr s c = Some t \<Longrightarrow> \<exists>p. s = p @ t \<and> c \<notin> set p \<and> t \<noteq> [] \<and> hd t = c"
proof (induction s)
  case (Cons x s)
  show ?case
  proof (cases "x = c")
    case True
    with Cons.prems show ?thesis by (intro exI [of _ "[]"]) auto
  next
    case False
    with Cons.prems have "strchr s c = Some t" by simp
    then obtain p where "s = p @ t \<and> c \<notin> set p \<and> t \<noteq> [] \<and> hd t = c"
      using Cons.IH by blast
    with False show ?thesis by (intro exI [of _ "x # p"]) auto
  qed
qed simp

lemma strchr_append_first [c_str]: "c \<notin> set p \<Longrightarrow> strchr (p @ c # t) c = Some (c # t)"
  by (induction p) auto

text \<open>
  One call of \<open>strtok\<close> on the rest of the string: skip delimiters, return the token and what
  follows the delimiter that ended it; \<open>None\<close> is the null pointer.
\<close>

definition strtok :: "string \<Rightarrow> string \<Rightarrow> (string \<times> string) option" where
  "strtok delims s =
     (let r = dropWhile (\<lambda>c. c \<in> set delims) s
      in if r = [] then None
         else Some (takeWhile (\<lambda>c. c \<notin> set delims) r,
                    drop 1 (dropWhile (\<lambda>c. c \<notin> set delims) r)))"

lemma strtok_token:
  assumes "strtok delims s = Some (t, r)"
  shows "t \<noteq> [] \<and> set t \<inter> set delims = {} \<and> length r < length s"
proof -
  let ?d = "dropWhile (\<lambda>c. c \<in> set delims) s"
  from assms have ne: "?d \<noteq> []"
    and t: "t = takeWhile (\<lambda>c. c \<notin> set delims) ?d"
    and r: "r = drop 1 (dropWhile (\<lambda>c. c \<notin> set delims) ?d)"
    by (auto simp: strtok_def Let_def split: if_splits)
  from ne have hd: "hd ?d \<notin> set delims" using hd_dropWhile by blast
  then have tne: "t \<noteq> []" using ne t by (cases ?d) auto
  have "length ?d \<le> length s" by (rule length_dropWhile_le)
  moreover have "length t + length (dropWhile (\<lambda>c. c \<notin> set delims) ?d) = length ?d"
    using t by (metis length_append takeWhile_dropWhile_id)
  ultimately have "length r < length s" using tne r by (cases t) auto
  moreover have "set t \<inter> set delims = {}" using t by (auto dest: set_takeWhileD)
  ultimately show ?thesis using tne by blast
qed

lemma strtok_clean:
  assumes "t \<noteq> []" "set t \<inter> set delims = {}" "d \<in> set delims"
  shows "strtok delims (t @ d # r) = Some (t, r)"
proof -
  have "dropWhile (\<lambda>c. c \<in> set delims) (t @ d # r) = t @ d # r"
    using assms by (cases t) auto
  moreover have "takeWhile (\<lambda>c. c \<notin> set delims) (t @ d # r) = t"
    "dropWhile (\<lambda>c. c \<notin> set delims) (t @ d # r) = d # r"
    using assms by (auto simp: takeWhile_append dropWhile_append disjoint_iff)
  ultimately show ?thesis using assms by (simp add: strtok_def)
qed

lemma strtok_last:
  assumes "t \<noteq> []" "set t \<inter> set delims = {}"
  shows "strtok delims t = Some (t, [])"
proof -
  have a: "dropWhile (\<lambda>c. c \<in> set delims) t = t"
    using assms by (cases t) auto
  have "\<forall>c \<in> set t. c \<notin> set delims"
    using assms by auto
  then have b: "takeWhile (\<lambda>c. c \<notin> set delims) t = t"
    and c: "dropWhile (\<lambda>c. c \<notin> set delims) t = []"
    by (simp_all only: takeWhile_eq_all_conv dropWhile_eq_Nil_conv)
  show ?thesis unfolding strtok_def Let_def a b c using assms(1) by simp
qed

lemma strtok_skip: "d \<in> set delims \<Longrightarrow> strtok delims (d # s) = strtok delims s"
  by (simp add: strtok_def)

lemma strtok_Nil [simp]: "strtok delims [] = None"
  by (simp add: strtok_def)

text \<open>Decimal digits, \<open>atoi\<close> and the conversion \<open>%d\<close>.\<close>

definition is_digit :: "char \<Rightarrow> bool" where
  "is_digit c \<longleftrightarrow> (48 :: nat) \<le> of_char c \<and> of_char c \<le> (57 :: nat)"

definition digit_val :: "char \<Rightarrow> int" where
  "digit_val c = int (of_char c) - 48"

definition digit_char :: "nat \<Rightarrow> char" where
  "digit_char d = char_of (48 + d)"

fun atoi_digits :: "int \<Rightarrow> string \<Rightarrow> int" where
  "atoi_digits acc [] = acc"
| "atoi_digits acc (c # cs) =
     (if is_digit c then atoi_digits (wrap32 (10 * acc + digit_val c)) cs else acc)"

definition is_space :: "char \<Rightarrow> bool" where
  "is_space c \<longleftrightarrow> of_char c = (32 :: nat) \<or> ((9 :: nat) \<le> of_char c \<and> of_char c \<le> (13 :: nat))"

definition atoi :: "string \<Rightarrow> int" where
  "atoi s =
     (case dropWhile is_space s of
        [] \<Rightarrow> 0
      | c # cs \<Rightarrow> (if c = CHR ''-'' then wrap32 (- atoi_digits 0 cs)
                  else if c = CHR ''+'' then atoi_digits 0 cs
                  else atoi_digits 0 (c # cs)))"

fun show_nat :: "nat \<Rightarrow> string" where
  "show_nat n = (if n < 10 then [digit_char n] else show_nat (n div 10) @ [digit_char (n mod 10)])"

declare show_nat.simps [simp del]

definition show_int :: "int \<Rightarrow> string" where
  "show_int i = (if i < 0 then CHR ''-'' # show_nat (nat (- i)) else show_nat (nat i))"

lemma is_digit_digit_char [simp]: "d < 10 \<Longrightarrow> is_digit (digit_char d)"
  by (simp add: is_digit_def digit_char_def)

lemma digit_val_digit_char [simp]: "d < 10 \<Longrightarrow> digit_val (digit_char d) = int d"
  by (simp add: digit_val_def digit_char_def)

lemma show_nat_ne [simp]: "show_nat n \<noteq> []"
  by (subst show_nat.simps) simp

lemma show_nat_digits: "c \<in> set (show_nat n) \<Longrightarrow> is_digit c"
proof (induction n rule: show_nat.induct)
  case (1 n)
  then show ?case
    by (cases "n < 10") (auto simp: show_nat.simps [of n])
qed

lemma show_nat_length: "n < 10 ^ k \<Longrightarrow> 0 < k \<Longrightarrow> length (show_nat n) \<le> k"
proof (induction n arbitrary: k rule: show_nat.induct)
  case (1 n)
  show ?case
  proof (cases "n < 10")
    case True
    with 1 show ?thesis by (simp add: show_nat.simps [of n])
  next
    case False
    with 1(2,3) obtain j where k: "k = Suc j" and j: "0 < j"
      by (cases k) (auto intro: Suc_lessI, metis gr0I power_0 One_nat_def less_one mult.right_neutral
          not_less_zero power_Suc)
    from 1(2) k have "n div 10 < 10 ^ j" by (simp add: div_less_iff_less_mult mult.commute)
    with 1(1) False j have "length (show_nat (n div 10)) \<le> j" by blast
    with False k show ?thesis by (simp add: show_nat.simps [of n])
  qed
qed

lemma atoi_digits_append:
  "(\<forall>c \<in> set s. is_digit c) \<Longrightarrow> atoi_digits a (s @ t) = atoi_digits (atoi_digits a s) t"
  by (induction s arbitrary: a) auto

lemma atoi_digits_show_nat: "int n < 2 ^ 31 \<Longrightarrow> atoi_digits 0 (show_nat n) = int n"
proof (induction n rule: show_nat.induct)
  case (1 n)
  show ?case
  proof (cases "n < 10")
    case True
    then show ?thesis
      by (simp add: show_nat.simps [of n] wrap32_id int32_def)
  next
    case False
    have ih: "atoi_digits 0 (show_nat (n div 10)) = int (n div 10)"
      using 1 False by simp
    have "atoi_digits 0 (show_nat n) = wrap32 (10 * int (n div 10) + int (n mod 10))"
      using False by (simp add: show_nat.simps [of n] atoi_digits_append show_nat_digits ih)
    also have "10 * int (n div 10) + int (n mod 10) = int n"
      by presburger
    finally show ?thesis using 1(2) by (simp add: wrap32_id int32_def)
  qed
qed

text \<open>Reading back what was printed.\<close>

lemma digit_not_space: "is_digit c \<Longrightarrow> \<not> is_space c"
  by (auto simp: is_digit_def is_space_def)

lemma atoi_show_int: "int32 i \<Longrightarrow> i \<noteq> - (2 ^ 31) \<Longrightarrow> atoi (show_int i) = i"
proof -
  assume i: "int32 i" "i \<noteq> - (2 ^ 31)"
  have sp: "\<not> is_space (CHR ''-'')" by (simp add: is_space_def)
  show ?thesis
  proof (cases "i < 0")
    case True
    with i have "atoi_digits 0 (show_nat (nat (- i))) = - i"
      by (subst atoi_digits_show_nat) (auto simp: int32_def)
    with True sp i show ?thesis by (simp add: atoi_def show_int_def wrap32_id)
  next
    case False
    obtain c cs where s: "show_nat (nat i) = c # cs" by (cases "show_nat (nat i)") auto
    then have d: "is_digit c" using show_nat_digits [of c "nat i"] by simp
    then have "c \<noteq> CHR ''-''" "c \<noteq> CHR ''+''" by (auto simp: is_digit_def)
    moreover have "atoi_digits 0 (c # cs) = i"
      using False i s atoi_digits_show_nat [of "nat i"] by (simp add: int32_def)
    ultimately show ?thesis using False s d digit_not_space
      by (simp add: atoi_def show_int_def)
  qed
qed

end
