(* ===== verification/Stat_Queue.thy ===== *)
theory Stat_Queue
  imports Webq_Prelude
begin

text \<open>
  The statistics queue of \<open>queue.h\<close> (the same file in TokenGen and Controller): a singly linked
  list of per-second counters reached through \<open>root\<close>, with a pointer \<open>current\<close> to its last node
  and running totals. Nodes live in an explicit store, so that \<open>malloc\<close>, \<open>free\<close> and the pointer
  \<open>current\<close>, which keeps pointing at a freed node once the queue is empty, are part of the model.
  The theory ends with the interface the timer relies on, a bounded window of the last entries,
  and its interpretation by the pointer structure.
\<close>

section \<open>State\<close>

record node =
  nd_out :: int
  nd_in :: int
  nd_fail :: int
  nd_next :: "nat option"

record queue =
  q_root :: "nat option"
  q_current :: "nat option"
  q_len :: int
  q_limit :: int
  q_tot_in :: int
  q_tot_out :: int
  q_tot_fail :: int

type_synonym heap = "nat \<rightharpoonup> node"
type_synonym entry = "int \<times> int \<times> int"

text \<open>A node access through a pointer: null and dangling pointers are faults.\<close>

definition deref :: "heap \<Rightarrow> nat option \<Rightarrow> node res" where
  "deref h p = (case p of None \<Rightarrow> Inl NullDeref
                | Some a \<Rightarrow> (case h a of None \<Rightarrow> Inl UseAfterFree | Some n \<Rightarrow> Inr n))"

section \<open>Operations\<close>

text \<open>
  \<open>insert\<close>: \<open>tmp\<close> is what \<open>malloc\<close> returned, \<open>None\<close> for the null pointer. An empty queue takes the
  new node as its root without looking at \<open>current\<close>.
\<close>

definition insert_q :: "nat option \<Rightarrow> int \<Rightarrow> int \<Rightarrow> int \<Rightarrow> heap \<times> queue \<Rightarrow> (heap \<times> queue) res" where
  "insert_q tmp inn out fail = (\<lambda>(h, q).
     case tmp of
       None \<Rightarrow> Inr (h, q)
     | Some a \<Rightarrow>
         let h = h(a \<mapsto> \<lparr>nd_out = out, nd_in = inn, nd_fail = fail, nd_next = None\<rparr>)
         in bindR
              (if q_root q = None then Inr (h, q\<lparr>q_root := Some a\<rparr>)
               else bindR (deref h (q_current q))
                      (\<lambda>n. Inr (h(the (q_current q) \<mapsto> n\<lparr>nd_next := Some a\<rparr>), q)))
              (\<lambda>(h, q). Inr (h, q\<lparr>q_current := Some a, q_len := wrap32 (q_len q + 1),
                 q_tot_in := wrap64 (q_tot_in q + inn), q_tot_out := wrap64 (q_tot_out q + out),
                 q_tot_fail := wrap64 (q_tot_fail q + fail)\<rparr>)))"

definition isEmpty :: "queue \<Rightarrow> int" where
  "isEmpty q = (if q_root q = None then 1 else 0)"

text \<open>\<open>deleteq\<close> returns the \<open>in\<close> counter of the removed node, 0 on an empty queue.\<close>

definition deleteq :: "heap \<times> queue \<Rightarrow> (int \<times> heap \<times> queue) res" where
  "deleteq = (\<lambda>(h, q).
     if isEmpty q \<noteq> 0 then Inr (0, h, q)
     else bindR (deref h (q_root q)) (\<lambda>n.
       Inr (nd_in n, h(the (q_root q) := None),
            q\<lparr>q_root := nd_next n, q_len := wrap32 (q_len q - 1),
              q_tot_in := wrap64 (q_tot_in q - nd_in n),
              q_tot_out := wrap64 (q_tot_out q - nd_out n),
              q_tot_fail := wrap64 (q_tot_fail q - nd_fail n)\<rparr>)))"

definition size_q :: "queue \<Rightarrow> int" where
  "size_q q = q_len q"

text \<open>
  \<open>display\<close> walks the list from the root and prints one line per node; the walk takes a bound on
  the number of steps and runs out of it on a cyclic list only.
\<close>

fun display_loop :: "nat \<Rightarrow> heap \<Rightarrow> nat option \<Rightarrow> (entry list option) res" where
  "display_loop 0 h ptr = Inr None"
| "display_loop (Suc k) h ptr =
     (if ptr = None then Inr (Some [])
      else bindR (deref h ptr) (\<lambda>n.
        bindR (display_loop k h (nd_next n)) (\<lambda>r.
          Inr (map_option (\<lambda>l. (nd_in n, nd_out n, nd_fail n) # l) r))))"

definition display :: "nat \<Rightarrow> heap \<times> queue \<Rightarrow> (entry list option) res" where
  "display k = (\<lambda>(h, q). if isEmpty q \<noteq> 0 then Inr (Some []) else display_loop k h (q_root q))"

definition set_limit :: "int \<Rightarrow> queue \<Rightarrow> queue" where
  "set_limit l q = q\<lparr>q_limit := l\<rparr>"

definition push_back :: "nat option \<Rightarrow> int \<Rightarrow> int \<Rightarrow> int \<Rightarrow> heap \<times> queue \<Rightarrow> (heap \<times> queue) res" where
  "push_back tmp inn out fail = (\<lambda>(h, q).
     if size_q q = q_limit q
     then bindR (deleteq (h, q)) (\<lambda>(_, h, q). insert_q tmp inn out fail (h, q))
     else insert_q tmp inn out fail (h, q))"

definition get_total_in :: "queue \<Rightarrow> int" where
  "get_total_in q = q_tot_in q"

definition get_total_out :: "queue \<Rightarrow> int" where
  "get_total_out q = q_tot_out q"

definition get_total_failing :: "queue \<Rightarrow> int" where
  "get_total_failing q = q_tot_fail q"

definition pending_requests :: "queue \<Rightarrow> int" where
  "pending_requests q =
     (if wrap64 (q_tot_in q - q_tot_out q) > 0 then wrap64 (q_tot_in q - q_tot_out q) else 0)"

section \<open>The list a queue represents\<close>

fun lseg :: "heap \<Rightarrow> nat option \<Rightarrow> (nat \<times> entry) list \<Rightarrow> bool" where
  "lseg h p [] \<longleftrightarrow> p = None"
| "lseg h p ((a, e) # xs) \<longleftrightarrow>
     p = Some a \<and>
     (case h a of None \<Rightarrow> False
      | Some n \<Rightarrow> (nd_in n, nd_out n, nd_fail n) = e \<and> lseg h (nd_next n) xs)"

abbreviation ent_in :: "entry \<Rightarrow> int" where "ent_in e \<equiv> fst e"
abbreviation ent_out :: "entry \<Rightarrow> int" where "ent_out e \<equiv> fst (snd e)"
abbreviation ent_fail :: "entry \<Rightarrow> int" where "ent_fail e \<equiv> snd (snd e)"

definition tot_of :: "(entry \<Rightarrow> int) \<Rightarrow> (nat \<times> entry) list \<Rightarrow> int" where
  "tot_of f xs = sum_list (map (f \<circ> snd) xs)"

definition repr_q :: "heap \<times> queue \<Rightarrow> (nat \<times> entry) list \<Rightarrow> bool" where
  "repr_q = (\<lambda>(h, q) xs.
     lseg h (q_root q) xs \<and> distinct (map fst xs) \<and>
     (xs \<noteq> [] \<longrightarrow> q_current q = Some (fst (last xs))) \<and>
     q_len q = int (length xs) \<and> int (length xs) < 2 ^ 31 - 1 \<and>
     q_tot_in q = wrap64 (tot_of ent_in xs) \<and> q_tot_out q = wrap64 (tot_of ent_out xs) \<and>
     q_tot_fail q = wrap64 (tot_of ent_fail xs))"

lemma lseg_frame: "a \<notin> fst ` set xs \<Longrightarrow> lseg (h(a := v)) p xs = lseg h p xs"
  by (induction h p xs rule: lseg.induct) (auto split: option.splits)

lemma lseg_root: "lseg h p xs \<Longrightarrow> p = None \<longleftrightarrow> xs = []"
  by (cases xs) auto

text \<open>Linking a fresh node behind the last one appends its entry.\<close>

lemma lseg_snoc:
  assumes "lseg h p xs" "xs \<noteq> []" "distinct (map fst xs)" "a \<notin> fst ` set xs"
    and "h (fst (last xs)) = Some n"
    and "h a = Some m" "nd_next m = None" "(nd_in m, nd_out m, nd_fail m) = e"
  shows "lseg (h(fst (last xs) \<mapsto> n\<lparr>nd_next := Some a\<rparr>)) p (xs @ [(a, e)])"
  using assms
proof (induction xs arbitrary: p)
  case Nil
  then show ?case by simp
next
  case (Cons x xs)
  obtain b f where x: "x = (b, f)" by (cases x) auto
  show ?case
  proof (cases "xs = []")
    case True
    with Cons.prems x show ?thesis by (auto split: option.splits)
  next
    case False
    from Cons.prems(1) x obtain k where k: "h b = Some k" "(nd_in k, nd_out k, nd_fail k) = f"
      "lseg h (nd_next k) xs" "p = Some b"
      by (auto split: option.splits)
    define h' where "h' = h(fst (last xs) \<mapsto> n\<lparr>nd_next := Some a\<rparr>)"
    have seg: "lseg h' (nd_next k) (xs @ [(a, e)])"
      unfolding h'_def by (rule Cons.IH) (use Cons.prems False k in auto)
    have "fst (last xs) \<noteq> b"
      using Cons.prems(3) False x last_in_set [of xs] by force
    then have "h' b = Some k" using k by (simp add: h'_def)
    then have "lseg h' p ((x # xs) @ [(a, e)])" using seg k x by simp
    moreover have "last (x # xs) = last xs" using False by simp
    ultimately show ?thesis by (simp only: h'_def)
  qed
qed

lemma lseg_last: "lseg h p xs \<Longrightarrow> xs \<noteq> [] \<Longrightarrow> \<exists>n. h (fst (last xs)) = Some n"
  by (induction h p xs rule: lseg.induct) (auto split: option.splits)

section \<open>Refinement\<close>

lemma tot_of_Nil [simp]: "tot_of f [] = 0"
  by (simp add: tot_of_def)

lemma tot_of_Cons [simp]: "tot_of f (x # xs) = f (snd x) + tot_of f xs"
  by (simp add: tot_of_def)

lemma tot_of_snoc [simp]: "tot_of f (xs @ [x]) = tot_of f xs + f (snd x)"
  by (simp add: tot_of_def)

text \<open>
  \<open>insert\<close> with a fresh node appends the entry; it never follows the dangling \<open>current\<close> of an
  emptied queue.
\<close>

lemma insert_q_refines:
  assumes r: "repr_q (h, q) xs" and fresh: "a \<notin> fst ` set xs" and len: "int (length xs) < 2 ^ 31 - 2"
  obtains h' q' where "insert_q (Some a) inn out fail (h, q) = Inr (h', q')"
    and "repr_q (h', q') (xs @ [(a, inn, out, fail)])" and "q_limit q' = q_limit q"
proof (cases "xs = []")
  case True
  let ?h = "h(a \<mapsto> \<lparr>nd_out = out, nd_in = inn, nd_fail = fail, nd_next = None\<rparr>)"
  let ?q = "q\<lparr>q_root := Some a, q_current := Some a, q_len := 1, q_tot_in := wrap64 inn,
      q_tot_out := wrap64 out, q_tot_fail := wrap64 fail\<rparr>"
  from r True have "insert_q (Some a) inn out fail (h, q) = Inr (?h, ?q)"
    by (simp add: insert_q_def repr_q_def wrap32_id int32_def Let_def)
  moreover from True have "repr_q (?h, ?q) (xs @ [(a, inn, out, fail)])"
    by (simp add: repr_q_def)
  ultimately show thesis by (rule that) simp
next
  case False
  let ?h = "h(a \<mapsto> \<lparr>nd_out = out, nd_in = inn, nd_fail = fail, nd_next = None\<rparr>)"
  from r False obtain r0 where root: "q_root q = Some r0" and cur: "q_current q = Some (fst (last xs))"
    and seg: "lseg h (q_root q) xs" and dist: "distinct (map fst xs)"
    by (cases "q_root q") (auto simp: repr_q_def dest: lseg_root)
  from seg False obtain n where n: "h (fst (last xs)) = Some n"
    using lseg_last by blast
  have ne: "fst (last xs) \<noteq> a" using fresh False by force
  have seg': "lseg ?h (q_root q) xs" using seg fresh by (simp add: lseg_frame)
  have seg'': "lseg (?h(fst (last xs) \<mapsto> n\<lparr>nd_next := Some a\<rparr>)) (q_root q) (xs @ [(a, inn, out, fail)])"
    by (rule lseg_snoc [OF seg' False dist fresh]) (use n ne in auto)
  let ?q = "q\<lparr>q_current := Some a, q_len := q_len q + 1, q_tot_in := wrap64 (q_tot_in q + inn),
      q_tot_out := wrap64 (q_tot_out q + out), q_tot_fail := wrap64 (q_tot_fail q + fail)\<rparr>"
  let ?h' = "?h(fst (last xs) \<mapsto> n\<lparr>nd_next := Some a\<rparr>)"
  have "insert_q (Some a) inn out fail (h, q) = Inr (?h', ?q)"
    using r root cur n ne len
    by (simp add: insert_q_def repr_q_def deref_def wrap32_id int32_def Let_def)
  moreover have "repr_q (?h', ?q) (xs @ [(a, inn, out, fail)])"
    using r seg'' len fresh by (simp add: repr_q_def)
  ultimately show thesis by (rule that) simp
qed

text \<open>\<open>deleteq\<close> removes and frees the first node.\<close>

lemma deleteq_refines:
  assumes r: "repr_q (h, q) ((a, inn, out, fail) # xs)"
  obtains h' q' where "deleteq (h, q) = Inr (inn, h', q')" and "repr_q (h', q') xs"
    and "h' = h(a := None)" and "q_limit q' = q_limit q"
proof -
  from r obtain n where n: "q_root q = Some a" "h a = Some n"
    "nd_in n = inn" "nd_out n = out" "nd_fail n = fail" "lseg h (nd_next n) xs"
    by (auto simp: repr_q_def split: option.splits)
  from r have "a \<notin> fst ` set xs" by (auto simp: repr_q_def)
  then have "lseg (h(a := None)) (nd_next n) xs" using n by (simp add: lseg_frame)
  note seg = this
  let ?q = "q\<lparr>q_root := nd_next n, q_len := q_len q - 1, q_tot_in := wrap64 (q_tot_in q - inn),
      q_tot_out := wrap64 (q_tot_out q - out), q_tot_fail := wrap64 (q_tot_fail q - fail)\<rparr>"
  have "deleteq (h, q) = Inr (inn, h(a := None), ?q)"
    using r n by (simp add: deleteq_def isEmpty_def deref_def repr_q_def wrap32_id int32_def)
  moreover have "repr_q (h(a := None), ?q) xs"
    using r seg by (auto simp: repr_q_def split: if_splits)
  ultimately show thesis by (rule that) simp_all
qed

lemma deleteq_empty: "repr_q (h, q) [] \<Longrightarrow> deleteq (h, q) = Inr (0, h, q)"
  by (simp add: deleteq_def isEmpty_def repr_q_def)

text \<open>The abstract window of at most \<open>l\<close> entries.\<close>

definition window_push :: "nat \<Rightarrow> 'a list \<Rightarrow> 'a \<Rightarrow> 'a list" where
  "window_push l xs x = (if length xs = l then tl xs else xs) @ [x]"

lemma push_back_refines:
  assumes r: "repr_q (h, q) xs" and fresh: "a \<notin> fst ` set xs"
    and lim: "q_limit q = int l" "int l < 2 ^ 31 - 2" "length xs \<le> l"
  obtains h' q' where "push_back (Some a) inn out fail (h, q) = Inr (h', q')"
    and "repr_q (h', q') (window_push l xs (a, inn, out, fail))" and "q_limit q' = int l"
proof (cases "length xs = l")
  case False
  with r lim have "size_q q \<noteq> q_limit q" by (simp add: size_q_def repr_q_def)
  moreover obtain h' q' where "insert_q (Some a) inn out fail (h, q) = Inr (h', q')"
    "repr_q (h', q') (xs @ [(a, inn, out, fail)])" "q_limit q' = q_limit q"
    using insert_q_refines [OF r fresh, of inn out fail] lim by auto
  ultimately show thesis using that lim False by (simp add: push_back_def window_push_def)
next
  case True
  with r lim have sz: "size_q q = q_limit q" by (simp add: size_q_def repr_q_def)
  show thesis
  proof (cases xs)
    case Nil
    with r have "deleteq (h, q) = Inr (0, h, q)" by (simp add: deleteq_empty)
    moreover obtain h' q' where "insert_q (Some a) inn out fail (h, q) = Inr (h', q')"
      "repr_q (h', q') (xs @ [(a, inn, out, fail)])" "q_limit q' = q_limit q"
      using insert_q_refines [OF r fresh, of inn out fail] lim True by auto
    ultimately show thesis using that sz lim True Nil by (simp add: push_back_def window_push_def)
  next
    case (Cons x ys)
    obtain b i u f where x: "x = (b, i, u, f)" by (metis surj_pair)
    obtain h1 q1 where d: "deleteq (h, q) = Inr (i, h1, q1)" "repr_q (h1, q1) ys"
      "q_limit q1 = q_limit q"
      using deleteq_refines r Cons x by metis
    have "a \<notin> fst ` set ys" "int (length ys) < 2 ^ 31 - 2"
      using fresh Cons lim by auto
    then obtain h' q' where "insert_q (Some a) inn out fail (h1, q1) = Inr (h', q')"
      "repr_q (h', q') (ys @ [(a, inn, out, fail)])" "q_limit q' = q_limit q1"
      using insert_q_refines [OF d(2)] by blast
    with that sz lim True Cons d show thesis by (simp add: push_back_def window_push_def)
  qed
qed

text \<open>With no memory left, \<open>push_back\<close> still drops the oldest entry of a full queue.\<close>

lemma push_back_nomem:
  assumes "repr_q (h, q) (x # xs)" and "q_limit q = int (length (x # xs))"
  obtains h' q' where "push_back None inn out fail (h, q) = Inr (h', q')" and "repr_q (h', q') xs"
proof -
  obtain b i u f where x: "x = (b, i, u, f)" by (metis surj_pair)
  obtain h1 q1 where "deleteq (h, q) = Inr (i, h1, q1)" "repr_q (h1, q1) xs"
    using deleteq_refines assms(1) x by metis
  with assms that show thesis
    by (auto simp: push_back_def size_q_def repr_q_def insert_q_def)
qed

section \<open>Totals and the walk\<close>

text \<open>
  The totals are those of the window: exactly, not only modulo $2^{64}$, when the entries are C
  integers, because a queue holds fewer than $2^{31}$ of them.
\<close>

lemma tot_of_bound:
  assumes "\<forall>x \<in> set xs. int32 (f (snd x))"
  shows "\<bar>tot_of f xs\<bar> \<le> 2 ^ 31 * int (length xs)"
  using assms
proof (induction xs)
  case (Cons x xs)
  then have "\<bar>tot_of f xs\<bar> \<le> 2 ^ 31 * int (length xs)" "\<bar>f (snd x)\<bar> \<le> 2 ^ 31"
    by (auto simp: int32_def)
  then show ?case by (simp add: algebra_simps)
qed simp

lemma tot_of_exact:
  assumes "\<forall>x \<in> set xs. int32 (f (snd x))" "int (length xs) < 2 ^ 31"
  shows "wrap64 (tot_of f xs) = tot_of f xs"
proof (rule wrap64_id)
  have "\<bar>tot_of f xs\<bar> \<le> 2 ^ 31 * int (length xs)" by (rule tot_of_bound) (use assms in auto)
  also have "\<dots> < 2 ^ 31 * 2 ^ 31" using assms(2) by simp
  finally have "\<bar>tot_of f xs\<bar> < 2 ^ 62" by simp
  then show "int64 (tot_of f xs)" unfolding int64_def by (simp add: abs_less_iff)
qed

lemma display_loop_lseg:
  assumes "lseg h p xs" "length xs < k"
  shows "display_loop k h p = Inr (Some (map snd xs))"
  using assms
proof (induction h p xs arbitrary: k rule: lseg.induct)
  case (1 h p)
  then show ?case by (cases k) auto
next
  case (2 h p a e xs)
  from 2(3) obtain j where j: "k = Suc j" "length xs < j" by (cases k) auto
  from 2(2) obtain n where n: "p = Some a" "h a = Some n" "(nd_in n, nd_out n, nd_fail n) = e"
    "lseg h (nd_next n) xs"
    by (auto split: option.splits)
  from 2(1) n j have "display_loop j h (nd_next n) = Inr (Some (map snd xs))" by blast
  with n j show ?case by (simp add: deref_def)
qed

section \<open>The interface: a window of the last entries\<close>

text \<open>
  What the timer relies on: pushing never faults and keeps the window of the last \<open>cap\<close> entries.
  From one push the locale derives the effect of any number of them.
\<close>

locale stat_window =
  fixes repr :: "'s \<Rightarrow> 'x list \<Rightarrow> bool"
    and push :: "'x \<Rightarrow> 's \<Rightarrow> 's res"
    and cap :: "'s \<Rightarrow> nat"
  assumes push_ok: "repr s xs \<Longrightarrow> length xs \<le> cap s \<Longrightarrow>
      \<exists>s'. push x s = Inr s' \<and> repr s' (window_push (cap s) xs x) \<and> cap s' = cap s"
    and cap_pos: "repr s xs \<Longrightarrow> 0 < cap s"
begin

fun pushes :: "'x list \<Rightarrow> 's \<Rightarrow> 's res" where
  "pushes [] s = Inr s"
| "pushes (x # xs) s = bindR (push x s) (pushes xs)"

lemma window_push_last:
  assumes "length xs \<le> n" "0 < n"
  shows "window_push n xs x = drop (length (xs @ [x]) - n) (xs @ [x])"
  using assms by (cases xs) (auto simp: window_push_def)

lemma drop_drop_snoc:
  "0 < n \<Longrightarrow> drop (length zs - n) zs = ys \<Longrightarrow>
     drop (length (ys @ [x]) - n) (ys @ [x]) = drop (length (zs @ [x]) - n) (zs @ [x])"
  by (cases "length zs \<le> n") (auto simp: Suc_diff_le)

lemma pushes_window:
  assumes "repr s xs" "length xs \<le> cap s"
  shows "\<exists>s'. pushes ys s = Inr s' \<and> cap s' = cap s \<and>
           repr s' (drop (length (xs @ ys) - cap s) (xs @ ys))"
  using assms
proof (induction ys arbitrary: s xs)
  case Nil
  then show ?case by auto
next
  case (Cons y ys)
  have pos: "0 < cap s" using Cons.prems(1) by (rule cap_pos)
  let ?w = "window_push (cap s) xs y"
  obtain s1 where s1: "push y s = Inr s1" "repr s1 ?w" "cap s1 = cap s"
    using push_ok Cons.prems by blast
  have w: "?w = drop (length (xs @ [y]) - cap s) (xs @ [y])"
    using Cons.prems(2) pos by (rule window_push_last)
  have "length ?w \<le> cap s" using Cons.prems(2) by (simp add: w)
  then obtain s' where s': "pushes ys s1 = Inr s'" "cap s' = cap s"
    "repr s' (drop (length (?w @ ys) - cap s) (?w @ ys))"
    using Cons.IH [OF s1(2)] s1(3) by auto
  have "drop (length (?w @ ys) - cap s) (?w @ ys) =
        drop (length (xs @ y # ys) - cap s) (xs @ y # ys)"
  proof (cases "length xs < cap s")
    case True
    then have "?w = xs @ [y]" by (simp add: window_push_def)
    then show ?thesis by simp
  next
    case False
    with Cons.prems(2) pos obtain x xs' where x: "xs = x # xs'" "length xs = cap s"
      by (cases xs) auto
    then have w': "?w = xs' @ [y]" by (simp add: window_push_def)
    have c: "cap s = Suc (length xs')" using x by simp
    show ?thesis unfolding w' unfolding c x(1) by (simp add: Suc_diff_le)
  qed
  with s1 s' show ?case by auto
qed

end

text \<open>
  The pointer queue with an allocator that hands out the next unused address: its state is the
  store, the queue and that address.
\<close>

type_synonym qstate = "heap \<times> queue \<times> nat"

definition repr_win :: "qstate \<Rightarrow> entry list \<Rightarrow> bool" where
  "repr_win = (\<lambda>(h, q, k) es.
     0 < q_limit q \<and> q_limit q < 2 ^ 31 - 2 \<and>
     (\<exists>xs. repr_q (h, q) xs \<and> map snd xs = es \<and> (\<forall>a \<in> fst ` set xs. a < k)))"

definition push_win :: "entry \<Rightarrow> qstate \<Rightarrow> qstate res" where
  "push_win e = (\<lambda>(h, q, k).
     bindR (push_back (Some k) (ent_in e) (ent_out e) (ent_fail e) (h, q))
       (\<lambda>(h, q). Inr (h, q, Suc k)))"

definition cap_win :: "qstate \<Rightarrow> nat" where
  "cap_win = (\<lambda>(h, q, k). nat (q_limit q))"

lemma window_push_map: "map f (window_push l xs x) = window_push l (map f xs) (f x)"
  by (simp add: window_push_def map_tl)

lemma set_window_push: "set (window_push l xs x) \<subseteq> insert x (set xs)"
  by (cases xs) (auto simp: window_push_def)

interpretation qwin: stat_window repr_win push_win cap_win
proof unfold_locales
  fix s xs and x :: entry
  assume r: "repr_win s xs" and len: "length xs \<le> cap_win s"
  obtain h q k where s: "s = (h, q, k)" by (metis prod_cases3)
  obtain inn out fail where e: "x = (inn, out, fail)" by (metis prod_cases3)
  from r s obtain as where as: "repr_q (h, q) as" "map snd as = xs" "\<forall>a \<in> fst ` set as. a < k"
    and lim: "0 < q_limit q" "q_limit q < 2 ^ 31 - 2"
    by (auto simp: repr_win_def)
  define l where "l = nat (q_limit q)"
  have l: "q_limit q = int l" "int l < 2 ^ 31 - 2" "length as \<le> l"
    using lim len as(2) s by (auto simp: l_def cap_win_def)
  have fresh: "k \<notin> fst ` set as" using as(3) by blast
  obtain h' q' where p: "push_back (Some k) inn out fail (h, q) = Inr (h', q')"
    "repr_q (h', q') (window_push l as (k, inn, out, fail))" "q_limit q' = int l"
    using push_back_refines [OF as(1) fresh l] by blast
  have "map snd (window_push l as (k, inn, out, fail)) = window_push (cap_win s) xs x"
    using as(2) e s by (simp add: window_push_map cap_win_def l_def)
  moreover have "\<forall>a \<in> fst ` set (window_push l as (k, inn, out, fail)). a < Suc k"
    using as(3) set_window_push [of l as "(k, inn, out, fail)"] by fastforce
  ultimately have "repr_win (h', q', Suc k) (window_push (cap_win s) xs x)"
    using p l lim by (auto simp: repr_win_def)
  with p l s e show "\<exists>s'. push_win x s = Inr s' \<and> repr_win s' (window_push (cap_win s) xs x) \<and>
      cap_win s' = cap_win s"
    by (intro exI [of _ "(h', q', Suc k)"]) (simp add: push_win_def cap_win_def)
next
  fix s xs
  assume "repr_win s xs"
  then show "0 < cap_win s" by (auto simp: repr_win_def cap_win_def)
qed

section \<open>Properties\<close>

text \<open>A sequence of pushes, with the totals \<open>get_total_in\<close>, \<open>get_total_out\<close> and \<open>get_total_failing\<close> read off.\<close>

fun push_all :: "entry list \<Rightarrow> qstate \<Rightarrow> qstate res" where
  "push_all [] s = Inr s"
| "push_all (e # es) s = bindR (push_win e s) (push_all es)"

lemma push_all_qwin: "push_all es s = qwin.pushes es s"
proof -
  have "push_all es = qwin.pushes es" by (induction es) auto
  then show ?thesis by simp
qed

lemma repr_win_totals:
  assumes "repr_win (h, q, k) es" "\<forall>e \<in> set es. int32 (ent_in e) \<and> int32 (ent_out e) \<and> int32 (ent_fail e)"
  shows "get_total_in q = sum_list (map ent_in es) \<and> get_total_out q = sum_list (map ent_out es) \<and>
    get_total_failing q = sum_list (map ent_fail es)"
proof -
  obtain xs where xs: "repr_q (h, q) xs" "map snd xs = es" using assms(1) by (auto simp: repr_win_def)
  have len: "int (length xs) < 2 ^ 31" using xs(1) by (simp add: repr_q_def)
  have ok: "\<forall>x \<in> set xs. int32 (ent_in (snd x))" "\<forall>x \<in> set xs. int32 (ent_out (snd x))"
    "\<forall>x \<in> set xs. int32 (ent_fail (snd x))" using assms(2) unfolding xs(2) [symmetric] by simp_all
  have t: "tot_of f xs = sum_list (map f es)" for f using xs(2) by (auto simp: tot_of_def)
  have "q_tot_in q = wrap64 (tot_of ent_in xs)" "q_tot_out q = wrap64 (tot_of ent_out xs)"
    "q_tot_fail q = wrap64 (tot_of ent_fail xs)" using xs(1) by (simp_all add: repr_q_def)
  then show ?thesis
    using tot_of_exact [OF ok(1) len] tot_of_exact [OF ok(2) len] tot_of_exact [OF ok(3) len]
    by (simp add: get_total_in_def get_total_out_def get_total_failing_def t)
qed

lemma set_drop_all: "\<forall>x \<in> set xs. P x \<Longrightarrow> \<forall>x \<in> set (drop n xs). P x"
  using in_set_dropD by fast

text \<open>
  C15. The linked queue of statistics is a sliding window: after any sequence of \<open>push_back\<close> calls it
  holds the last \<open>limit\<close> entries, no pointer access faulted, and its three running totals are exactly
  the sums over that window.
\<close>

theorem statistics_are_a_sliding_window:
  assumes "repr_win s es" "length es \<le> cap_win s"
    and "\<forall>e \<in> set (es @ ys). int32 (ent_in e) \<and> int32 (ent_out e) \<and> int32 (ent_fail e)"
  shows "\<exists>h q k. push_all ys s = Inr (h, q, k) \<and>
    repr_win (h, q, k) (drop (length (es @ ys) - cap_win s) (es @ ys)) \<and>
    get_total_in q = sum_list (map ent_in (drop (length (es @ ys) - cap_win s) (es @ ys))) \<and>
    get_total_out q = sum_list (map ent_out (drop (length (es @ ys) - cap_win s) (es @ ys))) \<and>
    get_total_failing q = sum_list (map ent_fail (drop (length (es @ ys) - cap_win s) (es @ ys)))"
proof -
  let ?w = "drop (length (es @ ys) - cap_win s) (es @ ys)"
  obtain s' where s': "push_all ys s = Inr s'" "repr_win s' ?w"
    using qwin.pushes_window [OF assms(1,2), of ys] by (auto simp: push_all_qwin)
  obtain h q k where t: "s' = (h, q, k)" by (metis prod_cases3)
  have "\<forall>e \<in> set ?w. int32 (ent_in e) \<and> int32 (ent_out e) \<and> int32 (ent_fail e)"
    using assms(3) by (rule set_drop_all)
  with repr_win_totals [OF s'(2) [unfolded t]] s' t show ?thesis by blast
qed

text \<open>An empty queue with limit 2.\<close>

definition q_small :: qstate where
  "q_small = (Map.empty, \<lparr>q_root = None, q_current = None, q_len = 0, q_limit = 2,
     q_tot_in = 0, q_tot_out = 0, q_tot_fail = 0\<rparr>, 0)"

lemma q_small_repr: "repr_win q_small [] \<and> cap_win q_small = 2"
proof -
  have "wrap64 0 = 0" by (rule wrap64_id) (simp add: int64_def)
  then show ?thesis unfolding repr_win_def q_small_def cap_win_def repr_q_def by simp
qed

theorem statistics_are_a_sliding_window_witness:
  "\<exists>h q k. push_all [(5, 1, 0), (7, 2, 0), (9, 3, 1)] q_small = Inr (h, q, k) \<and>
     repr_win (h, q, k) [(7, 2, 0), (9, 3, 1)] \<and>
     get_total_in q = 16 \<and> get_total_out q = 5 \<and> get_total_failing q = 1"
  using statistics_are_a_sliding_window [of q_small "[]" "[(5, 1, 0), (7, 2, 0), (9, 3, 1)]"] q_small_repr
  by (simp add: int32_def)

end
