(* ===== verification/Wire.thy ===== *)
theory Wire
  imports Webq_Prelude
begin

text \<open>
  What travels between the proxies: bytes, the in-memory image of a C \<open>int\<close> that \<open>write\<close> sends
  (four bytes, least significant first), and the socket as its reader sees it, a list of segments
  of which one \<open>read\<close> returns at most the requested prefix of the first. Short reads, end of
  file and the zeroed buffer behind a short read are those of \<open>readFromClient\<close>.
\<close>

type_synonym byte = "8 word"
type_synonym segs = "byte list list"

section \<open>Integers on the wire\<close>

definition int_bytes :: "int \<Rightarrow> byte list" where
  "int_bytes i = map (\<lambda>k. word_of_int (i div 256 ^ k)) [0, 1, 2, 3]"

text \<open>
  The value of \<open>*buffer\<close> after \<open>bzero\<close> and a \<open>read\<close> that delivered \<open>bs\<close>: missing high bytes are 0.
\<close>

definition bytes_int :: "byte list \<Rightarrow> int" where
  "bytes_int bs = wrap32 (foldr (\<lambda>b acc. uint b + 256 * acc) bs 0)"

lemma int_bytes_length [simp]: "length (int_bytes i) = 4"
  by (simp add: int_bytes_def)

lemma int_bytes_ne [simp]: "int_bytes i \<noteq> []"
  by (simp add: int_bytes_def)

lemma bytes_int_range [simp]: "int32 (bytes_int bs)"
  by (simp add: bytes_int_def)

lemma horner4:
  "m = 256 * n + b0 \<Longrightarrow> n = 256 * k + b1 \<Longrightarrow> k = 256 * b3 + b2 \<Longrightarrow>
     b0 + 256 * (b1 + 256 * (b2 + 256 * b3)) = (m :: int)"
  by simp

lemma bytes_int_bytes: "int32 i \<Longrightarrow> bytes_int (int_bytes i) = i"
proof -
  assume i: "int32 i"
  let ?v = "uint (word_of_int i :: byte) + 256 * (uint (word_of_int (i div 256) :: byte) +
      256 * (uint (word_of_int (i div 65536) :: byte) + 256 * uint (word_of_int (i div 16777216) :: byte)))"
  have v: "?v = i mod 256 + 256 * (i div 256 mod 256 + 256 * (i div 65536 mod 256 +
      256 * (i div 16777216 mod 256)))"
    by (simp add: uint_word_of_int)
  have d: "i div 256 div 256 = i div 65536" "i div 65536 div 256 = i div 16777216"
    by (simp_all add: zdiv_zmult2_eq [symmetric])
  have m1: "i mod 4294967296 = 256 * (i div 256 mod 16777216) + i mod 256"
    using zmod_zmult2_eq [of 16777216 i 256] by simp
  have m2: "i div 256 mod 16777216 = 256 * (i div 65536 mod 65536) + i div 256 mod 256"
    using zmod_zmult2_eq [of 65536 "i div 256" 256] d by simp
  have m3: "i div 65536 mod 65536 = 256 * (i div 16777216 mod 256) + i div 65536 mod 256"
    using zmod_zmult2_eq [of 256 "i div 65536" 256] d by simp
  have "?v = i mod 4294967296" unfolding v by (rule horner4 [OF m1 m2 m3])
  moreover have "(2 :: int) ^ 32 = 4294967296" by simp
  ultimately have "?v = i mod 2 ^ 32" by (simp only:)
  then have "?v mod 2 ^ 32 = i mod 2 ^ 32" by (simp only: mod_mod_trivial)
  then have "wrap32 ?v = wrap32 i" by (rule wrap32_mod_cong)
  with i show ?thesis by (simp add: bytes_int_def int_bytes_def wrap32_id)
qed

definition char_byte :: "char \<Rightarrow> byte" where
  "char_byte c = word_of_nat (of_char c)"

lemma char_byte_eq [simp]: "char_byte c = char_byte d \<longleftrightarrow> c = d"
proof
  assume "char_byte c = char_byte d"
  then have "unat (char_byte c) = unat (char_byte d)" by simp
  then have "(of_char c :: nat) = of_char d"
    by (simp add: char_byte_def unat_of_nat)
  then show "c = d" by simp
qed simp

section \<open>Sockets\<close>

text \<open>
  One \<open>read\<close> of at most \<open>n\<close> bytes: what it delivers (nothing at end of file) and what is left.
\<close>

fun read_sock :: "nat \<Rightarrow> segs \<Rightarrow> byte list \<times> segs" where
  "read_sock n [] = ([], [])"
| "read_sock n (c # cs) =
     (if c = [] then read_sock n cs
      else (take n c, if drop n c = [] then cs else drop n c # cs))"

definition pending :: "segs \<Rightarrow> nat" where
  "pending cs = length (concat cs)"

lemma pending_simps [simp]:
  "pending [] = 0" "pending (c # cs) = length c + pending cs"
  by (simp_all add: pending_def)

lemma read_sock_pending:
  "read_sock n cs = (bs, r) \<Longrightarrow> pending r + length bs = pending cs"
  by (induction n cs rule: read_sock.induct) (auto split: if_splits)

lemma read_sock_conserves: "read_sock n cs = (bs, r) \<Longrightarrow> bs @ concat r = concat cs"
  by (induction n cs rule: read_sock.induct) (auto split: if_splits)

lemma read_sock_length: "read_sock n cs = (bs, r) \<Longrightarrow> length bs \<le> n"
  by (induction n cs rule: read_sock.induct) (auto split: if_splits)

lemma read_sock_less:
  assumes "read_sock n cs = (bs, r)" "bs \<noteq> []"
  shows "pending r < pending cs"
proof -
  have "0 < length bs" using assms(2) by simp
  with read_sock_pending [OF assms(1)] show ?thesis by linarith
qed

lemma read_sock_byte [simp]: "read_sock (Suc 0) ([b] # cs) = ([b], cs)"
  by simp

lemma read_sock_int [simp]: "read_sock 4 (int_bytes i # cs) = (int_bytes i, cs)"
  by simp

text \<open>
  \<open>bzero\<close> followed by \<open>read\<close> of an \<open>int\<close>: the value when something arrived, \<open>None\<close> when \<open>read\<close>
  returned 0 or failed.
\<close>

definition read_int :: "segs \<Rightarrow> int option \<times> segs" where
  "read_int cs = (let (bs, r) = read_sock 4 cs in (if bs = [] then None else Some (bytes_int bs), r))"

lemma read_int_bytes [simp]: "int32 i \<Longrightarrow> read_int (int_bytes i # cs) = (Some i, cs)"
  by (simp add: read_int_def bytes_int_bytes)

lemma read_int_eof [simp]: "read_int [] = (None, [])"
  by (simp add: read_int_def)

lemma read_int_pending: "read_int cs = (v, r) \<Longrightarrow> pending r \<le> pending cs"
  by (auto simp: read_int_def Let_def split: prod.splits dest: read_sock_pending)

lemma read_int_Some:
  assumes "read_int cs = (Some v, r)"
  shows "int32 v \<and> pending r < pending cs"
proof -
  obtain bs where bs: "read_sock 4 cs = (bs, r)" "bs \<noteq> []" "v = bytes_int bs"
    using assms by (auto simp: read_int_def Let_def split: prod.splits if_splits)
  then show ?thesis using read_sock_less by auto
qed

section \<open>The network as seen by a sender\<close>

text \<open>
  What the operating system answers when a proxy opens a connection: the descriptor of
  \<open>socket\<close>, whether \<open>inet_aton\<close> accepts the address, whether \<open>connect\<close> succeeds and whether the
  k-th \<open>write\<close> on it does.
\<close>

record netenv =
  ne_socket :: int
  ne_aton :: "string \<Rightarrow> bool"
  ne_connect :: "string \<Rightarrow> bool"
  ne_write :: "nat \<Rightarrow> bool"

text \<open>The segments that reach the peer when the writes of \<open>msgs\<close> are numbered from \<open>k\<close>.\<close>

fun write_all :: "(nat \<Rightarrow> bool) \<Rightarrow> nat \<Rightarrow> segs \<Rightarrow> segs" where
  "write_all w k [] = []"
| "write_all w k (m # ms) = (if w k then m # write_all w (Suc k) ms else write_all w (Suc k) ms)"

lemma write_all_ok [simp]: "(\<And>j. w j) \<Longrightarrow> write_all w k ms = ms"
  by (induction ms arbitrary: k) auto

text \<open>
  The common body of \<open>sendResponse\<close>, \<open>sendID\<close> and \<open>changeController\<close>: open, resolve, connect,
  write; a failed \<open>socket\<close> or \<open>inet_aton\<close> exits the process, a failed \<open>connect\<close> sends nothing.
\<close>

definition send_to :: "netenv \<Rightarrow> string \<Rightarrow> segs \<Rightarrow> segs res" where
  "send_to ne ip msgs =
     (if ne_socket ne < 0 then Inl (Exit 1)
      else if \<not> ne_aton ne ip then Inl (Exit 1)
      else if ne_connect ne ip then Inr (write_all (ne_write ne) 0 msgs)
      else Inr [])"

definition net_up :: "netenv \<Rightarrow> bool" where
  "net_up ne \<longleftrightarrow> 0 \<le> ne_socket ne \<and> ne_aton ne = (\<lambda>_. True) \<and> ne_connect ne = (\<lambda>_. True) \<and>
     ne_write ne = (\<lambda>_. True)"

lemma send_to_up [simp]: "net_up ne \<Longrightarrow> send_to ne ip msgs = Inr msgs"
  by (simp add: send_to_def net_up_def)

text \<open>A network on which everything succeeds.\<close>

definition net_ok :: netenv where
  "net_ok = \<lparr>ne_socket = 3, ne_aton = (\<lambda>_. True), ne_connect = (\<lambda>_. True), ne_write = (\<lambda>_. True)\<rparr>"

lemma net_ok_up [simp]: "net_up net_ok"
  by (simp add: net_up_def net_ok_def)

end
