(* ===== verification/C_Float.thy ===== *)
theory C_Float
  imports Webq_Prelude "HOL-Library.Log_Nat"
begin

text \<open>
  Single-precision arithmetic as the sources use it (shares of capacity, waiting times): a
  \<open>float\<close> is a rational, and every operation rounds its exact result to 24 significant bits, ties
  to even. Exponents are not bounded: every value the programs form lies between $2^{-34}$ and
  $2^{35}$ in magnitude, far inside the range of normal numbers. \<open>round\<close> is the C library's
  rounding, halves away from zero.
\<close>

section \<open>Rounding\<close>

text \<open>The exponent of a positive rational: the \<open>e\<close> with $2^e \leq x < 2^{e+1}$.\<close>

definition flexp :: "rat \<Rightarrow> int" where
  "flexp x = (let (n, d) = quotient_of x; e = bitlen n - bitlen d
              in if 2 powi e \<le> x then e else e - 1)"

definition round_half_even :: "rat \<Rightarrow> int" where
  "round_half_even y =
     (let f = \<lfloor>y\<rfloor>; r = y - of_int f
      in if r < 1 / 2 then f else if 1 / 2 < r then f + 1 else if even f then f else f + 1)"

definition fl32 :: "rat \<Rightarrow> rat" where
  "fl32 x =
     (if x = 0 then 0
      else let u = 2 powi (flexp \<bar>x\<bar> - 23) in of_int (round_half_even (x / u)) * u)"

text \<open>\<open>round\<close> of the C library.\<close>

definition c_round :: "rat \<Rightarrow> int" where
  "c_round y = (if 0 \<le> y then \<lfloor>y + 1 / 2\<rfloor> else - \<lfloor>1 / 2 - y\<rfloor>)"

section \<open>Exponents\<close>

lemma powi_diff2: "(2 :: rat) powi (a - b) = 2 powi a / 2 powi b"
  by (simp add: power_int_diff)

lemma powi_nat: "0 \<le> e \<Longrightarrow> (2 :: rat) powi e = of_int (2 ^ nat e)"
  by (simp add: power_int_def)

lemma bitlen_powi:
  assumes "0 < n"
  shows "2 powi (bitlen n - 1) \<le> (of_int n :: rat)" "(of_int n :: rat) < 2 powi (bitlen n)"
proof -
  have b: "2 ^ nat (bitlen n - 1) \<le> n" "n < 2 ^ nat (bitlen n)"
    using bitlen_bounds [OF assms] by auto
  have "0 < bitlen n" using assms bitlen_nonneg [of n] bitlen_eq_zero_iff [of n] by linarith
  then have b0: "0 \<le> bitlen n - 1" "0 \<le> bitlen n" by simp_all
  then have "(2 :: rat) powi (bitlen n - 1) = of_int (2 ^ nat (bitlen n - 1))"
    "(2 :: rat) powi (bitlen n) = of_int (2 ^ nat (bitlen n))"
    by (simp_all only: powi_nat)
  then show "2 powi (bitlen n - 1) \<le> (of_int n :: rat)" "(of_int n :: rat) < 2 powi (bitlen n)"
    using b by (simp_all only: of_int_le_iff of_int_less_iff)
qed

lemma flexp_bounds:
  assumes "0 < x"
  shows "2 powi flexp x \<le> x" "x < 2 powi (flexp x + 1)"
proof -
  obtain n d where q: "quotient_of x = (n, d)" by fastforce
  have d: "0 < d" and x: "x = of_int n / of_int d"
    using q quotient_of_denom_pos quotient_of_div by blast+
  with assms have n: "0 < n" by (simp add: zero_less_divide_iff)
  let ?e = "bitlen n - bitlen d"
  have p: "0 < (2 :: rat) powi k" for k by simp
  have "x < 2 powi (bitlen n) / 2 powi (bitlen d - 1)"
    unfolding x using bitlen_powi [OF n] bitlen_powi [OF d] d n p
    by (intro frac_less) auto
  then have up: "x < 2 powi (?e + 1)"
    by (simp add: powi_diff2 [symmetric] algebra_simps)
  have "2 powi (bitlen n - 1) / 2 powi (bitlen d) \<le> x"
    unfolding x using bitlen_powi [OF n] bitlen_powi [OF d] d n p
    by (intro frac_le) auto
  then have lo: "2 powi (?e - 1) \<le> x"
    by (simp add: powi_diff2 [symmetric] algebra_simps)
  show "2 powi flexp x \<le> x" using lo by (simp add: flexp_def q Let_def)
  show "x < 2 powi (flexp x + 1)" using up by (simp add: flexp_def q Let_def not_le)
qed

section \<open>Error bounds\<close>

lemma round_half_even_error: "\<bar>of_int (round_half_even y) - y\<bar> \<le> 1 / 2"
proof -
  have "0 \<le> y - of_int \<lfloor>y\<rfloor>" "y - of_int \<lfloor>y\<rfloor> < 1"
    by (simp_all add: of_int_floor_le) linarith
  then show ?thesis by (auto simp: round_half_even_def Let_def abs_le_iff)
qed

lemma round_half_even_int [simp]: "round_half_even (of_int k) = k"
  by (simp add: round_half_even_def)

text \<open>Relative error at most $2^{-24}$.\<close>

lemma fl32_error: "\<bar>fl32 x - x\<bar> \<le> \<bar>x\<bar> / 2 ^ 24"
proof (cases "x = 0")
  case False
  let ?e = "flexp \<bar>x\<bar>"
  let ?u = "(2 :: rat) powi (?e - 23)"
  have u: "0 < ?u" by simp
  have "\<bar>fl32 x - x\<bar> = \<bar>of_int (round_half_even (x / ?u)) - x / ?u\<bar> * ?u"
    using False u by (simp add: fl32_def Let_def abs_mult_pos left_diff_distrib)
  also have "\<dots> \<le> 1 / 2 * ?u"
    using round_half_even_error u by (intro mult_right_mono) auto
  also have "\<dots> = 2 powi ?e / 2 ^ 24"
    by (simp add: powi_diff2)
  also have "\<dots> \<le> \<bar>x\<bar> / 2 ^ 24"
    using flexp_bounds(1) [of "\<bar>x\<bar>"] False by (simp add: divide_right_mono)
  finally show ?thesis .
qed (simp add: fl32_def)

lemma fl32_0 [simp]: "fl32 0 = 0"
  by (simp add: fl32_def)

lemma fl32_nonneg: "0 \<le> x \<Longrightarrow> 0 \<le> fl32 x"
proof -
  assume "0 \<le> x"
  then have "\<bar>x\<bar> / 2 ^ 24 \<le> x" by (simp add: field_simps)
  with fl32_error [of x] have "\<bar>fl32 x - x\<bar> \<le> x" by (rule order_trans)
  then show ?thesis unfolding abs_le_iff by linarith
qed

lemma fl32_pos: "0 < x \<Longrightarrow> 0 < fl32 x"
proof -
  assume "0 < x"
  then have "\<bar>x\<bar> / 2 ^ 24 < x" by (simp add: field_simps)
  with fl32_error [of x] have "\<bar>fl32 x - x\<bar> < x" by (rule le_less_trans)
  then show ?thesis unfolding abs_less_iff by linarith
qed

text \<open>Integers of at most 24 bits are exact.\<close>

lemma fl32_int:
  assumes "\<bar>k\<bar> < 2 ^ 24"
  shows "fl32 (of_int k) = of_int k"
proof (cases "k = 0")
  case False
  let ?e = "flexp \<bar>of_int k :: rat\<bar>"
  have "2 powi ?e \<le> \<bar>of_int k :: rat\<bar>" using flexp_bounds(1) False by simp
  also have "\<dots> < 2 powi 24"
  proof -
    have "(of_int \<bar>k\<bar> :: rat) < of_int (2 ^ 24)" using assms by (simp only: of_int_less_iff)
    then show ?thesis by simp
  qed
  finally have "(2 :: rat) powi ?e < 2 powi 24" .
  then have "\<not> 24 \<le> ?e" using power_int_increasing [of 24 ?e "2 :: rat"] by fastforce
  then have "?e \<le> 23" by simp
  then have u: "(2 :: rat) powi (?e - 23) = 1 / of_int (2 ^ nat (23 - ?e))"
    using powi_nat [of "23 - ?e"] power_int_minus [of "2 :: rat" "23 - ?e"]
    by (simp add: field_simps)
  have "(of_int k :: rat) / (1 / of_int (2 ^ nat (23 - ?e))) = of_int (k * 2 ^ nat (23 - ?e))"
    by simp
  then show ?thesis using False
    by (simp only: fl32_def Let_def u round_half_even_int of_int_eq_0_iff if_False) simp
qed simp

lemma c_round_int [simp]: "c_round (of_int k) = k"
proof -
  have "\<lfloor>(of_int k :: rat) + 1 / 2\<rfloor> = k" "\<lfloor>1 / 2 - (of_int k :: rat)\<rfloor> = - k"
    by (auto intro!: floor_unique)
  then show ?thesis by (simp add: c_round_def)
qed

lemma c_round_error: "\<bar>of_int (c_round y) - y\<bar> \<le> 1 / 2"
proof -
  have "of_int \<lfloor>y + 1 / 2\<rfloor> \<le> y + 1 / 2" "y + 1 / 2 < of_int \<lfloor>y + 1 / 2\<rfloor> + 1"
    "of_int \<lfloor>1 / 2 - y\<rfloor> \<le> 1 / 2 - y" "1 / 2 - y < of_int \<lfloor>1 / 2 - y\<rfloor> + 1"
    using floor_correct [of "y + 1 / 2"] floor_correct [of "1 / 2 - y"] by simp_all
  then show ?thesis unfolding c_round_def abs_le_iff by (cases "0 \<le> y") (simp_all, linarith+)
qed

lemma c_round_nonneg: "0 \<le> y \<Longrightarrow> 0 \<le> c_round y"
  by (simp add: c_round_def)

end
