(* ===== verification/Shared_Vars.thy ===== *)
theory Shared_Vars
  imports Wire C_Float
begin

text \<open>
  The helpers of \<open>functions.h\<close>, common to TokenGen and Controller: the token a waiting client is
  given, its keyed hash, and the updates of shared counters. Each update runs under a mutex of its
  own and is one atomic step here. The keyed hash function of OpenSSL is a parameter \<open>hmac\<close> (key,
  data, 16 digest bytes); the hex string is written into a static buffer of 32 bytes, which is
  modelled together with the memory behind it because the last write goes one byte too far.
\<close>

section \<open>Tokens\<close>

definition SECRET_KEY :: string where
  "SECRET_KEY = ''key''"

definition encrypt :: "string \<Rightarrow> string" where
  "encrypt s = s"

definition decrypt :: "string \<Rightarrow> string" where
  "decrypt s = s"

text \<open>
  \<open>get_token\<close>: \<open>addr\<close> is the value of \<open>REMOTE_ADDR\<close> (a null pointer if the variable is not set),
  \<open>now\<close> that of \<open>time\<close>; the result goes into 50 bytes.
\<close>

definition get_token :: "string option \<Rightarrow> int \<Rightarrow> int \<Rightarrow> string res" where
  "get_token addr now time_to_wait =
     (case addr of
        None \<Rightarrow> Inl NullDeref
      | Some a \<Rightarrow>
          let s = a @ ''%7C'' @ show_int now @ ''%7C'' @ show_int time_to_wait
          in bindR (checkR (length s + 1 \<le> 50) BufferOverflow) (\<lambda>_. Inr s))"

section \<open>The keyed hash\<close>

definition NUL :: char where
  "NUL = CHR 0x00"

definition hex_digit :: "nat \<Rightarrow> char" where
  "hex_digit d = (if d < 10 then char_of (48 + d) else char_of (87 + d))"

definition hex2 :: "byte \<Rightarrow> string" where
  "hex2 b = [hex_digit (unat b div 16), hex_digit (unat b mod 16)]"

text \<open>\<open>sprintf\<close> of a string into memory at an offset, with its terminating NUL.\<close>

definition put_str :: "nat \<Rightarrow> string \<Rightarrow> char list \<Rightarrow> char list" where
  "put_str pos s mem = take pos mem @ s @ [NUL] @ drop (pos + length s + 1) mem"

definition c_string :: "char list \<Rightarrow> string" where
  "c_string mem = takeWhile (\<lambda>c. c \<noteq> NUL) mem"

fun hash_loop :: "nat \<Rightarrow> byte list \<Rightarrow> char list \<Rightarrow> char list" where
  "hash_loop i [] mem = mem"
| "hash_loop i (b # bs) mem = hash_loop (Suc i) bs (put_str (2 * i) (hex2 b) mem)"

text \<open>
  \<open>getHash\<close>: the string it returns and the memory it leaves, \<open>res_hexstring\<close> first. The loop runs
  over the 16 bytes of the digest.
\<close>

definition getHash :: "(string \<Rightarrow> string \<Rightarrow> byte list) \<Rightarrow> string \<Rightarrow> char list \<Rightarrow> string \<times> char list" where
  "getHash hmac data mem =
     (let mem' = hash_loop 0 (take 16 (hmac SECRET_KEY data)) mem in (c_string mem', mem'))"

section \<open>Shared counters\<close>

definition change_values :: "int \<Rightarrow> int \<Rightarrow> int" where
  "change_values v num = (if num = 0 then 0 else wrap32 (v + num))"

definition change_long_values :: "64 word \<Rightarrow> 64 word \<Rightarrow> 64 word" where
  "change_long_values v num = (if num = 0 then 0 else v + num)"

definition get_values :: "32 word \<Rightarrow> int" where
  "get_values v = uint v"

definition change_float_values :: "rat \<Rightarrow> rat \<Rightarrow> rat \<Rightarrow> rat" where
  "change_float_values v num min_val =
     (let v = (if num = 0 then 0 else v)
      in if fl32 (v + num) > min_val then fl32 (v + num) else min_val)"

definition update_array :: "int \<Rightarrow> int \<Rightarrow> int" where
  "update_array v num = (if num = 0 then 0 else wrap32 (v + num))"

definition set_array :: "int \<Rightarrow> int \<Rightarrow> int" where
  "set_array v num = num"

definition get_array :: "int \<Rightarrow> int" where
  "get_array v = v"

definition change_time :: "int \<Rightarrow> int \<Rightarrow> int" where
  "change_time stime now = now"

definition set_value :: "int \<Rightarrow> int \<Rightarrow> int" where
  "set_value v num = num"

section \<open>Facts\<close>

lemma hex_digit_not_NUL [simp]: "d < 16 \<Longrightarrow> hex_digit d \<noteq> NUL"
proof -
  assume "d < 16"
  then have "of_char (hex_digit d) \<noteq> (0 :: nat)" by (simp add: hex_digit_def)
  moreover have "of_char NUL = (0 :: nat)" by (simp add: NUL_def)
  ultimately show ?thesis by metis
qed

lemma unat_byte_div [simp]: "unat (b :: byte) div 16 < 16"
  using unsigned_less [of b, where 'a = nat] by (simp add: less_mult_imp_div_less)

lemma hex2_not_NUL: "c \<in> set (hex2 b) \<Longrightarrow> c \<noteq> NUL"
proof -
  assume "c \<in> set (hex2 b)"
  then have "c = hex_digit (unat b div 16) \<or> c = hex_digit (unat b mod 16)"
    by (simp add: hex2_def)
  then show ?thesis by (elim disjE) simp_all
qed

lemma hex2_length [simp]: "length (hex2 b) = 2"
  by (simp add: hex2_def)

text \<open>Distinct bytes print differently, so the printed digest determines the digest.\<close>

lemma hex_digit_inj: "d < 16 \<Longrightarrow> e < 16 \<Longrightarrow> hex_digit d = hex_digit e \<longleftrightarrow> d = e"
proof -
  assume d: "d < 16" "e < 16"
  have "hex_digit d = hex_digit e \<Longrightarrow> (of_char (hex_digit d) :: nat) = of_char (hex_digit e)"
    by simp
  with d show ?thesis by (auto simp: hex_digit_def split: if_splits)
qed

lemma hex2_inj: "hex2 a = hex2 b \<longleftrightarrow> a = b"
proof
  assume "hex2 a = hex2 b"
  then have "unat a div 16 = unat b div 16" "unat a mod 16 = unat b mod 16"
    by (auto simp: hex2_def hex_digit_inj)
  then have "unat a = unat b" by (metis div_mult_mod_eq)
  then show "a = b" by (rule unsigned_word_eqI)
qed simp

abbreviation hex_string :: "byte list \<Rightarrow> string" where
  "hex_string bs \<equiv> concat (map hex2 bs)"

lemma hex_string_inj: "hex_string as = hex_string bs \<longleftrightarrow> as = bs"
proof
  show "hex_string as = hex_string bs \<Longrightarrow> as = bs"
  proof (induction as arbitrary: bs)
    case Nil
    then show ?case by (cases bs) (auto simp: hex2_def)
  next
    case (Cons a as)
    from Cons.prems obtain b bs' where b: "bs = b # bs'" by (cases bs) (auto simp: hex2_def)
    with Cons.prems have "hex2 a = hex2 b" "hex_string as = hex_string bs'"
      by (auto simp: append_eq_append_conv)
    with Cons.IH b show ?case by (simp add: hex2_inj)
  qed
qed simp

lemma hex_string_length [simp]: "length (hex_string bs) = 2 * length bs"
  by (induction bs) auto

lemma hex_string_not_NUL: "c \<in> set (hex_string bs) \<Longrightarrow> c \<noteq> NUL"
  by (auto dest: hex2_not_NUL)

lemma hash_loop_step:
  assumes "bs \<noteq> []" "length pre = 2 * i"
  shows "hash_loop i bs (pre @ suf) =
           pre @ hex_string bs @ [NUL] @ drop (2 * length bs + 1) suf"
  using assms
proof (induction bs arbitrary: i pre suf)
  case (Cons b bs)
  have put: "put_str (2 * i) (hex2 b) (pre @ suf) = (pre @ hex2 b) @ NUL # drop 3 suf"
    using Cons.prems by (simp add: put_str_def)
  show ?case
  proof (cases "bs = []")
    case True
    then show ?thesis by (simp add: put)
  next
    case False
    have "hash_loop (Suc i) bs ((pre @ hex2 b) @ NUL # drop 3 suf) =
        (pre @ hex2 b) @ hex_string bs @ [NUL] @ drop (2 * length bs + 1) (NUL # drop 3 suf)"
      by (rule Cons.IH) (use False Cons.prems in auto)
    moreover have "drop (2 * length bs + 1) (NUL # drop 3 suf) = drop (2 * length (b # bs) + 1) suf"
      by (simp add: eval_nat_numeral)
    ultimately show ?thesis by (simp only: hash_loop.simps put list.map concat.simps append_assoc)
  qed
qed simp

lemma getHash_eq:
  assumes "length (hmac SECRET_KEY data) = 16"
  shows "getHash hmac data mem =
     (hex_string (hmac SECRET_KEY data), hex_string (hmac SECRET_KEY data) @ [NUL] @ drop 33 mem)"
proof -
  let ?d = "hmac SECRET_KEY data"
  have ne: "?d \<noteq> []" using assms by auto
  have "hash_loop 0 ?d ([] @ mem) = [] @ hex_string ?d @ [NUL] @ drop (2 * length ?d + 1) mem"
    by (rule hash_loop_step) (use ne in auto)
  moreover have "c_string (hex_string ?d @ NUL # r) = hex_string ?d" for r
    unfolding c_string_def using hex_string_not_NUL [of _ ?d]
    by (subst takeWhile_append2) auto
  ultimately show ?thesis using assms by (simp add: getHash_def Let_def)
qed

lemma get_token_ok:
  assumes "length a \<le> 15" "0 \<le> now" "now < 10 ^ 10" "0 \<le> w" "w < 1000"
  shows "get_token (Some a) now w = Inr (a @ ''%7C'' @ show_int now @ ''%7C'' @ show_int w)"
proof -
  have "length (show_int now) \<le> 10"
    using assms show_nat_length [of "nat now" 10] by (simp add: show_int_def)
  moreover have "length (show_int w) \<le> 3"
    using assms show_nat_length [of "nat w" 3] by (simp add: show_int_def)
  ultimately show ?thesis using assms by (simp add: get_token_def Let_def)
qed

section \<open>Properties\<close>

text \<open>
  \<open>getHash\<close> returns the keyed digest of the token in lower-case hex, a different string for every
  digest, and writes one byte behind its static buffer of 32 bytes.
\<close>

lemma getHash_result_and_overrun:
  assumes "length (hmac SECRET_KEY data) = 16" "length (hmac SECRET_KEY data') = 16" "length mem = 33"
  shows "fst (getHash hmac data mem) = hex_string (hmac SECRET_KEY data) \<and>
    (fst (getHash hmac data mem) = fst (getHash hmac data' mem) \<longleftrightarrow> hmac SECRET_KEY data = hmac SECRET_KEY data') \<and>
    snd (getHash hmac data mem) ! 32 = NUL"
proof -
  have "(hex_string (hmac SECRET_KEY data) @ [NUL] @ drop 33 mem) ! 32 = NUL"
    using assms(1) by (simp add: nth_append)
  then show ?thesis
    using getHash_eq [of hmac data mem] getHash_eq [of hmac data' mem] assms(1,2) by (simp add: hex_string_inj)
qed

lemma getHash_result_and_overrun_example:
  "snd (getHash (\<lambda>k d. replicate 16 0) ''t'' (replicate 32 (CHR ''x'') @ [CHR ''Y''])) ! 32 = NUL \<and> CHR ''Y'' \<noteq> NUL"
  using getHash_result_and_overrun [of "\<lambda>k d. replicate 16 0" "''t''" "''t''" "replicate 32 (CHR ''x'') @ [CHR ''Y'']"]
  by (simp add: NUL_def)

end
