(* ===== verification/Config_Parser.thy ===== *)
theory Config_Parser
  imports Webq_Prelude
begin

text \<open>
  The readers of \<open>proxy.conf\<close> (\<open>parser.h\<close> of TokenGen and of Controller). A value ends at the first
  space, the rest of its line is a comment; the number of the line decides which setting the value
  becomes. Values are copied by \<open>strcpy\<close> into blocks of fixed size: \<open>usable n\<close> is the number of
  bytes the allocator really provides for a request of \<open>n\<close>, so that a copy which does not fit is
  the fault \<open>BufferOverflow\<close>. The line buffer of the reader itself grows on demand and is modelled
  with its size.
\<close>

section \<open>Reading values\<close>

abbreviation newline :: char where "newline \<equiv> CHR 0x0A"
abbreviation tab :: char where "tab \<equiv> CHR 0x09"
abbreviation space :: char where "space \<equiv> CHR '' ''"

text \<open>
  The inner loop: read up to a space or the end of the file, drop tabs, store everything else at
  \<open>pos\<close> and double the buffer when it is about to be full. It returns the value, the buffer's
  sz, the last character read (\<open>None\<close> for \<open>EOF\<close>) and the rest of the file.
\<close>

fun read_tok :: "nat \<Rightarrow> nat \<Rightarrow> string \<Rightarrow> (string \<times> nat \<times> char option \<times> string) res" where
  "read_tok sz pos [] = Inr ([], sz, None, [])"
| "read_tok sz pos (c # cs) =
     (if c = space then Inr ([], sz, Some c, cs)
      else if c = tab
      then read_tok (if pos \<ge> sz - 1 then 2 * sz else sz) pos cs
      else if pos < sz
      then bindR (read_tok (if Suc pos \<ge> sz - 1 then 2 * sz else sz) (Suc pos) cs)
             (\<lambda>(t, r). Inr (c # t, r))
      else Inl BufferOverflow)"

text \<open>Skip to the end of the line.\<close>

fun skip_line :: "string \<Rightarrow> char option \<times> string" where
  "skip_line [] = (None, [])"
| "skip_line (c # cs) = (if c = newline then (Some c, cs) else skip_line cs)"

lemma read_tok_shorter: "read_tok sz pos cs = Inr (t, s, l, r) \<Longrightarrow> length r \<le> length cs"
  by (induction sz pos cs arbitrary: t s l r rule: read_tok.induct)
     (fastforce simp: res_simps split: if_splits prod.splits)+

lemma skip_line_shorter: "skip_line cs = (Some c, r) \<Longrightarrow> length r < length cs"
  by (induction cs) (auto split: if_splits)

text \<open>The outer loop, with the \<open>switch\<close> on the line number as a parameter.\<close>

function parse_loop :: "(nat \<Rightarrow> string \<Rightarrow> 'c \<Rightarrow> 'c res) \<Rightarrow> nat \<Rightarrow> nat \<Rightarrow> 'c \<Rightarrow> string \<Rightarrow> 'c res" where
  "parse_loop dispatch sz nl cfg cs =
     bindR (read_tok sz 0 cs) (\<lambda>(buffer, sz, l, r).
       bindR (dispatch (Suc nl) buffer cfg) (\<lambda>cfg.
         case (case l of None \<Rightarrow> (None, r) | Some _ \<Rightarrow> skip_line r) of
           (None, _) \<Rightarrow> Inr cfg
         | (Some _, r) \<Rightarrow> parse_loop dispatch sz (Suc nl) cfg r))"
  by pat_completeness auto
termination
proof (relation "measure (\<lambda>(d, sz, nl, cfg, cs). length cs)", goal_cases)
  case 2
  then show ?case
    by (auto split: option.splits dest!: read_tok_shorter skip_line_shorter [OF sym])
qed simp

declare parse_loop.simps [simp del]

section \<open>Settings\<close>

record config =
  cf_listening_portno :: int
  cf_sending_port :: string
  cf_tokenCheckIp :: string
  cf_ip_controller :: "string option list"
  cf_myId :: int
  cf_no_of_proxy :: int
  cf_ip_array :: "string option list"
  cf_i :: nat

definition strcpy_fits :: "(nat \<Rightarrow> nat) \<Rightarrow> nat \<Rightarrow> string \<Rightarrow> bool" where
  "strcpy_fits usable n s \<longleftrightarrow> length s + 1 \<le> usable n"

definition cfg_init :: config where
  "cfg_init = \<lparr>cf_listening_portno = 0, cf_sending_port = [], cf_tokenCheckIp = [],
     cf_ip_controller = [None, None], cf_myId = 0, cf_no_of_proxy = 0,
     cf_ip_array = [None, None, None, None, None], cf_i = 0\<rparr>"

text \<open>The assignments of the \<open>switch\<close>, each guarded by its copy.\<close>

definition set_port :: "(nat \<Rightarrow> nat) \<Rightarrow> string \<Rightarrow> config \<Rightarrow> config res" where
  "set_port usable s cfg = bindR (checkR (strcpy_fits usable 8 s) BufferOverflow)
     (\<lambda>_. Inr (cfg\<lparr>cf_listening_portno := atoi s, cf_sending_port := s\<rparr>))"

definition set_tokenCheckIp :: "(nat \<Rightarrow> nat) \<Rightarrow> string \<Rightarrow> config \<Rightarrow> config res" where
  "set_tokenCheckIp usable s cfg = bindR (checkR (strcpy_fits usable 8 s) BufferOverflow)
     (\<lambda>_. Inr (cfg\<lparr>cf_tokenCheckIp := s\<rparr>))"

definition set_controller :: "(nat \<Rightarrow> nat) \<Rightarrow> nat \<Rightarrow> string \<Rightarrow> config \<Rightarrow> config res" where
  "set_controller usable k s cfg = bindR (checkR (strcpy_fits usable 20 s) BufferOverflow)
     (\<lambda>_. Inr (cfg\<lparr>cf_ip_controller := (cf_ip_controller cfg)[k := Some s]\<rparr>))"

definition add_peer :: "(nat \<Rightarrow> nat) \<Rightarrow> string \<Rightarrow> config \<Rightarrow> config res" where
  "add_peer usable s cfg =
     bindR (checkR (cf_i cfg < length (cf_ip_array cfg)) OutOfBounds) (\<lambda>_.
       bindR (checkR (strcpy_fits usable 20 s) BufferOverflow) (\<lambda>_.
         Inr (cfg\<lparr>cf_ip_array := (cf_ip_array cfg)[cf_i cfg := Some s], cf_i := Suc (cf_i cfg)\<rparr>)))"

text \<open>TokenGen: port, TokenCheck, the two controllers, its own id, peers.\<close>

definition tg_dispatch :: "(nat \<Rightarrow> nat) \<Rightarrow> nat \<Rightarrow> string \<Rightarrow> config \<Rightarrow> config res" where
  "tg_dispatch usable nl s cfg =
     (if nl = 1 then set_port usable s cfg
      else if nl = 2 then set_tokenCheckIp usable s cfg
      else if nl = 3 then set_controller usable 0 s cfg
      else if nl = 4 then set_controller usable 1 s cfg
      else if nl = 5 then Inr (cfg\<lparr>cf_myId := atoi s\<rparr>)
      else add_peer usable s cfg)"

definition tg_parse_config_file :: "(nat \<Rightarrow> nat) \<Rightarrow> string option \<Rightarrow> config \<Rightarrow> config res" where
  "tg_parse_config_file usable f cfg =
     (case f of None \<Rightarrow> Inr cfg | Some cs \<Rightarrow> parse_loop (tg_dispatch usable) 1024 0 cfg cs)"

text \<open>Controller: port, TokenCheck, its own id, the two controllers, the number of peers, peers.\<close>

definition ctl_dispatch :: "(nat \<Rightarrow> nat) \<Rightarrow> nat \<Rightarrow> string \<Rightarrow> config \<Rightarrow> config res" where
  "ctl_dispatch usable nl s cfg =
     (if nl = 1 then set_port usable s cfg
      else if nl = 2 then set_tokenCheckIp usable s cfg
      else if nl = 3 then Inr (cfg\<lparr>cf_myId := atoi s\<rparr>)
      else if nl = 4 then set_controller usable 0 s cfg
      else if nl = 5 then set_controller usable 1 s cfg
      else if nl = 6 then Inr (cfg\<lparr>cf_no_of_proxy := atoi s\<rparr>)
      else add_peer usable s cfg)"

definition ctl_parse_config_file :: "(nat \<Rightarrow> nat) \<Rightarrow> string option \<Rightarrow> config \<Rightarrow> config res" where
  "ctl_parse_config_file usable f cfg =
     (case f of None \<Rightarrow> Inr cfg | Some cs \<Rightarrow> parse_loop (ctl_dispatch usable) 1024 0 cfg cs)"

lemmas dispatch_defs = set_port_def set_tokenCheckIp_def set_controller_def add_peer_def
  tg_dispatch_def ctl_dispatch_def

section \<open>The reader's own buffer\<close>

text \<open>The line buffer never overflows, whatever the file holds.\<close>

lemma read_tok_safe:
  assumes "pos < sz - 1" "2 \<le> sz"
  shows "\<exists>t s l r. read_tok sz pos cs = Inr (t, s, l, r) \<and> sz \<le> s"
  using assms
proof (induction sz pos cs rule: read_tok.induct)
  case (1 sz pos)
  then show ?case by simp
next
  case (2 sz pos c cs)
  show ?case
  proof (cases "c = space")
    case True
    then show ?thesis by simp
  next
    case ns: False
    show ?thesis
    proof (cases "c = tab")
      case True
      with 2 ns show ?thesis by simp
    next
      case False
      let ?sz = "if Suc pos \<ge> sz - 1 then 2 * sz else sz"
      have "Suc pos < ?sz - 1" "2 \<le> ?sz" using 2(3,4) by (simp_all, linarith)
      moreover have "pos < sz" using 2(3) by simp
      ultimately obtain t s l r where "read_tok ?sz (Suc pos) cs = Inr (t, s, l, r)" "?sz \<le> s"
        using 2(2) ns False by blast
      moreover from this(2) have "sz \<le> s" by (auto split: if_splits)
      ultimately show ?thesis using ns False \<open>pos < sz\<close> by simp
    qed
  qed
qed

text \<open>A value without blanks is read up to the space that follows it.\<close>

definition clean :: "string \<Rightarrow> bool" where
  "clean v \<longleftrightarrow> space \<notin> set v \<and> tab \<notin> set v"

lemma read_tok_clean:
  assumes "clean v" "pos < sz - 1" "2 \<le> sz"
  shows "\<exists>s. read_tok sz pos (v @ space # r) = Inr (v, s, Some space, r) \<and> sz \<le> s"
  using assms
proof (induction v arbitrary: sz pos)
  case (Cons c v)
  let ?sz = "if Suc pos \<ge> sz - 1 then 2 * sz else sz"
  have "Suc pos < ?sz - 1" "2 \<le> ?sz" using Cons.prems by (simp_all, linarith)
  moreover have c: "clean v" "c \<noteq> space" "c \<noteq> tab" using Cons.prems by (auto simp: clean_def)
  ultimately obtain s where s: "read_tok ?sz (Suc pos) (v @ space # r) = Inr (v, s, Some space, r)"
    "?sz \<le> s" using Cons.IH by blast
  moreover from s(2) have "sz \<le> s" by (auto split: if_splits)
  moreover have "pos < sz" using Cons.prems by simp
  ultimately show ?case using c by simp
qed simp

section \<open>Rendering and reading back\<close>

text \<open>A file in the documented form: every line is a value, a space, and a comment.\<close>

fun render :: "(string \<times> string) list \<Rightarrow> string" where
  "render [] = []"
| "render [(v, c)] = v @ space # c"
| "render ((v, c) # ls) = v @ space # c @ newline # render ls"

definition line_ok :: "string \<times> string \<Rightarrow> bool" where
  "line_ok l \<longleftrightarrow> clean (fst l) \<and> newline \<notin> set (snd l)"

fun dispatch_all :: "(nat \<Rightarrow> string \<Rightarrow> 'c \<Rightarrow> 'c res) \<Rightarrow> nat \<Rightarrow> string list \<Rightarrow> 'c \<Rightarrow> 'c res" where
  "dispatch_all d nl [] cfg = Inr cfg"
| "dispatch_all d nl (v # vs) cfg = bindR (d (Suc nl) v cfg) (dispatch_all d (Suc nl) vs)"

lemma skip_line_comment:
  "newline \<notin> set c \<Longrightarrow> skip_line (c @ newline # r) = (Some newline, r)"
  "newline \<notin> set c \<Longrightarrow> skip_line c = (None, [])"
  by (induction c) auto

text \<open>Reading such a file dispatches its values in order.\<close>

lemma parse_loop_render:
  assumes "ls \<noteq> []" "\<forall>l \<in> set ls. line_ok l" "2 \<le> sz"
  shows "parse_loop d sz nl cfg (render ls) = dispatch_all d nl (map fst ls) cfg"
  using assms
proof (induction ls arbitrary: sz nl cfg rule: render.induct)
  case (2 v c)
  then have ok: "clean v" "newline \<notin> set c" by (auto simp: line_ok_def)
  then obtain s where "read_tok sz 0 (v @ space # c) = Inr (v, s, Some space, c)"
    using read_tok_clean [of v 0 sz c] 2 by auto
  with ok show ?case
    by (simp add: parse_loop.simps [of d sz] skip_line_comment bindR_def split: sum.splits)
next
  case (3 v c l ls)
  then have ok: "clean v" "newline \<notin> set c" by (auto simp: line_ok_def)
  let ?r = "render (l # ls)"
  obtain s where s: "read_tok sz 0 (v @ space # c @ newline # ?r) = Inr (v, s, Some space, c @ newline # ?r)"
    "sz \<le> s"
    using read_tok_clean [of v 0 sz "c @ newline # ?r"] 3 ok by auto
  have ih: "parse_loop d s (Suc nl) cfg' ?r = dispatch_all d (Suc nl) (map fst (l # ls)) cfg'" for cfg'
    using 3 s(2) by simp
  have "parse_loop d sz nl cfg (render ((v, c) # l # ls)) =
      bindR (d (Suc nl) v cfg) (\<lambda>cfg'. parse_loop d s (Suc nl) cfg' ?r)"
    using s(1) ok by (subst parse_loop.simps) (simp add: skip_line_comment)
  moreover have "(\<lambda>cfg'. parse_loop d s (Suc nl) cfg' ?r) = dispatch_all d (Suc nl) (map fst (l # ls))"
    by (rule ext) (rule ih)
  ultimately show ?case by simp
qed simp

lemma dispatch_peers:
  assumes "6 \<le> nl" "cf_ip_array cfg = map Some done @ replicate (5 - length done) None"
    "cf_i cfg = length done" "length (done @ vs) \<le> 5" "\<forall>v \<in> set vs. strcpy_fits usable 20 v"
  shows "dispatch_all (ctl_dispatch usable) nl vs cfg =
    Inr (cfg\<lparr>cf_ip_array := map Some (done @ vs) @ replicate (5 - length (done @ vs)) None,
             cf_i := length (done @ vs)\<rparr>)"
  using assms
proof (induction vs arbitrary: nl cfg "done")
  case (Cons v vs)
  let ?cfg = "cfg\<lparr>cf_ip_array := (cf_ip_array cfg)[cf_i cfg := Some v], cf_i := Suc (cf_i cfg)\<rparr>"
  have r: "replicate (5 - length done) None = None # replicate (5 - length (done @ [v])) None"
    using Cons.prems(4) by (simp add: Suc_diff_Suc [symmetric] Suc_diff_le)
  have "ctl_dispatch usable (Suc nl) v cfg = Inr ?cfg"
    using Cons.prems by (simp add: ctl_dispatch_def add_peer_def)
  moreover have "cf_ip_array ?cfg = map Some (done @ [v]) @ replicate (5 - length (done @ [v])) None"
  proof -
    have "(map Some done @ replicate (5 - length done) None)[length done := Some v] =
        map Some (done @ [v]) @ replicate (5 - length (done @ [v])) None"
      unfolding r by (simp add: list_update_append)
    then show ?thesis using Cons.prems(2,3) by simp
  qed
  ultimately show ?case using Cons.IH [of "Suc nl" ?cfg "done @ [v]"] Cons.prems by simp
qed simp

section \<open>Properties\<close>

text \<open>
  A \<open>proxy.conf\<close> in the documented form, one value, a space and a comment per line, is read back
  exactly: the Controller gets its port, its id, both controllers, the number of peers and the peers in
  order, provided every value fits the block it is copied into.
\<close>

lemma controller_config_round_trip:
  assumes "\<forall>l \<in> set ([port, tc, me, c0, c1, n] @ peers). line_ok l" "length peers \<le> 5"
    and "strcpy_fits usable 8 (fst port)" "strcpy_fits usable 8 (fst tc)"
    and "strcpy_fits usable 20 (fst c0)" "strcpy_fits usable 20 (fst c1)"
    and "\<forall>p \<in> set peers. strcpy_fits usable 20 (fst p)"
  shows "ctl_parse_config_file usable (Some (render ([port, tc, me, c0, c1, n] @ peers))) cfg_init =
    Inr \<lparr>cf_listening_portno = atoi (fst port), cf_sending_port = fst port, cf_tokenCheckIp = fst tc,
         cf_ip_controller = [Some (fst c0), Some (fst c1)], cf_myId = atoi (fst me),
         cf_no_of_proxy = atoi (fst n),
         cf_ip_array = map (Some \<circ> fst) peers @ replicate (5 - length peers) None, cf_i = length peers\<rparr>"
proof -
  let ?ls = "[port, tc, me, c0, c1, n] @ peers"
  have "parse_loop (ctl_dispatch usable) 1024 0 cfg_init (render ?ls) =
      dispatch_all (ctl_dispatch usable) 0 (map fst ?ls) cfg_init"
    using assms(1) by (intro parse_loop_render) auto
  then show ?thesis using assms dispatch_peers [of 6 _ "[]" "map fst peers" usable]
    by (simp add: ctl_parse_config_file_def dispatch_defs cfg_init_def eval_nat_numeral)
qed

lemma controller_config_round_trip_example:
  "ctl_parse_config_file id (Some (render ([(''5000'', ''port''), (''h'', ''tc''), (''0'', ''id''), (''10.0.0.2'', ''c0''),
      (''10.0.0.3'', ''c1''), (''1'', ''n'')] @ [(''10.0.0.4'', ''tg'')]))) cfg_init =
    Inr \<lparr>cf_listening_portno = 5000, cf_sending_port = ''5000'', cf_tokenCheckIp = ''h'',
         cf_ip_controller = [Some ''10.0.0.2'', Some ''10.0.0.3''], cf_myId = 0, cf_no_of_proxy = 1,
         cf_ip_array = Some ''10.0.0.4'' # replicate 4 None, cf_i = 1\<rparr>"
proof -
  have "atoi ''5000'' = 5000" "atoi ''0'' = 0" "atoi ''1'' = 1"
    by code_simp+
  then show ?thesis
    using controller_config_round_trip [of "(''5000'', ''port'')" "(''h'', ''tc'')" "(''0'', ''id'')" "(''10.0.0.2'', ''c0'')"
        "(''10.0.0.3'', ''c1'')" "(''1'', ''n'')" "[(''10.0.0.4'', ''tg'')]" id]
    by (simp add: line_ok_def clean_def strcpy_fits_def)
qed

text \<open>
  The block for TokenCheck's address is eight bytes: an address that does not fit what the allocator
  provides for eight bytes overruns it, before any peer is read.
\<close>

lemma tokencheck_address_overruns:
  assumes "\<forall>l \<in> set (port # tc # ls). line_ok l" "strcpy_fits usable 8 (fst port)" "usable 8 \<le> length (fst tc)"
  shows "tg_parse_config_file usable (Some (render (port # tc # ls))) cfg_init = Inl BufferOverflow"
proof -
  have "parse_loop (tg_dispatch usable) 1024 0 cfg_init (render (port # tc # ls)) =
      dispatch_all (tg_dispatch usable) 0 (map fst (port # tc # ls)) cfg_init"
    using assms(1) by (intro parse_loop_render) auto
  then show ?thesis using assms(2,3)
    by (simp add: tg_parse_config_file_def dispatch_defs strcpy_fits_def)
qed

lemma tokencheck_address_overruns_example:
  "tg_parse_config_file id (Some (render [(''5000'', ''port''), (''10.129.26.133:9000'', ''TokenCheck'')])) cfg_init =
    Inl BufferOverflow"
  by (rule tokencheck_address_overruns) (simp_all add: line_ok_def clean_def strcpy_fits_def)

end
