(* ===== verification/Token_Gen.thy ===== *)
theory Token_Gen
  imports Stat_Queue Shared_Vars Config_Parser
begin

text \<open>
  TokenGen, the proxy that hands out waiting times: its global variables as a record, the
  start-up of \<open>main\<close>, the per-second \<open>log_data\<close> of \<open>timer.h\<close> and the body of the FastCGI loop,
  which books a request into the first second that still has room for it and answers with a
  redirect. The array \<open>visitor_count\<close> is a ring whose slot \<open>current_time\<close> is the present second;
  seen from there it is a queue of seconds, and the theory states the interface of that queue as
  a locale and interprets it by the ring.
\<close>

section \<open>State\<close>

definition LIMIT :: nat where "LIMIT = 1000"
definition PEERS :: nat where "PEERS = 5"

text \<open>One line of \<open>proxy1.log\<close>: the values \<open>log_data\<close> prints.\<close>

record log_line =
  ll_time :: int
  ll_incoming :: int
  ll_hostWt :: rat
  ll_peerWt :: rat
  ll_capacity :: int
  ll_expVisitors :: int
  ll_share :: int
  ll_current_time :: nat

record tokengen =
  tg_id :: int
  tg_myId :: int
  tg_flag :: int
  tg_prevId :: int
  tg_localId :: int
  tg_cfg :: config
  tg_startTime :: int
  tg_connectedClients :: int
  tg_capacity :: int
  tg_hardness :: "int list"
  tg_share :: int
  tg_visitor_count :: "int list"
  tg_incoming_peers :: "int list"
  tg_peer_incomingRate :: "rat list"
  tg_sum_peer_incoming_rate :: rat
  tg_current_time :: nat
  tg_incoming :: int
  tg_outgoing :: int
  tg_failing :: int
  tg_numbytes :: int
  tg_tot_numbytes :: int
  tg_total_in :: int
  tg_total_out :: int
  tg_hostIncomingRate :: rat
  tg_total_waiting_time :: rat
  tg_q :: qstate
  tg_log_open :: bool
  tg_log :: "log_line list"
  tg_idstore :: "string option"
  tg_hash_mem :: "char list"

section \<open>The second\<close>

definition tg_init_logger :: "bool \<Rightarrow> tokengen \<Rightarrow> tokengen" where
  "tg_init_logger fopen_ok s =
     (if tg_log_open s then s else s\<lparr>tg_log_open := fopen_ok\<rparr>)"

text \<open>
  \<open>log_data\<close>: \<open>now\<close> is the wall clock it prints, \<open>fopen_ok\<close> whether a log file that is not open
  yet can be opened now. The slot of the second that ends is cleared and becomes the most distant one.
\<close>

definition tg_log_data :: "int \<Rightarrow> bool \<Rightarrow> tokengen \<Rightarrow> tokengen res" where
  "tg_log_data now fopen_ok s =
     (let s = tg_init_logger fopen_ok s
      in bindR (push_win (tg_incoming s, tg_outgoing s, tg_failing s) (tg_q s)) (\<lambda>q.
        let s = s\<lparr>tg_q := q\<rparr>;
            ct = tg_current_time s;
            s = (if tg_log_open s
                 then s\<lparr>tg_log := tg_log s @ [\<lparr>ll_time = now, ll_incoming = tg_incoming s,
                        ll_hostWt = tg_hostIncomingRate s, ll_peerWt = tg_sum_peer_incoming_rate s,
                        ll_capacity = tg_capacity s,
                        ll_expVisitors = get_array (tg_visitor_count s ! ct),
                        ll_share = tg_share s, ll_current_time = ct\<rparr>]\<rparr>
                 else s)
        in Inr (s\<lparr>tg_visitor_count := (tg_visitor_count s)[ct := update_array (tg_visitor_count s ! ct) 0],
                  tg_current_time := (ct + 1) mod LIMIT,
                  tg_hostIncomingRate := fl32 (of_int (tg_incoming s)),
                  tg_tot_numbytes := wrap32 (tg_tot_numbytes s + tg_numbytes s),
                  tg_incoming := change_values (tg_incoming s) 0,
                  tg_numbytes := change_values (tg_numbytes s) 0,
                  tg_outgoing := change_values (tg_outgoing s) 0,
                  tg_total_waiting_time := change_float_values (tg_total_waiting_time s) 0 0\<rparr>)))"

definition tg_get_pending :: "tokengen \<Rightarrow> int" where
  "tg_get_pending s = pending_requests (fst (snd (tg_q s)))"

section \<open>Booking a second\<close>

text \<open>
  The loop over \<open>iter\<close>: the first second, counted from the present one, whose bookings leave room
  in the share gets \<open>h\<close> more; \<open>iter = LIMIT\<close> says that there is none.
\<close>

function sched_loop :: "int \<Rightarrow> int \<Rightarrow> nat \<Rightarrow> int list \<Rightarrow> nat \<Rightarrow> int list \<times> nat" where
  "sched_loop share h ct vc iter =
     (if iter < LIMIT
      then let slot = (ct + iter) mod LIMIT;
               usedCapacity = get_array (vc ! slot);
               total_usable_capacity = wrap32 (share - usedCapacity)
           in if total_usable_capacity > 0
              then (vc[slot := update_array (vc ! slot) h], iter)
              else sched_loop share h ct vc (Suc iter)
      else (vc, iter))"
  by pat_completeness auto
termination
  by (relation "measure (\<lambda>(share, h, ct, vc, iter). LIMIT - iter)") auto

declare sched_loop.simps [simp del]

section \<open>Answering a request\<close>

definition squote :: char where "squote = CHR 0x27"

definition busy_page :: string where
  "busy_page = ''Content-Type:text/html'' @ [newline, newline] @
     ''<title>Frontend</title> <body>Server Totally Busy</body></html>''"

text \<open>
  \<open>url_to_visit\<close>, assembled in 100 bytes; \<open>request_limit\<close> is the query behind its first \<open>=\<close> (the
  address 1 if there is none, on which the last \<open>strcat\<close> faults).
\<close>

definition url_prefix :: "string \<Rightarrow> string \<Rightarrow> string" where
  "url_prefix tokenCheckIp env_var =
     (if strchr env_var (CHR ''M'') \<noteq> None \<or> strchr env_var (CHR ''S'') \<noteq> None
      then ''http://'' @ tokenCheckIp @ ''/''
      else ''http://'' @ tokenCheckIp @ ''/test.php?limit='')"

definition make_url :: "string \<Rightarrow> string \<Rightarrow> (string \<times> string) res" where
  "make_url tokenCheckIp env_var =
     (let p = url_prefix tokenCheckIp env_var
      in bindR (checkR (length p + 1 \<le> 100) BufferOverflow) (\<lambda>_.
           case strchr env_var (CHR ''='') of
             None \<Rightarrow> Inl NullDeref
           | Some t \<Rightarrow>
               let request_limit = tl t; url_to_visit = p @ request_limit
               in bindR (checkR (length url_to_visit + 1 \<le> 100) BufferOverflow)
                    (\<lambda>_. Inr (url_to_visit, request_limit))))"

text \<open>The headers and the page of a redirect; \<open>%0.3f\<close> of a whole number of seconds ends in \<open>.000\<close>.\<close>

definition redirect_page ::
  "nat \<Rightarrow> string \<Rightarrow> string \<Rightarrow> string \<Rightarrow> string \<Rightarrow> int \<Rightarrow> int \<Rightarrow> int \<Rightarrow> int \<Rightarrow> int \<Rightarrow> string" where
  "redirect_page wait url hash token limit inc out tin tout now =
     ''Refresh: '' @ show_int (int wait) @ ''; url='' @ url @ ''&hash='' @ hash @ ''&token='' @ token @ [newline] @
     ''JMeter: '' @ show_int (int wait) @ ''.000; url='' @ url @ ''&hash='' @ hash @ ''&token='' @ token @ [newline] @
     ''Content-Type:text/html'' @ [newline, newline] @
     ''<title>Frontend</title>'' @
     ''Total incoming this second: <b>'' @ show_int inc @ ''</b> '' @ [newline] @ ''<br />'' @
     ''Total requests served this second: <b>'' @ show_int out @ ''</b> '' @ [newline] @ ''<br /> '' @
     ''Total incoming requests till now: <b>'' @ show_int tin @ ''</b> '' @ [newline] @ ''<br /> '' @
     ''Total requests served till now: <b>'' @ show_int tout @ ''</b> '' @ [newline] @ ''<br /> '' @
     ''currtime: <b>'' @ show_int now @ ''</b> '' @ [newline] @ ''<br /> '' @
     ''You will be redirected in '' @ show_int (int wait) @ '' seconds<br/>'' @
     ''query limit : '' @ limit @ ''</div></body>'' @
     ''<br><a href='' @ [squote] @ url @ ''&hash='' @ hash @ ''&token='' @ token @ [newline, squote] @
     '' style='' @ [squote] @ ''text-decoration:none;'' @ [squote] @ ''>'' @
     ''<button style='' @ [squote] @ ''cursor:pointer'' @ [squote] @
     ''>Click here to go without waiting</button></a></center></body></html>''"

datatype response = Busy string | Redirect nat string string

text \<open>
  The first half of the loop body of \<open>main\<close>: count the request, take over the peers' rates and book a
  second. \<open>req_url\<close> is \<open>QUERY_STRING\<close>; the loop compares it before every slot it looks at.
\<close>

definition tg_book :: "string \<Rightarrow> tokengen \<Rightarrow> nat \<times> tokengen" where
  "tg_book req_url s =
     (let s = s\<lparr>tg_incoming := change_values (tg_incoming s) 1,
                tg_total_in := wrap32 (tg_total_in s + 1),
                tg_peer_incomingRate := map (\<lambda>r. fl32 (of_int r)) (tg_incoming_peers s),
                tg_share := (if tg_share s = 0 then 1 else tg_share s)\<rparr>;
          url = (if req_url = ''req1.php'' then 0 else 1);
          (vc, iter) = sched_loop (tg_share s) (tg_hardness s ! url) (tg_current_time s)
                         (tg_visitor_count s) 0
      in (iter, s\<lparr>tg_visitor_count := vc\<rparr>))"

text \<open>The whole body: book, then either the busy page or the token, the URL and the redirect.\<close>

definition tg_handle_request ::
  "(string \<Rightarrow> string \<Rightarrow> byte list) \<Rightarrow> int \<Rightarrow> string option \<Rightarrow> string option \<Rightarrow> tokengen \<Rightarrow> (response \<times> tokengen) res" where
  "tg_handle_request hmac now addr query s =
     (case query of
        None \<Rightarrow> Inl NullDeref
      | Some env_var \<Rightarrow>
          let (iter, s) = tg_book env_var s
          in if iter = LIMIT then Inr (Busy busy_page, s)
             else
               let s = s\<lparr>tg_total_waiting_time :=
                          change_float_values (tg_total_waiting_time s) (of_nat iter) 0\<rparr>
               in bindR (get_token addr now (int iter)) (\<lambda>gt.
                  bindR (make_url (cf_tokenCheckIp (tg_cfg s)) env_var) (\<lambda>(url, request_limit).
                    let (hash, mem) = getHash hmac gt (tg_hash_mem s)
                    in Inr (Redirect iter (url @ ''&hash='' @ hash @ ''&token='' @ encrypt gt)
                             (redirect_page iter url hash (encrypt gt) request_limit
                               (tg_incoming s) (tg_outgoing s) (tg_total_in s) (tg_total_out s) now),
                            s\<lparr>tg_hash_mem := mem\<rparr>))))"

section \<open>Start-up\<close>

definition q_init :: "int \<Rightarrow> qstate" where
  "q_init l = (Map.empty, \<lparr>q_root = None, q_current = None, q_len = 0, q_limit = l,
                 q_tot_in = 0, q_tot_out = 0, q_tot_fail = 0\<rparr>, 0)"

text \<open>The globals before \<open>main\<close> runs: zero, but for the initialisers of \<open>timer.h\<close>.\<close>

definition tg_globals :: tokengen where
  "tg_globals = \<lparr>tg_id = 0, tg_myId = 0, tg_flag = 0, tg_prevId = 0, tg_localId = 0,
     tg_cfg = cfg_init, tg_startTime = 0, tg_connectedClients = 0, tg_capacity = 10,
     tg_hardness = [0, 0], tg_share = 0, tg_visitor_count = replicate LIMIT 0,
     tg_incoming_peers = replicate PEERS 0, tg_peer_incomingRate = replicate PEERS 0,
     tg_sum_peer_incoming_rate = 0, tg_current_time = 0, tg_incoming = 0, tg_outgoing = 0,
     tg_failing = 0, tg_numbytes = 0, tg_tot_numbytes = 0, tg_total_in = 0, tg_total_out = 0,
     tg_hostIncomingRate = 0, tg_total_waiting_time = 0, tg_q = q_init 100, tg_log_open = False,
     tg_log = [], tg_idstore = None, tg_hash_mem = replicate 33 NUL\<rparr>"

text \<open>
  \<open>readID\<close>: one character of \<open>IdStore\<close> is converted; the buffer given to \<open>atoi\<close> is that single
  character, followed by whatever lies behind it on the stack (\<open>junk\<close>, from the first byte on).
\<close>

definition tg_readID :: "string \<Rightarrow> tokengen \<Rightarrow> tokengen" where
  "tg_readID junk s =
     (case tg_idstore s of
        None \<Rightarrow> s
      | Some f \<Rightarrow> s\<lparr>tg_id := atoi ((case f of [] \<Rightarrow> CHR 0xFF | c # _ \<Rightarrow> c) # junk)\<rparr>)"

definition tg_writeID :: "bool \<Rightarrow> tokengen \<Rightarrow> tokengen" where
  "tg_writeID fopen_ok s =
     (if fopen_ok then s\<lparr>tg_idstore := Some (show_int (tg_id s))\<rparr> else s)"

definition tg_main_init ::
  "(nat \<Rightarrow> nat) \<Rightarrow> string option \<Rightarrow> bool \<Rightarrow> string \<Rightarrow> tokengen \<Rightarrow> tokengen res" where
  "tg_main_init usable conf fopen_ok junk s =
     (let s = s\<lparr>tg_flag := 0, tg_numbytes := 0, tg_incoming := 0, tg_failing := 0, tg_total_in := 0,
                tg_total_out := 0, tg_capacity := 720, tg_hardness := [1, 1],
                tg_connectedClients := 0, tg_current_time := 0,
                tg_visitor_count := replicate LIMIT 0\<rparr>
      in bindR (tg_parse_config_file usable conf (tg_cfg s)) (\<lambda>cfg.
           let s = s\<lparr>tg_cfg := cfg, tg_myId := cf_myId cfg\<rparr>
           in Inr (tg_readID junk (tg_init_logger fopen_ok s))))"

end
