(* ===== verification/Wait_Slots.thy ===== *)
theory Wait_Slots
  imports Main
begin

text \<open>
  The interface between the FastCGI loop and the ring of seconds: what a virtual queue of requests
  promises. A state has a share (requests per second) and a load for every second of a finite
  horizon, second 0 being the present one; \<open>book\<close> takes the first second with room, \<open>advance\<close> ends a
  second, \<open>set_share\<close> changes the share. The locale derives, for every sequence of these, what WebQ
  is built for: no second is ever promised to more requests than the largest share in force, waits
  grow in order of arrival, and a burst is spread evenly.
\<close>

datatype ('r, 'a) vq_event = Arrive 'r | Second 'a | Share int

text \<open>Changes of the share stay positive and below \<open>M\<close>.\<close>

definition share_ok :: "int \<Rightarrow> ('r, 'a) vq_event \<Rightarrow> bool" where
  "share_ok M e = (case e of Share m \<Rightarrow> 0 < m \<and> m \<le> M \<and> m < 2 ^ 31 | _ \<Rightarrow> True)"

lemma succ_div_mod:
  assumes "0 < c"
  shows "(x + 1) div c = (if x mod c = c - 1 then x div c + 1 else x div c)"
    and "(x + 1) mod c = (if x mod c = c - 1 then 0 else x mod c + (1 :: int))"
proof -
  have x: "c * (x div c) + x mod c = x" and m: "0 \<le> x mod c" "x mod c < c" using assms by simp_all
  have "(x + 1) div c = (if x mod c = c - 1 then x div c + 1 else x div c) \<and>
        (x + 1) mod c = (if x mod c = c - 1 then 0 else x mod c + 1)"
  proof (cases "x mod c = c - 1")
    case True
    then have e: "x + 1 = c * (x div c + 1) + 0" using x by (simp add: distrib_left)
    show ?thesis using True int_div_pos_eq [OF e] int_mod_pos_eq [OF e] assms by simp
  next
    case False
    have e: "x + 1 = c * (x div c) + (x mod c + 1)" using x by simp
    have "x mod c + 1 < c" using False m by linarith
    then show ?thesis using False int_div_pos_eq [OF e] int_mod_pos_eq [OF e] m by simp
  qed
  then show "(x + 1) div c = (if x mod c = c - 1 then x div c + 1 else x div c)"
    "(x + 1) mod c = (if x mod c = c - 1 then 0 else x mod c + 1)" by blast+
qed

locale wait_slots =
  fixes inv :: "'s \<Rightarrow> bool"
    and share :: "'s \<Rightarrow> int"
    and load :: "'s \<Rightarrow> nat \<Rightarrow> int"
    and book :: "'r \<Rightarrow> 's \<Rightarrow> nat option \<times> 's"
    and advance :: "'a \<Rightarrow> 's \<Rightarrow> 's"
    and set_share :: "int \<Rightarrow> 's \<Rightarrow> 's"
    and horizon :: nat
  assumes book_inv: "inv s \<Longrightarrow> book q s = (r, s') \<Longrightarrow> inv s' \<and> share s' = share s"
    and book_some: "inv s \<Longrightarrow> book q s = (Some k, s') \<Longrightarrow>
        k < horizon \<and> load s k < share s \<and> (\<forall>j < k. share s \<le> load s j) \<and>
        (\<forall>j < horizon. load s' j = (if j = k then load s k + 1 else load s j))"
    and book_none: "inv s \<Longrightarrow> book q s = (None, s') \<Longrightarrow>
        (\<forall>j < horizon. share s \<le> load s j) \<and> (\<forall>j < horizon. load s' j = load s j)"
    and advance_inv: "inv s \<Longrightarrow> inv (advance a s) \<and> share (advance a s) = share s"
    and advance_load: "inv s \<Longrightarrow> j < horizon \<Longrightarrow>
        load (advance a s) j = (if Suc j < horizon then load s (Suc j) else 0)"
    and set_share_inv: "inv s \<Longrightarrow> 0 < m \<Longrightarrow> m < 2 ^ 31 \<Longrightarrow>
        inv (set_share m s) \<and> share (set_share m s) = m \<and>
        (\<forall>j < horizon. load (set_share m s) j = load s j)"
    and load_nonneg: "inv s \<Longrightarrow> j < horizon \<Longrightarrow> 0 \<le> load s j"
    and share_pos: "inv s \<Longrightarrow> 0 < share s"
begin

text \<open>The seconds promised to the requests of a run that starts in second \<open>now\<close>.\<close>

fun releases :: "('r, 'a) vq_event list \<Rightarrow> nat \<Rightarrow> 's \<Rightarrow> nat list" where
  "releases [] now s = []"
| "releases (Arrive q # es) now s =
     (case book q s of
        (None, s') \<Rightarrow> releases es now s'
      | (Some k, s') \<Rightarrow> (now + k) # releases es now s')"
| "releases (Second a # es) now s = releases es (Suc now) (advance a s)"
| "releases (Share m # es) now s = releases es now (set_share m s)"

definition booked :: "'s \<Rightarrow> nat \<Rightarrow> nat \<Rightarrow> int" where
  "booked s now t = (if now \<le> t \<and> t < now + horizon then load s (t - now) else 0)"

lemma releases_future: "t < now \<Longrightarrow> count_list (releases es now s) t = 0"
proof (induction es now s rule: releases.induct)
  case (2 q es now s)
  then show ?case by (auto split: prod.splits option.splits)
qed auto

lemma releases_bounded:
  assumes "inv s" "\<forall>e \<in> set es. share_ok M e" "share s \<le> M" "\<forall>j < horizon. load s j \<le> M"
    and "now \<le> t"
  shows "int (count_list (releases es now s) t) + booked s now t \<le> M"
  using assms
proof (induction es now s rule: releases.induct)
  case (1 now s)
  then show ?case using share_pos [of s] by (auto simp: booked_def)
next
  case (2 q es now s)
  obtain r s' where b: "book q s = (r, s')" by fastforce
  have i: "inv s'" "share s' = share s" using book_inv [OF 2(3) b] by auto
  show ?case
  proof (cases r)
    case None
    have l: "\<forall>j < horizon. load s' j = load s j" using book_none 2(3) b None by blast
    then have "booked s' now t = booked s now t" by (auto simp: booked_def)
    with 2 b None i l show ?thesis by simp
  next
    case (Some k)
    have k: "k < horizon" "load s k < share s"
      and l: "\<forall>j < horizon. load s' j = (if j = k then load s k + 1 else load s j)"
      using book_some 2(3) b Some by auto
    have ih: "int (count_list (releases es now s') t) + booked s' now t \<le> M"
      using 2 b Some i l k by auto
    have "booked s' now t = booked s now t + (if t = now + k then 1 else 0)"
      using l k 2(7) by (auto simp: booked_def)
    with ih b Some show ?thesis by auto
  qed
next
  case (3 a es now s)
  have i: "inv (advance a s)" "share (advance a s) = share s" using advance_inv 3(2) by auto
  show ?case
  proof (cases "t = now")
    case True
    then show ?thesis using 3(4,5) share_pos [OF 3(2)] releases_future [of t "Suc now"]
      by (auto simp: booked_def)
  next
    case False
    have "\<forall>j < horizon. load (advance a s) j \<le> M"
      using 3(2,4,5) share_pos [of s] by (auto simp: advance_load)
    moreover have "booked (advance a s) (Suc now) t = booked s now t"
      using False 3(2,6) by (auto simp: booked_def advance_load Suc_diff_Suc)
    ultimately show ?thesis using 3 i False by simp
  qed
next
  case (4 m es now s)
  have m: "0 < m" "m \<le> M" "m < 2 ^ 31" using 4(3) by (auto simp: share_ok_def)
  then have i: "inv (set_share m s)" "share (set_share m s) = m"
    "\<forall>j < horizon. load (set_share m s) j = load s j"
    using set_share_inv 4(2) by auto
  then have "booked (set_share m s) now t = booked s now t" by (auto simp: booked_def)
  with 4 m i show ?case by simp
qed

text \<open>No second is promised to more than \<open>M\<close> requests.\<close>

lemma shaped:
  assumes "inv s" "\<forall>e \<in> set es. share_ok M e" "share s \<le> M" "\<forall>j < horizon. load s j \<le> M"
  shows "int (count_list (releases es now s) t) \<le> M"
proof (cases "now \<le> t")
  case True
  have "0 \<le> booked s now t" using load_nonneg assms(1) by (auto simp: booked_def)
  with releases_bounded [OF assms True] show ?thesis by linarith
next
  case False
  then show ?thesis using releases_future [of t now] share_pos [OF assms(1)] assms(3) by simp
qed

text \<open>Later arrivals within a second do not overtake earlier ones.\<close>

lemma fifo:
  assumes "inv s" "book q s = (Some k, s')" "book q' s' = (Some k', s'')"
  shows "k \<le> k'"
proof (rule ccontr)
  assume "\<not> k \<le> k'"
  then have lt: "k' < k" by simp
  have i: "inv s'" "share s' = share s" using book_inv assms(1,2) by auto
  have "share s \<le> load s k'" "k < horizon" using book_some assms(1,2) lt by auto
  moreover have "load s' k' = load s k'"
    using book_some [OF assms(1,2)] lt by auto
  moreover have "load s' k' < share s'" using book_some [OF i(1) assms(3)] by blast
  ultimately show False using i by simp
qed

text \<open>A burst of requests into an empty queue; \<open>filled c n\<close> is the queue after \<open>n\<close> of them.\<close>

fun burst :: "'r list \<Rightarrow> 's \<Rightarrow> nat option list \<times> 's" where
  "burst [] s = ([], s)"
| "burst (q # qs) s = (let (w, s) = book q s; (ws, s) = burst qs s in (w # ws, s))"

definition filled :: "int \<Rightarrow> nat \<Rightarrow> 's \<Rightarrow> bool" where
  "filled c n s \<longleftrightarrow> inv s \<and> share s = c \<and>
     (\<forall>j < horizon. load s j = (if int j < int n div c then c
                                 else if int j = int n div c then int n mod c else 0))"

lemma filled_step:
  assumes f: "filled c n s" and c: "0 < c" and n: "int n < c * int horizon" and b: "book q s = (w, s')"
  shows "w = Some (nat (int n div c)) \<and> filled c (Suc n) s'"
proof -
  let ?q = "nat (int n div c)"
  have i: "inv s" and sh: "share s = c"
    and ld: "\<And>j. j < horizon \<Longrightarrow> load s j = (if int j < int n div c then c
                 else if int j = int n div c then int n mod c else 0)"
    using f by (auto simp: filled_def)
  have q0: "0 \<le> int n div c" using c by (simp add: pos_imp_zdiv_nonneg_iff)
  have "c * (int n div c) + int n mod c = int n" "0 \<le> int n mod c" using c by simp_all
  then have "c * (int n div c) < c * int horizon" using n by linarith
  then have "int n div c < int horizon" using c by (simp add: mult_less_cancel_left_pos)
  then have qh: "?q < horizon" using q0 by linarith
  have lq: "load s ?q = int n mod c" using ld [OF qh] q0 by simp
  have mc: "int n mod c < c" using c by simp
  obtain k where w: "w = Some k"
  proof (cases w)
    case None
    with book_none [OF i] b have "share s \<le> load s ?q" using qh by blast
    with lq mc sh show thesis by simp
  qed auto
  have k: "k < horizon" "load s k < c" "\<forall>j < k. c \<le> load s j"
    and l': "\<And>j. j < horizon \<Longrightarrow> load s' j = (if j = k then load s k + 1 else load s j)"
    using book_some [OF i] b w sh by auto
  have "\<not> int k < int n div c" using k(1,2) ld by auto
  moreover have "\<not> ?q < k" using k(3) lq mc by auto
  ultimately have kq: "k = ?q" using q0 by linarith
  have i': "inv s'" "share s' = c" using book_inv [OF i b] sh by auto
  have suc: "int (Suc n) div c = (if int n mod c = c - 1 then int n div c + 1 else int n div c)"
    "int (Suc n) mod c = (if int n mod c = c - 1 then 0 else int n mod c + 1)"
    using succ_div_mod [OF c, of "int n"] by (simp_all add: add.commute)
  have "filled c (Suc n) s'"
    unfolding filled_def
  proof (intro conjI allI impI)
    fix j assume j: "j < horizon"
    have "load s' j = (if j = ?q then int n mod c + 1 else load s j)"
      using l' [OF j] kq lq by simp
    then show "load s' j = (if int j < int (Suc n) div c then c
        else if int j = int (Suc n) div c then int (Suc n) mod c else 0)"
      unfolding suc using ld [OF j] q0 mc by auto
  qed (use i' in auto)
  with w kq show ?thesis by simp
qed

lemma burst_filled:
  assumes "filled c m s" "0 < c" "int (m + length qs) \<le> c * int horizon"
  shows "fst (burst qs s) = map (\<lambda>i. Some (nat (int i div c))) [m..<m + length qs] \<and>
    filled c (m + length qs) (snd (burst qs s))"
  using assms
proof (induction qs arbitrary: m s)
  case (Cons q qs)
  obtain w s1 where b: "book q s = (w, s1)" by fastforce
  have w: "w = Some (nat (int m div c))" "filled c (Suc m) s1"
    using filled_step [OF Cons.prems(1,2) _ b] Cons.prems(3) by simp_all
  have ih: "fst (burst qs s1) = map (\<lambda>i. Some (nat (int i div c))) [Suc m..<Suc m + length qs]"
    "filled c (Suc m + length qs) (snd (burst qs s1))"
    using Cons.IH [OF w(2) Cons.prems(2)] Cons.prems(3) by simp_all
  have "[m..<m + length (q # qs)] = m # [Suc m..<Suc m + length qs]" by (simp add: upt_rec)
  with b w ih show ?case by (simp add: case_prod_beta)
qed simp

lemma burst_spread:
  assumes "inv s" "\<forall>j < horizon. load s j = 0" "share s = c" "int (length qs) \<le> c * int horizon"
  shows "fst (burst qs s) = map (\<lambda>i. Some (nat (int i div c))) [0..<length qs] \<and>
    filled c (length qs) (snd (burst qs s))"
proof -
  have "0 < c" using share_pos assms by auto
  moreover from assms have "filled c 0 s" by (auto simp: filled_def)
  ultimately show ?thesis using burst_filled [of c 0 s qs] assms(4) by simp
qed

text \<open>When every second is full, the next request is turned away.\<close>

lemma burst_full:
  assumes "inv s" "\<forall>j < horizon. load s j = 0" "share s = c" "int (length qs) = c * int horizon"
  shows "fst (book q (snd (burst qs s))) = None"
proof -
  have c: "0 < c" using share_pos assms by auto
  have f: "filled c (length qs) (snd (burst qs s))" using burst_spread assms by simp
  obtain w s' where b: "book q (snd (burst qs s)) = (w, s')" by fastforce
  show ?thesis
  proof (cases w)
    case (Some k)
    with f b have "k < horizon" "load (snd (burst qs s)) k < c"
      using book_some by (auto simp: filled_def)
    moreover from this(1) f assms(4) c have "load (snd (burst qs s)) k = c"
      by (simp add: filled_def)
    ultimately show ?thesis by simp
  qed (use b in simp)
qed

end

end
