(* ===== verification/Token_Gen_Slots.thy ===== *)
theory Token_Gen_Slots
  imports Token_Gen Wait_Slots
begin

text \<open>
  The ring \<open>visitor_count\<close> implements the virtual queue: the invariant of TokenGen's scheduling
  state, the loop of the scheduler against its specification, the interpretation of
  \<open>wait_slots\<close> by the FastCGI loop (\<open>tg_book\<close>), the per-second \<open>log_data\<close> and the share, and the
  properties of TokenGen's admission that follow.
\<close>

section \<open>The invariant\<close>

definition slots_ok :: "int list \<Rightarrow> bool" where
  "slots_ok vc \<longleftrightarrow> length vc = LIMIT \<and> (\<forall>v \<in> set vc. 0 \<le> v \<and> v < 2 ^ 31)"

definition tg_inv :: "tokengen \<Rightarrow> bool" where
  "tg_inv s \<longleftrightarrow>
     slots_ok (tg_visitor_count s) \<and> tg_current_time s < LIMIT \<and>
     0 \<le> tg_share s \<and> tg_share s < 2 ^ 31 \<and> tg_hardness s = [1, 1] \<and>
     (\<exists>es. repr_win (tg_q s) es \<and> length es \<le> cap_win (tg_q s))"

definition tg_room :: "tokengen \<Rightarrow> int" where
  "tg_room s = (if tg_share s = 0 then 1 else tg_share s)"

definition tg_load :: "tokengen \<Rightarrow> nat \<Rightarrow> int" where
  "tg_load s k = tg_visitor_count s ! ((tg_current_time s + k) mod LIMIT)"

definition tg_book_op :: "string \<Rightarrow> tokengen \<Rightarrow> nat option \<times> tokengen" where
  "tg_book_op req s = (let (iter, s') = tg_book req s in (if iter = LIMIT then None else Some iter, s'))"

definition tg_second :: "int \<times> bool \<Rightarrow> tokengen \<Rightarrow> tokengen" where
  "tg_second c s = (case tg_log_data (fst c) (snd c) s of Inl _ \<Rightarrow> s | Inr s' \<Rightarrow> s')"

definition tg_set_share :: "int \<Rightarrow> tokengen \<Rightarrow> tokengen" where
  "tg_set_share m s = s\<lparr>tg_share := m\<rparr>"

lemma slot_lt [simp]: "k mod LIMIT < LIMIT"
  by (simp add: LIMIT_def)

lemma slots_okD: "slots_ok vc \<Longrightarrow> i < LIMIT \<Longrightarrow> 0 \<le> vc ! i \<and> vc ! i < 2 ^ 31"
  by (auto simp: slots_ok_def)

lemma slots_ok_upd: "slots_ok vc \<Longrightarrow> 0 \<le> v \<Longrightarrow> v < 2 ^ 31 \<Longrightarrow> slots_ok (vc[i := v])"
  by (auto simp: slots_ok_def dest: subsetD [OF set_update_subset_insert])

lemma ring_inj_le:
  assumes "j \<le> k" "k < LIMIT" "(c + j) mod LIMIT = (c + k) mod LIMIT"
  shows "j = k"
proof -
  have "LIMIT dvd (c + k) - (c + j)"
    using assms by (subst mod_eq_dvd_iff_nat [symmetric]) simp_all
  then have "LIMIT dvd k - j" by simp
  moreover have "k - j < LIMIT" using assms(2) by simp
  ultimately have "\<not> 0 < k - j" using nat_dvd_not_less by blast
  with assms(1) show ?thesis by simp
qed

lemma ring_inj: "j < LIMIT \<Longrightarrow> k < LIMIT \<Longrightarrow> (c + j) mod LIMIT = (c + k) mod LIMIT \<longleftrightarrow> j = k"
  using ring_inj_le [of j k c] ring_inj_le [of k j c] by (metis nle_le)

lemma ring_next:
  assumes "c < LIMIT" "j < LIMIT"
  shows "(c + Suc j) mod LIMIT = c \<longleftrightarrow> Suc j = LIMIT"
proof
  assume "(c + Suc j) mod LIMIT = c"
  then have "(c + Suc j) mod LIMIT = c mod LIMIT" using assms by simp
  then have "LIMIT dvd Suc j" using mod_eq_dvd_iff_nat [of c "c + Suc j" LIMIT] by simp
  then have "LIMIT \<le> Suc j" by (rule dvd_imp_le) simp
  with assms show "Suc j = LIMIT" by simp
qed (use assms in simp)

section \<open>The scheduling loop\<close>

text \<open>
  The loop finds the first second with room: every second it passes is full, the one it stops at is
  not, and exactly that one gains a booking.
\<close>

lemma sched_loop_spec:
  assumes "slots_ok vc" "0 < share" "share < 2 ^ 31" "iter \<le> LIMIT"
  shows "\<exists>vc' it. sched_loop share 1 ct vc iter = (vc', it) \<and> iter \<le> it \<and> it \<le> LIMIT \<and>
     (\<forall>j. iter \<le> j \<and> j < it \<longrightarrow> share \<le> vc ! ((ct + j) mod LIMIT)) \<and>
     (if it = LIMIT then vc' = vc
      else vc ! ((ct + it) mod LIMIT) < share \<and>
           vc' = vc[(ct + it) mod LIMIT := vc ! ((ct + it) mod LIMIT) + 1])"
  using assms
proof (induction share "1 :: int" ct vc iter rule: sched_loop.induct)
  case (1 share ct vc iter)
  let ?i = "(ct + iter) mod LIMIT"
  show ?case
  proof (cases "iter < LIMIT")
    case False
    with 1 show ?thesis by (auto simp: sched_loop.simps [of share])
  next
    case True
    have v: "0 \<le> vc ! ?i" "vc ! ?i < 2 ^ 31" using slots_okD [OF 1(2)] by auto
    then have w: "wrap32 (share - vc ! ?i) = share - vc ! ?i"
      using 1 by (auto simp: int32_def intro: wrap32_id)
    show ?thesis
    proof (cases "vc ! ?i < share")
      case room: True
      then have "update_array (vc ! ?i) 1 = vc ! ?i + 1"
        using v 1 by (simp add: update_array_def wrap32_id int32_def)
      with True room w show ?thesis
        by (intro exI [of _ "vc[?i := vc ! ?i + 1]"] exI [of _ iter])
           (auto simp: sched_loop.simps [of share] get_array_def Let_def)
    next
      case full: False
      have step: "sched_loop share 1 ct vc iter = sched_loop share 1 ct vc (Suc iter)"
        using True full w by (simp add: sched_loop.simps [of share 1 ct vc iter] get_array_def Let_def)
      obtain vc' it where r: "sched_loop share 1 ct vc (Suc iter) = (vc', it)" "Suc iter \<le> it" "it \<le> LIMIT"
        "\<forall>j. Suc iter \<le> j \<and> j < it \<longrightarrow> share \<le> vc ! ((ct + j) mod LIMIT)"
        "if it = LIMIT then vc' = vc
         else vc ! ((ct + it) mod LIMIT) < share \<and>
              vc' = vc[(ct + it) mod LIMIT := vc ! ((ct + it) mod LIMIT) + 1]"
        using 1(1) [OF True refl refl refl] full w 1(2-4) True by (auto simp: get_array_def)
      have "share \<le> vc ! ((ct + j) mod LIMIT)" if "iter \<le> j" "j < it" for j
        using that r(4) full by (cases "j = iter") auto
      with r step show ?thesis by (intro exI [of _ vc'] exI [of _ it]) auto
    qed
  qed
qed

text \<open>What \<open>tg_book\<close> does to the state, in terms of the loads.\<close>

lemma tg_book_spec:
  assumes i: "tg_inv s" and b: "tg_book req s = (iter, s')"
  shows "tg_inv s' \<and> tg_room s' = tg_room s \<and> iter \<le> LIMIT \<and>
     (\<forall>j < iter. tg_room s \<le> tg_load s j) \<and>
     (iter < LIMIT \<longrightarrow> tg_load s iter < tg_room s) \<and>
     (\<forall>j < LIMIT. tg_load s' j = (if j = iter then tg_load s j + 1 else tg_load s j))"
proof -
  let ?ct = "tg_current_time s" and ?vc = "tg_visitor_count s" and ?sh = "tg_room s"
  have vc: "slots_ok ?vc" and sh: "0 < ?sh" "?sh < 2 ^ 31" and h: "tg_hardness s = [1, 1]"
    using i by (auto simp: tg_inv_def tg_room_def)
  obtain vc' it where r: "sched_loop ?sh 1 ?ct ?vc 0 = (vc', it)" "it \<le> LIMIT"
    "\<forall>j < it. ?sh \<le> ?vc ! ((?ct + j) mod LIMIT)"
    "if it = LIMIT then vc' = ?vc
     else ?vc ! ((?ct + it) mod LIMIT) < ?sh \<and>
          vc' = ?vc[(?ct + it) mod LIMIT := ?vc ! ((?ct + it) mod LIMIT) + 1]"
    using sched_loop_spec [OF vc sh, of 0 ?ct] by auto
  have bk: "iter = it" "tg_visitor_count s' = vc'" "tg_current_time s' = ?ct" "tg_share s' = ?sh"
    "tg_hardness s' = tg_hardness s" "tg_q s' = tg_q s"
    using b r(1) h by (auto simp: tg_book_def Let_def tg_room_def split: prod.splits if_splits)
  have ok': "slots_ok vc'"
  proof (cases "it = LIMIT")
    case False
    then show ?thesis using r(4) sh slots_okD [OF vc, of "(?ct + it) mod LIMIT"]
      by (simp, intro slots_ok_upd [OF vc]) auto
  qed (use r(4) vc in simp)
  have "tg_inv s'" using i ok' bk sh h by (simp add: tg_inv_def)
  moreover have "tg_room s' = ?sh" using bk sh by (simp add: tg_room_def)
  moreover have "tg_load s' j = (if j = it then tg_load s j + 1 else tg_load s j)" if "j < LIMIT" for j
  proof (cases "it = LIMIT")
    case True
    then show ?thesis using r(4) bk that by (simp add: tg_load_def)
  next
    case False
    with r(2) have "it < LIMIT" by simp
    moreover have "length ?vc = LIMIT" using vc by (simp add: slots_ok_def)
    ultimately show ?thesis using False r(4) bk that ring_inj [of it j ?ct]
      by (auto simp: tg_load_def nth_list_update)
  qed
  ultimately show ?thesis using r bk by (auto simp: tg_load_def split: if_splits)
qed

section \<open>The second\<close>

text \<open>\<open>log_data\<close> never faults in a state that satisfies the invariant.\<close>

lemma tg_log_data_ok:
  assumes "tg_inv s"
  obtains s' where "tg_log_data now ok s = Inr s'" and "tg_inv s'"
    and "tg_visitor_count s' = (tg_visitor_count s)[tg_current_time s := 0]"
    and "tg_current_time s' = (tg_current_time s + 1) mod LIMIT"
    and "tg_share s' = tg_share s"
proof -
  obtain es where es: "repr_win (tg_q s) es" "length es \<le> cap_win (tg_q s)"
    using assms by (auto simp: tg_inv_def)
  let ?e = "(tg_incoming s, tg_outgoing s, tg_failing s)"
  obtain q where q: "push_win ?e (tg_q s) = Inr q"
    "repr_win q (window_push (cap_win (tg_q s)) es ?e)" "cap_win q = cap_win (tg_q s)"
    using qwin.push_ok [OF es] by blast
  have len: "length (window_push (cap_win (tg_q s)) es ?e) \<le> cap_win q"
    using es(2) q(3) qwin.cap_pos [OF es(1)] by (auto simp: window_push_def)
  have init: "tg_init_logger ok s = s\<lparr>tg_log_open := tg_log_open s \<or> ok\<rparr>"
    by (simp add: tg_init_logger_def)
  obtain s' where s': "tg_log_data now ok s = Inr s'"
    "tg_visitor_count s' = (tg_visitor_count s)[tg_current_time s := 0]"
    "tg_current_time s' = (tg_current_time s + 1) mod LIMIT"
    "tg_share s' = tg_share s" "tg_hardness s' = tg_hardness s" "tg_q s' = q"
    using q(1) unfolding tg_log_data_def init by (simp add: Let_def update_array_def)
  have "slots_ok (tg_visitor_count s')"
    using assms s'(2) by (auto simp: tg_inv_def intro: slots_ok_upd)
  with assms s' q(2) len have "tg_inv s'" by (auto simp: tg_inv_def)
  with s' that show thesis by blast
qed

lemma tg_second_spec:
  assumes "tg_inv s"
  shows "tg_inv (tg_second c s) \<and> tg_room (tg_second c s) = tg_room s \<and>
     (\<forall>j < LIMIT. tg_load (tg_second c s) j = (if Suc j < LIMIT then tg_load s (Suc j) else 0))"
proof -
  obtain s' where s': "tg_log_data (fst c) (snd c) s = Inr s'" "tg_inv s'"
    "tg_visitor_count s' = (tg_visitor_count s)[tg_current_time s := 0]"
    "tg_current_time s' = (tg_current_time s + 1) mod LIMIT" "tg_share s' = tg_share s"
    using tg_log_data_ok [OF assms] by blast
  have l: "length (tg_visitor_count s) = LIMIT" and ct: "tg_current_time s < LIMIT"
    using assms by (auto simp: tg_inv_def slots_ok_def)
  have "tg_load s' j = (if Suc j < LIMIT then tg_load s (Suc j) else 0)" if j: "j < LIMIT" for j
  proof -
    have m: "(Suc (tg_current_time s) mod LIMIT + j) mod LIMIT = Suc (tg_current_time s + j) mod LIMIT"
      by (simp add: mod_add_left_eq)
    have "(tg_current_time s + Suc j) mod LIMIT = tg_current_time s \<longleftrightarrow> Suc j = LIMIT"
      using ct j by (rule ring_next)
    then show ?thesis using l ct j s'(3,4) by (auto simp: tg_load_def m nth_list_update)
  qed
  with s' show ?thesis by (simp add: tg_second_def tg_room_def)
qed

section \<open>TokenGen is a virtual queue\<close>

interpretation vq: wait_slots tg_inv tg_room tg_load tg_book_op tg_second tg_set_share LIMIT
proof (unfold_locales, goal_cases)
  case (1 s req r s')
  then show ?case using tg_book_spec by (auto simp: tg_book_op_def split: prod.splits)
next
  case (2 s req k s')
  then obtain iter where b: "tg_book req s = (iter, s')" "iter \<noteq> LIMIT" "k = iter"
    by (auto simp: tg_book_op_def split: prod.splits if_splits)
  with tg_book_spec [OF 2(1) b(1)] show ?case by auto
next
  case (3 s req s')
  then have b: "tg_book req s = (LIMIT, s')"
    by (auto simp: tg_book_op_def split: prod.splits if_splits)
  with tg_book_spec [OF 3(1) b] show ?case by auto
next
  case (4 s c)
  then show ?case using tg_second_spec by blast
next
  case (5 s j c)
  then show ?case using tg_second_spec by blast
next
  case (6 s m)
  then show ?case by (auto simp: tg_inv_def tg_set_share_def tg_room_def tg_load_def)
next
  case (7 s j)
  then show ?case using slots_okD by (auto simp: tg_inv_def tg_load_def)
next
  case (8 s)
  then show ?case by (auto simp: tg_inv_def tg_room_def)
qed

end
