(* ===== verification/Admission.thy ===== *)
theory Admission
  imports Token_Gen_Slots
begin

text \<open>
  What TokenGen's admission control guarantees, for every sequence of requests, seconds and changes
  of the share: the properties of the virtual queue at the definitions of the FastCGI loop and of
  \<open>log_data\<close>, and the answers the loop gives.
\<close>

text \<open>The seconds promised to the requests of a run of TokenGen that starts in second \<open>now\<close>.\<close>

fun tg_releases :: "(string, int \<times> bool) vq_event list \<Rightarrow> nat \<Rightarrow> tokengen \<Rightarrow> nat list" where
  "tg_releases [] now s = []"
| "tg_releases (Arrive req # es) now s =
     (case tg_book_op req s of
        (None, s') \<Rightarrow> tg_releases es now s'
      | (Some k, s') \<Rightarrow> (now + k) # tg_releases es now s')"
| "tg_releases (Second c # es) now s = tg_releases es (Suc now) (tg_second c s)"
| "tg_releases (Share m # es) now s = tg_releases es now (tg_set_share m s)"

lemma tg_releases_vq: "tg_releases es now s = vq.releases es now s"
  by (induction es now s rule: tg_releases.induct) (simp_all split: prod.splits option.splits)

text \<open>The waits a burst of requests is given.\<close>

fun tg_burst :: "string list \<Rightarrow> tokengen \<Rightarrow> nat option list \<times> tokengen" where
  "tg_burst [] s = ([], s)"
| "tg_burst (req # qs) s = (let (w, s) = tg_book_op req s; (ws, s) = tg_burst qs s in (w # ws, s))"

lemma tg_burst_vq: "tg_burst qs s = vq.burst qs s"
  by (induction qs arbitrary: s) simp_all

definition tg_empty :: "tokengen \<Rightarrow> bool" where
  "tg_empty s \<longleftrightarrow> (\<forall>j < LIMIT. tg_load s j = 0)"

lemma tg_releases_shaped:
  assumes "tg_inv s" "\<forall>e \<in> set es. share_ok M e" "tg_room s \<le> M" "\<forall>j < LIMIT. tg_load s j \<le> M"
  shows "int (count_list (tg_releases es now s) t) \<le> M"
  unfolding tg_releases_vq using assms by (rule vq.shaped)

text \<open>The token a client at address \<open>a\<close> is given at time \<open>now\<close> for a wait of \<open>k\<close> seconds.\<close>

definition wait_token :: "string \<Rightarrow> int \<Rightarrow> nat \<Rightarrow> string" where
  "wait_token a now k = a @ ''%7C'' @ show_int now @ ''%7C'' @ show_int (int k)"

lemma tg_inv_frame [simp]:
  "tg_inv (s\<lparr>tg_total_waiting_time := w\<rparr>) = tg_inv s" "tg_inv (s\<lparr>tg_hash_mem := m\<rparr>) = tg_inv s"
  by (simp_all add: tg_inv_def)

lemma tg_load_frame [simp]:
  "tg_load (s\<lparr>tg_total_waiting_time := w\<rparr>) j = tg_load s j" "tg_load (s\<lparr>tg_hash_mem := m\<rparr>) j = tg_load s j"
  by (simp_all add: tg_load_def)

section \<open>States for concrete runs\<close>

text \<open>A TokenGen after start-up with share \<open>n\<close> and an empty window.\<close>

definition tg_started :: "int \<Rightarrow> tokengen" where
  "tg_started n = tg_globals\<lparr>tg_share := n, tg_hardness := [1, 1]\<rparr>"

lemma q_init_window: "repr_win (q_init 100) [] \<and> cap_win (q_init 100) = 100"
proof -
  have "wrap64 0 = 0" by (rule wrap64_id) (simp add: int64_def)
  then show ?thesis unfolding repr_win_def q_init_def cap_win_def repr_q_def by simp
qed

lemma tg_globals_slots: "slots_ok (replicate LIMIT 0)"
  by (simp add: slots_ok_def LIMIT_def)

lemma tg_started_inv:
  assumes "0 \<le> n" "n < 2 ^ 31"
  shows "tg_inv (tg_started n)" "tg_empty (tg_started n)" "tg_room (tg_started n) = (if n = 0 then 1 else n)"
proof -
  have "\<exists>es. repr_win (q_init 100) es \<and> length es \<le> cap_win (q_init 100)"
    using q_init_window by (intro exI [of _ "[]"]) simp
  then show "tg_inv (tg_started n)"
    using assms tg_globals_slots by (simp add: tg_inv_def tg_started_def tg_globals_def LIMIT_def)
  show "tg_empty (tg_started n)"
    by (simp add: tg_empty_def tg_load_def tg_started_def tg_globals_def)
  show "tg_room (tg_started n) = (if n = 0 then 1 else n)"
    by (simp add: tg_room_def tg_started_def)
qed

lemma two_bookings:
  obtains s1 s2 where "tg_book_op q1 (tg_started 1) = (Some 0, s1)" "tg_book_op q2 s1 = (Some 1, s2)"
proof -
  have "fst (vq.burst [q1, q2] (tg_started 1)) = [Some 0, Some 1]"
    using vq.burst_spread [of "tg_started 1" 1 "[q1, q2]"] tg_started_inv [of 1]
    by (simp add: tg_empty_def LIMIT_def)
  then show thesis using that by (auto simp: Let_def split: prod.splits)
qed

text \<open>A TokenGen of share 1 with one booking in every second.\<close>

definition tg_packed :: tokengen where
  "tg_packed = (tg_started 1)\<lparr>tg_visitor_count := replicate LIMIT 1\<rparr>"

lemma tg_packed_full: "tg_inv tg_packed" "j < LIMIT \<Longrightarrow> tg_room tg_packed \<le> tg_load tg_packed j"
proof -
  have "slots_ok (replicate LIMIT 1)" by (simp add: slots_ok_def)
  with tg_started_inv(1) [of 1] show "tg_inv tg_packed" by (simp add: tg_packed_def tg_inv_def)
  show "j < LIMIT \<Longrightarrow> tg_room tg_packed \<le> tg_load tg_packed j"
    by (simp add: tg_packed_def tg_room_def tg_load_def tg_started_def)
qed

lemmas tg_started_2 = tg_started_inv [of 2, simplified]

section \<open>Properties\<close>



text \<open>
  C9. A burst into an empty queue is served in order of arrival at the rate of the share: request
  number \<open>i\<close> is told to wait \<open>i div share\<close> seconds.
\<close>

theorem burst_waits:
  assumes "tg_inv s" "tg_empty s" "int (length qs) \<le> tg_room s * int LIMIT"
  shows "fst (tg_burst qs s) = map (\<lambda>i. Some (nat (int i div tg_room s))) [0..<length qs]"
  unfolding tg_burst_vq using vq.burst_spread [of s "tg_room s" qs] assms by (simp add: tg_empty_def)

theorem burst_waits_witness:
  "fst (tg_burst [''a=1'', ''b=2'', ''c=3''] (tg_started 2)) = [Some 0, Some 0, Some 1]"
  using burst_waits [of "tg_started 2" "[''a=1'', ''b=2'', ''c=3'']"] tg_started_2
  by (simp add: LIMIT_def)



text \<open>
  When every second of the horizon is full, a request gets the busy page and books nothing.
\<close>

lemma full_queue_is_busy:
  assumes "tg_inv s" "\<forall>j < LIMIT. tg_room s \<le> tg_load s j"
  shows "\<exists>s'. tg_handle_request hmac now addr (Some req) s = Inr (Busy busy_page, s') \<and> tg_inv s' \<and>
    (\<forall>j < LIMIT. tg_load s' j = tg_load s j)"
proof -
  obtain iter s' where b: "tg_book req s = (iter, s')" by fastforce
  note spec = tg_book_spec [OF assms(1) b]
  then have "iter = LIMIT" using assms(2) by (metis leD le_neq_implies_less)
  with spec b show ?thesis by (simp add: tg_handle_request_def)
qed

lemma full_queue_is_busy_example:
  "\<exists>s'. tg_handle_request (\<lambda>k d. []) 0 None (Some ''limit=5'') tg_packed = Inr (Busy busy_page, s') \<and> tg_inv s' \<and>
    (\<forall>j < LIMIT. tg_load s' j = tg_load tg_packed j)"
  by (rule full_queue_is_busy) (use tg_packed_full in auto)

text \<open>
  C7. Otherwise the request is redirected to the first second with room: that second gets one booking
  more, and the link carries the token for exactly that wait together with its keyed hash.
\<close>

theorem request_gets_first_free_second:
  assumes "tg_inv s" "k < LIMIT" "tg_load s k < tg_room s" "\<forall>j < k. tg_room s \<le> tg_load s j"
    and "length a \<le> 15" "0 \<le> now" "now < 10 ^ 10"
    and "CHR ''='' \<notin> set name" "length (url_prefix (cf_tokenCheckIp (tg_cfg s)) (name @ ''='' @ v) @ v) < 100"
    and "length (hmac SECRET_KEY (wait_token a now k)) = 16"
  shows "\<exists>page s'. tg_handle_request hmac now (Some a) (Some (name @ ''='' @ v)) s =
      Inr (Redirect k (url_prefix (cf_tokenCheckIp (tg_cfg s)) (name @ ''='' @ v) @ v @ ''&hash='' @
             hex_string (hmac SECRET_KEY (wait_token a now k)) @ ''&token='' @ wait_token a now k) page, s') \<and>
    tg_inv s' \<and> (\<forall>j < LIMIT. tg_load s' j = (if j = k then tg_load s j + 1 else tg_load s j))"
proof -
  let ?q = "name @ ''='' @ v" and ?t = "wait_token a now k"
  obtain iter s1 where b: "tg_book ?q s = (iter, s1)" by fastforce
  note spec = tg_book_spec [OF assms(1) b]
  have "\<not> iter < k" using spec assms(2,4) by (meson leD less_trans)
  moreover have "\<not> k < iter" using spec assms(3) by (meson leD)
  ultimately have k: "iter = k" by simp
  have tok: "get_token (Some a) now (int k) = Inr ?t"
    using get_token_ok [of a now "int k"] assms(2,5-7) by (simp add: wait_token_def LIMIT_def)
  have cfg: "tg_cfg s1 = tg_cfg s" using b by (auto simp: tg_book_def Let_def split: prod.splits)
  have url: "make_url (cf_tokenCheckIp (tg_cfg s)) ?q =
      Inr (url_prefix (cf_tokenCheckIp (tg_cfg s)) ?q @ v, v)"
    using assms(9) strchr_append_first [OF assms(8), of v] by (simp add: make_url_def Let_def)
  have h: "fst (getHash hmac ?t m) = hex_string (hmac SECRET_KEY ?t)" for m
    using getHash_eq [of hmac ?t m] assms(10) by simp
  have "k \<noteq> LIMIT" using assms(2) by simp
  then show ?thesis using spec b k
    by (simp add: tg_handle_request_def Let_def tok cfg url h encrypt_def case_prod_beta
        tg_inv_frame tg_load_frame del: append.simps append_Cons)
qed

theorem request_gets_first_free_second_witness:
  "\<exists>page s'. tg_handle_request (\<lambda>k d. replicate 16 7) 1000 (Some ''10.0.0.1'') (Some (''limit'' @ ''='' @ ''5'')) (tg_started 2) =
      Inr (Redirect 0 (url_prefix [] (''limit'' @ ''='' @ ''5'') @ ''5'' @ ''&hash='' @
             hex_string (replicate 16 7) @ ''&token='' @ wait_token ''10.0.0.1'' 1000 0) page, s') \<and>
    tg_inv s' \<and> (\<forall>j < LIMIT. tg_load s' j = (if j = 0 then tg_load (tg_started 2) j + 1 else tg_load (tg_started 2) j))"
proof -
  have cfg: "cf_tokenCheckIp (tg_cfg (tg_started 2)) = []"
    by (simp add: tg_started_def tg_globals_def cfg_init_def)
  have L: "0 < LIMIT" by (simp add: LIMIT_def)
  have "tg_load (tg_started 2) 0 < tg_room (tg_started 2)" using tg_started_2 L by (simp add: tg_empty_def)
  from request_gets_first_free_second [of "tg_started 2" 0 "''10.0.0.1''" 1000 "''limit''" "''5''" "\<lambda>k d. replicate 16 7",
      OF tg_started_2(1) L this, unfolded cfg]
  show ?thesis by (simp add: url_prefix_def)
qed

end
