(* ===== verification/Token_Gen_Net.thy ===== *)
theory Token_Gen_Net
  imports Token_Gen_Slots
begin

unbundle bit_operations_syntax

text \<open>
  TokenGen's side of the network: the reports it writes to the current controller, the messages it
  reads from controllers, peers and the capacity estimator, its listening socket, and the timer
  that notices a silent controller. Every handler is the whole branch of \<open>readFromClient\<close>, reads
  included; what a handler sends and the thread it starts are returned as outputs.
\<close>

section \<open>Sending\<close>

text \<open>\<open>sendResponse\<close>: the answer character, then the own id.\<close>

definition tg_sendResponse :: "netenv \<Rightarrow> string option \<Rightarrow> char \<Rightarrow> tokengen \<Rightarrow> segs res" where
  "tg_sendResponse ne ip rep s =
     (if ne_socket ne < 0 then Inl (Exit 1)
      else case ip of None \<Rightarrow> Inl NullDeref
         | Some a \<Rightarrow> send_to ne a [[char_byte rep], int_bytes (tg_myId s)])"

text \<open>
  One turn of the endless loop of \<open>writeToServer\<close>: three writes (\<open>w k\<close> says whether the k-th
  succeeds); a failed one ends the loop if \<open>flag\<close> is 1, which it resets. The result says whether
  the loop goes on and what was sent. \<open>numbytes\<close> grows by what the last \<open>write\<close> returned, -1
  included.
\<close>

definition tg_write_iter :: "(nat \<Rightarrow> bool) \<Rightarrow> tokengen \<Rightarrow> bool \<times> segs \<times> tokengen" where
  "tg_write_iter w s =
     (let m0 = [char_byte (CHR ''i'')]; m1 = int_bytes (tg_myId s); m2 = int_bytes (tg_incoming s);
          brk = s\<lparr>tg_flag := set_value (tg_flag s) 0\<rparr>
      in if \<not> w 0 \<and> tg_flag s = 1 then (False, [], brk)
         else if \<not> w 1 \<and> tg_flag s = 1 then (False, write_all w 0 [m0], brk)
         else if \<not> w 2 \<and> tg_flag s = 1 then (False, write_all w 0 [m0, m1], brk)
         else (True, write_all w 0 [m0, m1, m2],
               s\<lparr>tg_numbytes := wrap32 (tg_numbytes s + (if w 2 then 4 else -1))\<rparr>))"

fun tg_write_loop :: "(nat \<Rightarrow> bool) list \<Rightarrow> tokengen \<Rightarrow> bool \<times> segs \<times> tokengen" where
  "tg_write_loop [] s = (True, [], s)"
| "tg_write_loop (w # ws) s =
     (let (go, out, s) = tg_write_iter w s
      in if go then let (go, out', s) = tg_write_loop ws s in (go, out @ out', s)
         else (False, out, s))"

text \<open>
  \<open>writeToServer\<close>: the target is the current controller, or the previous one while there is none.
  \<open>ws\<close> are the outcomes of the turns observed.
\<close>

definition tg_writeToServer :: "netenv \<Rightarrow> (nat \<Rightarrow> bool) list \<Rightarrow> tokengen \<Rightarrow> (string \<times> segs \<times> tokengen) res" where
  "tg_writeToServer ne ws s =
     bindR (get_at (cf_ip_controller (tg_cfg s)) (if tg_id s \<noteq> -1 then tg_id s else tg_prevId s)) (\<lambda>ip.
       if ne_socket ne < 0 then Inl (Exit 1)
       else case ip of
         None \<Rightarrow> Inl NullDeref
       | Some a \<Rightarrow>
           if \<not> ne_aton ne a then Inl (Exit 1)
           else if ne_connect ne a
           then let (go, out, s) = tg_write_loop ws s in Inr (a, out, s)
           else Inr (a, [], s))"

text \<open>\<open>queue_sender\<close> sleeps a second and runs \<open>writeToServer\<close>.\<close>

definition tg_queue_sender :: "netenv \<Rightarrow> (nat \<Rightarrow> bool) list \<Rightarrow> tokengen \<Rightarrow> (string \<times> segs \<times> tokengen) res" where
  "tg_queue_sender ne ws s = tg_writeToServer ne ws s"

section \<open>Receiving\<close>

record tg_env =
  te_now :: int
  te_net :: netenv
  te_fopen :: bool

datatype tg_out = Sent "string option" segs | SpawnSender

type_synonym tg_step = "(tg_out list \<times> segs \<times> tokengen) res"

text \<open>Message \<open>c\<close>: a capacity, overwritten by the constant 720.\<close>

definition tg_msg_c :: "segs \<Rightarrow> tokengen \<Rightarrow> tg_step" where
  "tg_msg_c cs s =
     (let (v, r) = read_int cs;
          s = (case v of None \<Rightarrow> s | Some x \<Rightarrow> s\<lparr>tg_capacity := x\<rparr>)
      in Inr ([], r, s\<lparr>tg_capacity := 720\<rparr>))"

text \<open>
  Message \<open>s\<close>: the share of capacity from a controller. It counts when it comes from the current
  controller, or from the previous one while none is current, which ends that state.
\<close>

definition tg_msg_s :: "tg_env \<Rightarrow> segs \<Rightarrow> tokengen \<Rightarrow> tg_step" where
  "tg_msg_s e cs s =
     (let (tempId, r) = read_int cs; (tempSh, r) = read_int r
      in case tempId of
           None \<Rightarrow> Inl UninitRead
         | Some i \<Rightarrow>
             if tg_id s = -1 \<and> i = tg_prevId s \<or> i = tg_id s
             then (case tempSh of
                     None \<Rightarrow> Inl UninitRead
                   | Some sh \<Rightarrow>
                       let s = (if sh \<noteq> 0 then s\<lparr>tg_share := sh\<rparr> else s);
                           s = s\<lparr>tg_startTime := change_time (tg_startTime s) (te_now e)\<rparr>;
                           s = (if tg_id s = -1 then s\<lparr>tg_id := set_value (tg_id s) (tg_prevId s)\<rparr> else s)
                       in Inr ([], r, s))
             else Inr ([], r, s))"

text \<open>Message \<open>h\<close>: hardness of the two request types, overwritten by 1.\<close>

definition tg_msg_h :: "segs \<Rightarrow> tokengen \<Rightarrow> tg_step" where
  "tg_msg_h cs s =
     (let (a, r) = read_int cs; (b, r) = read_int r;
          s = (case a of None \<Rightarrow> s | Some x \<Rightarrow> s\<lparr>tg_hardness := (tg_hardness s)[0 := x]\<rparr>);
          s = (case b of None \<Rightarrow> s | Some x \<Rightarrow> s\<lparr>tg_hardness := (tg_hardness s)[1 := x]\<rparr>)
      in Inr ([], r, s\<lparr>tg_hardness := (tg_hardness s)[0 := 1, 1 := 1]\<rparr>))"

text \<open>Message \<open>i\<close>: the rate of a peer, stored under the number its connection got.\<close>

definition tg_msg_i :: "int \<Rightarrow> segs \<Rightarrow> tokengen \<Rightarrow> tg_step" where
  "tg_msg_i cd cs s =
     (let (v, r) = read_int cs
      in case v of None \<Rightarrow> Inr ([], r, s)
         | Some x \<Rightarrow> bindR (set_at (tg_incoming_peers s) cd x)
                      (\<lambda>p. Inr ([], r, s\<lparr>tg_incoming_peers := p\<rparr>)))"

text \<open>Message \<open>x\<close>: a backup asks for a vote; the answer is positive iff no controller is current.\<close>

definition tg_msg_x :: "tg_env \<Rightarrow> segs \<Rightarrow> tokengen \<Rightarrow> tg_step" where
  "tg_msg_x e cs s =
     (let (v, r) = read_int cs
      in case v of
           None \<Rightarrow> Inr ([], r, s)
         | Some x \<Rightarrow>
             let s = s\<lparr>tg_localId := x\<rparr>; rep = (if tg_id s = -1 then CHR ''p'' else CHR ''n'')
             in bindR (get_at (cf_ip_controller (tg_cfg s)) (tg_localId s)) (\<lambda>ip.
                  bindR (tg_sendResponse (te_net e) ip rep s)
                    (\<lambda>out. Inr ([Sent ip out], r, s))))"

text \<open>Message \<open>t\<close>: the new controller; acknowledged, stored in \<open>IdStore\<close>, and a new sender starts.\<close>

definition tg_msg_t :: "tg_env \<Rightarrow> segs \<Rightarrow> tokengen \<Rightarrow> tg_step" where
  "tg_msg_t e cs s =
     (let (v, r) = read_int cs;
          s = (case v of
                 None \<Rightarrow> s
               | Some x \<Rightarrow>
                   (tg_writeID (te_fopen e) (s\<lparr>tg_id := set_value (tg_id s) x\<rparr>))
                     \<lparr>tg_startTime := change_time (tg_startTime s) (te_now e)\<rparr>);
          s = s\<lparr>tg_flag := set_value (tg_flag s) 1\<rparr>
      in bindR (get_at (cf_ip_controller (tg_cfg s)) (tg_id s)) (\<lambda>ip.
           bindR (tg_sendResponse (te_net e) ip (CHR ''y'') s)
             (\<lambda>out. Inr ([Sent ip out, SpawnSender], r, s))))"

text \<open>The dispatch on the first character; an unknown one is skipped.\<close>

definition tg_msg :: "tg_env \<Rightarrow> int \<Rightarrow> byte \<Rightarrow> segs \<Rightarrow> tokengen \<Rightarrow> tg_step" where
  "tg_msg e cd b cs s =
     (if b = char_byte (CHR ''c'') then tg_msg_c cs s
      else if b = char_byte (CHR ''s'') then tg_msg_s e cs s
      else if b = char_byte (CHR ''h'') then tg_msg_h cs s
      else if b = char_byte (CHR ''i'') then tg_msg_i cd cs s
      else if b = char_byte (CHR ''x'') then tg_msg_x e cs s
      else if b = char_byte (CHR ''t'') then tg_msg_t e cs s
      else Inr ([], cs, s))"

lemmas tg_msg_defs = tg_msg_c_def tg_msg_s_def tg_msg_h_def tg_msg_i_def tg_msg_x_def tg_msg_t_def

lemma tg_msg_shorter:
  assumes "tg_msg e cd b cs s = Inr (out, r, s')"
  shows "pending r \<le> pending cs"
proof -
  have two: "read_int cs = (v, r1) \<Longrightarrow> read_int r1 = (w, r2) \<Longrightarrow> pending r2 \<le> pending cs" for v w r1 r2
    using read_int_pending [of cs v r1] read_int_pending [of r1 w r2] by linarith
  show ?thesis
    using assms unfolding tg_msg_def tg_msg_defs
    by (auto simp: Let_def res_simps split: if_splits prod.splits option.splits
        dest: read_int_pending two)
qed

text \<open>The reading loop of one connection, until the peer closes it.\<close>

function tg_readFromClient :: "(nat \<Rightarrow> tg_env) \<Rightarrow> nat \<Rightarrow> int \<Rightarrow> segs \<Rightarrow> tokengen \<Rightarrow> (tg_out list \<times> tokengen) res" where
  "tg_readFromClient env k cd cs s =
     (case read_sock 1 cs of
        ([], r) \<Rightarrow> Inr ([], s)
      | (b # _, r) \<Rightarrow>
          bindR (tg_msg (env k) cd b r s) (\<lambda>(out, r, s).
            bindR (tg_readFromClient env (Suc k) cd r s) (\<lambda>(outs, s). Inr (out @ outs, s))))"
  by pat_completeness auto
termination
proof (relation "measure (\<lambda>(env, k, cd, cs, s). pending cs)", goal_cases)
  case 2
  then show ?case using read_sock_less tg_msg_shorter
    by (fastforce dest!: sym [of _ "read_sock _ _"])
qed simp

declare tg_readFromClient.simps [simp del]

section \<open>The listening socket\<close>

record clientDetails =
  cd_sockfd :: int
  cd_ip1 :: "32 word"
  cd_ip2 :: "32 word"
  cd_ip3 :: "32 word"
  cd_ip4 :: "32 word"

definition client_of :: "int \<Rightarrow> 32 word \<Rightarrow> clientDetails" where
  "client_of fd a = \<lparr>cd_sockfd = fd, cd_ip1 = a AND 0xFF, cd_ip2 = drop_bit 8 (a AND 0xFF00),
     cd_ip3 = drop_bit 16 (a AND 0xFF0000), cd_ip4 = drop_bit 24 (a AND 0xFF000000)\<rparr>"

text \<open>
  \<open>create_server_socket\<close>: the results of \<open>socket\<close>, \<open>bind\<close> and \<open>setsockopt\<close>, then one accepted
  connection at a time (its descriptor and address): it is numbered by \<open>connectedClients\<close> and a
  thread starts reading from it.
\<close>

definition tg_listen :: "int \<Rightarrow> int \<Rightarrow> int \<Rightarrow> unit res" where
  "tg_listen fd bound opt =
     (if fd < 0 then Inl (Exit 1) else if bound < 0 then Inl (Exit 1)
      else if opt < 0 then Inl (Exit 2) else Inr ())"

definition tg_accept :: "int \<Rightarrow> 32 word \<Rightarrow> tokengen \<Rightarrow> (clientDetails \<times> int \<times> tokengen) res" where
  "tg_accept newsockfd a s =
     (if newsockfd < 0 then Inl (Exit 1)
      else Inr (client_of newsockfd a, tg_connectedClients s,
                s\<lparr>tg_connectedClients := wrap32 (tg_connectedClients s + 1)\<rparr>))"

fun tg_accept_loop :: "(int \<times> 32 word) list \<Rightarrow> tokengen \<Rightarrow> ((clientDetails \<times> int) list \<times> tokengen) res" where
  "tg_accept_loop [] s = Inr ([], s)"
| "tg_accept_loop ((fd, a) # cs) s =
     bindR (tg_accept fd a s) (\<lambda>(cd, n, s).
       bindR (tg_accept_loop cs s) (\<lambda>(l, s). Inr ((cd, n) # l, s)))"

definition tg_create_server_socket ::
  "int \<Rightarrow> int \<Rightarrow> int \<Rightarrow> (int \<times> 32 word) list \<Rightarrow> tokengen \<Rightarrow> ((clientDetails \<times> int) list \<times> tokengen) res" where
  "tg_create_server_socket fd bound opt conns s =
     bindR (tg_listen fd bound opt) (\<lambda>_. tg_accept_loop conns s)"

section \<open>The timer\<close>

definition tg_timeout :: "tokengen \<Rightarrow> tokengen" where
  "tg_timeout s = (let s = s\<lparr>tg_prevId := set_value (tg_prevId s) (tg_id s)\<rparr>
                   in s\<lparr>tg_id := set_value (tg_id s) (-1)\<rparr>)"

text \<open>
  One look of \<open>timer_fn\<close> at the clock: three seconds without a message of the controller are a
  timeout, after which the clock starts anew.
\<close>

definition tg_timer_poll :: "int \<Rightarrow> tokengen \<Rightarrow> tokengen" where
  "tg_timer_poll now s =
     (if now - tg_startTime s < 3 then s
      else (tg_timeout s)\<lparr>tg_startTime := change_time (tg_startTime s) now\<rparr>)"

fun tg_timer_fn :: "int list \<Rightarrow> tokengen \<Rightarrow> tokengen" where
  "tg_timer_fn [] s = s"
| "tg_timer_fn (t # ts) s = tg_timer_fn ts (tg_timer_poll t s)"

lemma tg_timer_poll_late:
  "3 \<le> now - tg_startTime s \<Longrightarrow>
     tg_timer_poll now s = s\<lparr>tg_prevId := tg_id s, tg_id := -1, tg_startTime := now\<rparr>"
  by (simp add: tg_timer_poll_def tg_timeout_def set_value_def change_time_def Let_def)

section \<open>Properties\<close>

text \<open>
  One silence of three seconds only suspends the controller: its next share message is accepted,
  restores it and restarts the clock.
\<close>

lemma silent_controller_is_taken_back:
  assumes "3 \<le> t - tg_startTime s" "int32 (tg_id s)" "int32 sh" "sh \<noteq> 0"
  shows "tg_msg_s e [int_bytes (tg_id s), int_bytes sh] (tg_timer_poll t s) =
    Inr ([], [], s\<lparr>tg_prevId := tg_id s, tg_share := sh, tg_startTime := te_now e\<rparr>)"
  using assms by (simp add: tg_timer_poll_late tg_msg_s_def change_time_def set_value_def Let_def)

lemma silent_controller_is_taken_back_example:
  "tg_msg_s \<lparr>te_now = 9, te_net = net_ok, te_fopen = True\<rparr> [int_bytes 0, int_bytes 12] (tg_timer_poll 5 tg_globals) =
    Inr ([], [], tg_globals\<lparr>tg_prevId := 0, tg_share := 12, tg_startTime := 9\<rparr>)"
  using silent_controller_is_taken_back [of 5 tg_globals 12 "\<lparr>te_now = 9, te_net = net_ok, te_fopen = True\<rparr>"]
  by (simp add: tg_globals_def int32_def)

text \<open>
  Two silences in a row make TokenGen forget the controller: the share messages of every
  controller are ignored from then on, and the sender thread indexes its address table with -1.
\<close>

lemma second_silence_forgets_controller:
  assumes "3 \<le> t1 - tg_startTime s" "3 \<le> t2 - t1" "0 \<le> i" "int32 i" "int32 sh"
  shows "tg_msg_s e [int_bytes i, int_bytes sh] (tg_timer_fn [t1, t2] s) = Inr ([], [], tg_timer_fn [t1, t2] s) \<and>
    tg_writeToServer ne ws (tg_timer_fn [t1, t2] s) = Inl OutOfBounds"
  using assms by (simp add: tg_timer_poll_late tg_msg_s_def tg_writeToServer_def get_at_def Let_def)

lemma second_silence_forgets_controller_example:
  "tg_msg_s \<lparr>te_now = 9, te_net = net_ok,
       te_fopen = True\<rparr> [int_bytes 0, int_bytes 12] (tg_timer_fn [3, 6] tg_globals) = Inr ([], [], tg_timer_fn [3, 6] tg_globals)"
  using second_silence_forgets_controller [of 3 tg_globals 6 0 12]
  by (simp add: tg_globals_def int32_def)

end
