(* ===== verification/Capacity_Share.thy ===== *)
theory Capacity_Share
  imports Token_Gen_Net
begin

text \<open>
  The Controller's globals and \<open>calcSoc\<close>, which splits the server's capacity among the TokenGens in
  proportion to their incoming rates, in single-precision arithmetic. The lemmas bound the error
  of one share and the sum of all of them.
\<close>

section \<open>State\<close>

record controller =
  ct_id :: int
  ct_flag :: int
  ct_myId :: int
  ct_timeOut :: int
  ct_majority :: int
  ct_votesRecv :: int
  ct_cfg :: config
  ct_soc :: "int list"
  ct_votes :: "int list"
  ct_flagTG :: "int list"
  ct_hardness :: "int list"
  ct_incomingRate :: "rat list"
  ct_sum_incoming_rate :: rat
  ct_incomingR :: "int list"
  ct_startTime :: int
  ct_connectedClients :: int
  ct_capacity :: int
  ct_current_time :: nat
  ct_numbytes :: int
  ct_tot_numbytes :: int
  ct_incoming :: int
  ct_outgoing :: int
  ct_failing :: int
  ct_total_waiting_time :: rat
  ct_visitor_count :: "int list list"
  ct_log_open :: bool
  ct_log :: "(int \<times> rat \<times> int \<times> nat) list"
  ct_idstore :: "string option"

abbreviation ct_n :: "controller \<Rightarrow> int" where
  "ct_n s \<equiv> cf_no_of_proxy (ct_cfg s)"

text \<open>The globals before \<open>main\<close> runs.\<close>

definition ct_globals :: controller where
  "ct_globals = \<lparr>ct_id = 0, ct_flag = 0, ct_myId = 0, ct_timeOut = 0, ct_majority = 0,
     ct_votesRecv = 0, ct_cfg = cfg_init, ct_soc = replicate PEERS 0, ct_votes = replicate PEERS 0,
     ct_flagTG = replicate PEERS 0, ct_hardness = [0, 0], ct_incomingRate = replicate PEERS 0,
     ct_sum_incoming_rate = 0, ct_incomingR = replicate PEERS 0, ct_startTime = 0,
     ct_connectedClients = 0, ct_capacity = 10, ct_current_time = 0, ct_numbytes = 0,
     ct_tot_numbytes = 0, ct_incoming = 0, ct_outgoing = 0, ct_failing = 0,
     ct_total_waiting_time = 0, ct_visitor_count = replicate PEERS (replicate LIMIT 0),
     ct_log_open = False, ct_log = [], ct_idstore = None\<rparr>"

section \<open>The shares\<close>

text \<open>
  The rates as floats, their running sum, and one share. With no traffic at all the share is
  \<open>1/no_of_proxy * capacity\<close> in integer arithmetic.
\<close>

definition soc_rates :: "int list \<Rightarrow> rat list" where
  "soc_rates rs = map (\<lambda>r. fl32 (of_int r)) rs"

definition soc_sum :: "rat list \<Rightarrow> rat" where
  "soc_sum rates = foldl (\<lambda>a r. fl32 (a + r)) 0 rates"

definition soc_idle :: "int \<Rightarrow> int \<Rightarrow> int" where
  "soc_idle n capacity = c_round (of_int (wrap32 ((1 div n) * capacity)))"

definition soc_of :: "int \<Rightarrow> rat \<Rightarrow> rat \<Rightarrow> int" where
  "soc_of capacity tot r =
     (if r = 0 then 1 else c_round (fl32 (fl32 (r / tot) * fl32 (of_int capacity))))"

definition soc_list :: "int \<Rightarrow> int list \<Rightarrow> int list" where
  "soc_list capacity rs =
     (let rates = soc_rates rs; tot = soc_sum rates
      in if tot = 0 then map (\<lambda>_. soc_idle (int (length rs)) capacity) rs
         else map (soc_of capacity tot) rates)"

text \<open>
  \<open>calcSoc\<close>: nothing happens on a controller that is not the primary; the loops run over the
  first \<open>no_of_proxy\<close> elements of arrays of \<open>PEERS\<close>.
\<close>

definition calcSoc :: "controller \<Rightarrow> controller res" where
  "calcSoc s =
     (if ct_id s \<noteq> ct_myId s then Inr s
      else
        let n = nat (ct_n s)
        in bindR (checkR (n \<le> PEERS) OutOfBounds) (\<lambda>_.
             let rs = take n (ct_incomingR s); rates = soc_rates rs
             in Inr (s\<lparr>ct_sum_incoming_rate := soc_sum rates,
                       ct_incomingRate := rates @ drop n (ct_incomingRate s),
                       ct_soc := soc_list (ct_capacity s) rs @ drop n (ct_soc s)\<rparr>)))"

text \<open>The thread \<open>calculate_soc\<close> sleeps a second and calls it.\<close>

definition calculate_soc :: "controller \<Rightarrow> controller res" where
  "calculate_soc s = calcSoc s"

section \<open>Accuracy\<close>

lemma soc_rates_exact:
  assumes "\<forall>r \<in> set rs. 0 \<le> r" "sum_list rs < 2 ^ 24"
  shows "soc_rates rs = map of_int rs"
proof -
  have "fl32 (of_int r) = of_int r" if "r \<in> set rs" for r
  proof (rule fl32_int)
    have "r \<le> sum_list rs" using assms(1) that by (simp add: member_le_sum_list)
    with assms that show "\<bar>r\<bar> < 2 ^ 24" by simp
  qed
  then show ?thesis by (simp add: soc_rates_def)
qed

lemma soc_sum_exact:
  assumes "\<forall>r \<in> set rs. 0 \<le> r" "0 \<le> a" "a + sum_list rs < 2 ^ 24"
  shows "foldl (\<lambda>a r. fl32 (a + r)) (of_int a) (map of_int rs) = of_int (a + sum_list rs)"
  using assms
proof (induction rs arbitrary: a)
  case (Cons r rs)
  have "0 \<le> sum_list rs" using Cons.prems by (simp add: sum_list_nonneg)
  then have "fl32 (of_int (a + r)) = of_int (a + r)"
    using Cons.prems by (intro fl32_int) simp
  then show ?case using Cons.IH [of "a + r"] Cons.prems by (simp add: add.assoc)
qed simp

text \<open>One share is within a half, plus the rounding of two operations, of the exact proportion.\<close>

lemma fl32_scale_error:
  fixes x c :: rat
  assumes x: "0 < x" "x \<le> 1" and c: "0 < c"
  shows "\<bar>fl32 (fl32 x * c) - x * c\<bar> \<le> c / 2 ^ 22"
proof -
  let ?y = "fl32 x"
  have "\<bar>x\<bar> / 2 ^ 24 \<le> 1 / 2 ^ 24" using x by (intro divide_right_mono) auto
  with fl32_error [of x] have e1: "\<bar>?y - x\<bar> \<le> 1 / 2 ^ 24" by (rule order_trans)
  have "\<bar>?y * c - x * c\<bar> = \<bar>?y - x\<bar> * c"
    using c by (simp add: left_diff_distrib [symmetric] abs_mult)
  also have "\<dots> \<le> 1 / 2 ^ 24 * c" using e1 c by (intro mult_right_mono) auto
  finally have p: "\<bar>?y * c - x * c\<bar> \<le> c / 2 ^ 24" by simp
  have xc: "0 \<le> x * c" "x * c \<le> c" using x c by (simp_all add: mult_le_cancel_right1)
  have "c / 2 ^ 24 \<le> c" using c by simp
  with p xc have "\<bar>?y * c\<bar> \<le> 2 * c" by linarith
  then have "\<bar>?y * c\<bar> / 2 ^ 24 \<le> 2 * c / 2 ^ 24" by (intro divide_right_mono) auto
  with fl32_error [of "?y * c"] have "\<bar>fl32 (?y * c) - ?y * c\<bar> \<le> 2 * c / 2 ^ 24"
    by (rule order_trans)
  with p have "\<bar>fl32 (?y * c) - x * c\<bar> \<le> 2 * c / 2 ^ 24 + c / 2 ^ 24" by linarith
  also have "\<dots> \<le> c / 2 ^ 22" using c by simp
  finally show ?thesis .
qed

lemma soc_of_error:
  assumes r: "0 < r" "r \<le> t" and c: "0 < c" "c < 2 ^ 20"
  shows "\<bar>of_int (soc_of c t r) - of_int c * r / t\<bar> \<le> 1 / 2 + of_int c / 2 ^ 22"
proof -
  let ?c = "of_int c :: rat" and ?v = "fl32 (fl32 (r / t) * of_int c)"
  have x: "0 < r / t" "r / t \<le> 1" using r by (simp_all add: divide_le_eq_1)
  have fc: "fl32 ?c = ?c" using c by (intro fl32_int) simp
  have "\<bar>?v - r / t * ?c\<bar> \<le> ?c / 2 ^ 22" using fl32_scale_error [OF x] c by simp
  moreover have "\<bar>of_int (c_round ?v) - ?v\<bar> \<le> 1 / 2" by (rule c_round_error)
  moreover have "soc_of c t r = c_round ?v" using r by (simp add: soc_of_def fc)
  moreover have "r / t * ?c = ?c * r / t" by simp
  ultimately show ?thesis by linarith
qed

lemma soc_of_nonneg: "0 \<le> r \<Longrightarrow> 0 < t \<Longrightarrow> 0 \<le> c \<Longrightarrow> 0 \<le> soc_of c t r"
  by (auto simp: soc_of_def intro!: c_round_nonneg fl32_nonneg mult_nonneg_nonneg)

text \<open>
  Together the shares miss the capacity by less than one per TokenGen (\<open>k\<close> of the \<open>rs\<close> summed,
  \<open>t\<close> the total).
\<close>

lemma soc_sum_error:
  assumes "\<forall>r \<in> set rs. 0 \<le> r \<and> of_int r \<le> (t :: rat)" "0 < t" "0 < c" "c < 2 ^ 20"
  shows "\<bar>of_int (sum_list (map (\<lambda>r. soc_of c t (of_int r)) rs)) - of_int c * of_int (sum_list rs) / t\<bar>
      \<le> of_nat (length rs)"
  using assms(1)
proof (induction rs)
  case (Cons r rs)
  have ih: "\<bar>of_int (sum_list (map (\<lambda>r. soc_of c t (of_int r)) rs)) - of_int c * of_int (sum_list rs) / t\<bar>
      \<le> of_nat (length rs)" using Cons by simp
  have one: "\<bar>of_int (soc_of c t (of_int r)) - of_int c * of_int r / t\<bar> \<le> 1"
  proof (cases "r = 0")
    case True
    then show ?thesis by (simp add: soc_of_def)
  next
    case False
    then have "\<bar>of_int (soc_of c t (of_int r)) - of_int c * of_int r / t\<bar> \<le> 1 / 2 + of_int c / 2 ^ 22"
      using soc_of_error [of "of_int r" t c] Cons.prems assms by simp
    moreover have "(of_int c :: rat) \<le> 2 ^ 20"
    proof -
      have "(of_int c :: rat) \<le> of_int (2 ^ 20)" using assms by (simp only: of_int_le_iff)
      then show ?thesis by simp
    qed
    ultimately show ?thesis by simp
  qed
  have "of_int c * of_int (sum_list (r # rs)) / t = of_int c * of_int r / t + of_int c * of_int (sum_list rs) / t"
    by (simp add: distrib_left add_divide_distrib)
  then show ?case using ih one by simp
qed simp

lemma soc_list_traffic:
  assumes "\<forall>r \<in> set rs. 0 \<le> r" "0 < sum_list rs" "sum_list rs < 2 ^ 24"
  shows "soc_list c rs = map (\<lambda>r. soc_of c (of_int (sum_list rs)) (of_int r)) rs"
proof -
  have r: "soc_rates rs = map of_int rs" using assms by (intro soc_rates_exact) auto
  have "soc_sum (soc_rates rs) = of_int (sum_list rs)"
    using soc_sum_exact [of rs 0] assms by (simp add: soc_sum_def r)
  with assms r show ?thesis by (simp add: soc_list_def Let_def)
qed

lemma calcSoc_primary:
  assumes "ct_id s = ct_myId s" "nat (ct_n s) \<le> PEERS"
  shows "\<exists>s'. calcSoc s = Inr s' \<and>
    ct_soc s' = soc_list (ct_capacity s) (take (nat (ct_n s)) (ct_incomingR s)) @ drop (nat (ct_n s)) (ct_soc s)"
  using assms by (simp add: calcSoc_def Let_def)

lemma soc_total:
  assumes "\<forall>r \<in> set rs. 0 \<le> r" "0 < sum_list rs" "sum_list rs < 2 ^ 24" "0 < c" "c < 2 ^ 20"
  shows "\<bar>sum_list (soc_list c rs) - c\<bar> \<le> int (length rs)"
proof -
  let ?t = "of_int (sum_list rs) :: rat"
  have le: "\<forall>r \<in> set rs. 0 \<le> r \<and> of_int r \<le> ?t"
    using assms(1) by (simp add: member_le_sum_list)
  have "\<bar>of_int (sum_list (map (\<lambda>r. soc_of c ?t (of_int r)) rs)) - of_int c * ?t / ?t\<bar> \<le> (of_nat (length rs) :: rat)"
    using le assms by (intro soc_sum_error) auto
  then have "\<bar>of_int (sum_list (soc_list c rs)) - of_int c\<bar> \<le> (of_nat (length rs) :: rat)"
    using assms by (simp add: soc_list_traffic)
  then have "of_int \<bar>sum_list (soc_list c rs) - c\<bar> \<le> (of_int (int (length rs)) :: rat)" by simp
  then show ?thesis by (simp only: of_int_le_iff)
qed

section \<open>Properties\<close>

text \<open>
  C13. The capacity is distributed, not multiplied: with any traffic at all, the shares that
  \<open>calcSoc\<close> computes in single-precision arithmetic add up to the capacity, up to one request
  per TokenGen.
\<close>

theorem shares_add_up_to_capacity:
  assumes "ct_id s = ct_myId s" "0 \<le> ct_n s" "ct_n s \<le> int PEERS" "length (ct_incomingR s) = PEERS"
    and "\<forall>r \<in> set (take (nat (ct_n s)) (ct_incomingR s)). 0 \<le> r"
    and "0 < sum_list (take (nat (ct_n s)) (ct_incomingR s))" "sum_list (take (nat (ct_n s)) (ct_incomingR s)) < 2 ^ 24"
    and "0 < ct_capacity s" "ct_capacity s < 2 ^ 20"
  shows "\<exists>s'. calcSoc s = Inr s' \<and> \<bar>sum_list (take (nat (ct_n s)) (ct_soc s')) - ct_capacity s\<bar> \<le> ct_n s"
proof -
  let ?rs = "take (nat (ct_n s)) (ct_incomingR s)"
  have n: "nat (ct_n s) \<le> PEERS" "length ?rs = nat (ct_n s)" using assms(2-4) by auto
  obtain s' where s': "calcSoc s = Inr s'"
    "ct_soc s' = soc_list (ct_capacity s) ?rs @ drop (nat (ct_n s)) (ct_soc s)"
    using calcSoc_primary [OF assms(1) n(1)] by blast
  have "length (soc_list (ct_capacity s) ?rs) = nat (ct_n s)" using n(2) by (simp add: soc_list_def soc_rates_def Let_def)
  then have "take (nat (ct_n s)) (ct_soc s') = soc_list (ct_capacity s) ?rs" by (simp add: s'(2))
  with soc_total [OF assms(5-9)] n(2) assms(2) s'(1) show ?thesis by simp
qed

theorem shares_add_up_to_capacity_witness:
  "\<exists>s'. calcSoc (ct_globals\<lparr>ct_cfg := cfg_init\<lparr>cf_no_of_proxy := 3\<rparr>, ct_incomingR := [10, 20, 33, 0, 0],
        ct_capacity := 720\<rparr>) = Inr s' \<and> \<bar>sum_list (take 3 (ct_soc s')) - 720\<bar> \<le> 3"
  using shares_add_up_to_capacity [of "ct_globals\<lparr>ct_cfg := cfg_init\<lparr>cf_no_of_proxy := 3\<rparr>,
    ct_incomingR := [10, 20, 33, 0, 0], ct_capacity := 720\<rparr>"]
  by (simp add: ct_globals_def PEERS_def)

text \<open>
  Each share is the exact proportion of the capacity, up to rounding to a whole request and a
  relative error of $2^{-22}$; a TokenGen without traffic gets one request per second.
\<close>

lemma share_is_proportional:
  assumes "\<forall>r \<in> set rs. 0 \<le> r" "0 < sum_list rs" "sum_list rs < 2 ^ 24" "0 < c" "c < 2 ^ 20" "i < length rs"
  shows "(rs ! i = 0 \<longrightarrow> soc_list c rs ! i = 1) \<and>
    (0 < rs ! i \<longrightarrow> \<bar>of_int (soc_list c rs ! i) - of_int c * of_int (rs ! i) / of_int (sum_list rs)\<bar>
       \<le> 1 / 2 + of_int c / (2 ^ 22 :: rat))"
proof -
  let ?t = "of_int (sum_list rs) :: rat"
  have nth: "soc_list c rs ! i = soc_of c ?t (of_int (rs ! i))"
    using assms by (simp add: soc_list_traffic)
  have "rs ! i \<le> sum_list rs" using assms(1,6) by (simp add: member_le_sum_list)
  then have "0 < rs ! i \<Longrightarrow> \<bar>of_int (soc_of c ?t (of_int (rs ! i))) - of_int c * of_int (rs ! i) / ?t\<bar>
       \<le> 1 / 2 + of_int c / 2 ^ 22"
    using assms by (intro soc_of_error) auto
  then show ?thesis unfolding nth by (simp add: soc_of_def)
qed

lemma share_is_proportional_example:
  "\<bar>of_int (soc_list 720 [10, 20, 33] ! 1) - 720 * 20 / 63\<bar> \<le> 1 / 2 + 720 / (2 ^ 22 :: rat)"
  using share_is_proportional [of "[10, 20, 33]" 720 1] by simp

text \<open>
  Without traffic the intended equal split \<open>1/no_of_proxy * capacity\<close> is an integer division:
  as soon as there are two TokenGens, every share is 0.
\<close>

lemma idle_share_is_zero:
  assumes "2 \<le> length rs" "\<forall>r \<in> set rs. r = 0"
  shows "soc_list c rs = replicate (length rs) 0"
proof -
  have rs: "rs = replicate (length rs) 0" using assms(2) by (simp add: replicate_length_same)
  have z: "soc_sum (replicate n 0) = 0" for n by (induction n) (simp_all add: soc_sum_def)
  have "soc_rates rs = replicate (length rs) 0" by (subst rs) (simp add: soc_rates_def)
  moreover have "1 div int (length rs) = 0" using assms(1) by simp
  ultimately have "soc_list c rs = map (\<lambda>_. 0) rs"
    using c_round_int [of 0] by (simp add: soc_list_def soc_idle_def z Let_def wrap32_id int32_def)
  then show ?thesis by (simp add: map_replicate_const)
qed

lemma idle_share_is_zero_example: "soc_list 720 [0, 0, 0] = [0, 0, 0]"
  using idle_share_is_zero [of "[0, 0, 0]" 720] by (simp add: eval_nat_numeral)

end
