(* ===== verification/Controller.thy ===== *)
theory Controller
  imports Capacity_Share
begin

text \<open>
  The Controller process: the messages it sends and reads, its id file, its per-second log, the
  sockets, and its start-up. The endless loops that write to a TokenGen and to the other controller
  read the shared \<open>id\<close> afresh every turn, so a run of such a loop is given by the state each turn
  finds.
\<close>

section \<open>The id file and the log\<close>

definition ct_readID :: "string \<Rightarrow> controller \<Rightarrow> controller" where
  "ct_readID junk s =
     (case ct_idstore s of
        None \<Rightarrow> s
      | Some f \<Rightarrow> s\<lparr>ct_id := atoi ((case f of [] \<Rightarrow> CHR 0xFF | c # _ \<Rightarrow> c) # junk)\<rparr>)"

definition ct_writeID :: "bool \<Rightarrow> controller \<Rightarrow> controller" where
  "ct_writeID fopen_ok s =
     (if fopen_ok then s\<lparr>ct_idstore := Some (show_int (ct_id s))\<rparr> else s)"

definition ct_init_logger :: "bool \<Rightarrow> controller \<Rightarrow> controller" where
  "ct_init_logger fopen_ok s =
     (if ct_log_open s then s else s\<lparr>ct_log_open := fopen_ok\<rparr>)"

text \<open>\<open>log_data\<close> of the Controller keeps no window and leaves \<open>visitor_count\<close> alone.\<close>

definition ct_log_data :: "int \<Rightarrow> bool \<Rightarrow> controller \<Rightarrow> controller" where
  "ct_log_data now fopen_ok s =
     (let s = ct_init_logger fopen_ok s;
          s = (if ct_log_open s
               then s\<lparr>ct_log := ct_log s @ [(now, ct_sum_incoming_rate s, ct_capacity s, ct_current_time s)]\<rparr>
               else s)
      in s\<lparr>ct_current_time := (ct_current_time s + 1) mod LIMIT,
           ct_tot_numbytes := wrap32 (ct_tot_numbytes s + ct_numbytes s),
           ct_incoming := change_values (ct_incoming s) 0,
           ct_numbytes := change_values (ct_numbytes s) 0,
           ct_outgoing := change_values (ct_outgoing s) 0,
           ct_total_waiting_time := change_float_values (ct_total_waiting_time s) 0 0\<rparr>)"

section \<open>Sending\<close>

definition other_id :: "controller \<Rightarrow> int" where
  "other_id s = wrap32 (1 - ct_myId s)"

text \<open>\<open>sendID\<close> and \<open>changeController\<close>: one character, then the own id.\<close>

definition sendID :: "netenv \<Rightarrow> string option \<Rightarrow> char \<Rightarrow> controller \<Rightarrow> segs res" where
  "sendID ne ip delim s =
     (if ne_socket ne < 0 then Inl (Exit 1)
      else case ip of None \<Rightarrow> Inl NullDeref
         | Some a \<Rightarrow> send_to ne a [[char_byte delim], int_bytes (ct_myId s)])"

definition changeController :: "netenv \<Rightarrow> string option \<Rightarrow> controller \<Rightarrow> segs res" where
  "changeController ne ip s =
     (if ne_socket ne < 0 then Inl (Exit 1)
      else case ip of None \<Rightarrow> Inl NullDeref
         | Some a \<Rightarrow> send_to ne a [[char_byte (CHR ''x'')], int_bytes (ct_myId s)])"

text \<open>
  \<open>writeToServer\<close>: one turn sends the own id and the share, unless this controller is no longer the
  primary; then the thread returns, without closing its socket. A failed \<open>write\<close> is only logged.
\<close>

datatype conn_end = Running | Returned | Closed

definition ct_write_turn :: "int \<Rightarrow> (nat \<Rightarrow> bool) \<Rightarrow> controller \<Rightarrow> (bool \<times> segs) res" where
  "ct_write_turn counter w s =
     (if ct_id s \<noteq> ct_myId s then Inr (False, [])
      else bindR (get_at (ct_soc s) counter) (\<lambda>sh.
        Inr (True, write_all w 0 [[char_byte (CHR ''s'')], int_bytes (ct_myId s), int_bytes sh])))"

fun ct_write_loop :: "int \<Rightarrow> ((nat \<Rightarrow> bool) \<times> controller) list \<Rightarrow> (conn_end \<times> segs) res" where
  "ct_write_loop counter [] = Inr (Running, [])"
| "ct_write_loop counter ((w, s) # ts) =
     bindR (ct_write_turn counter w s) (\<lambda>(go, out).
       if go then bindR (ct_write_loop counter ts) (\<lambda>(e, outs). Inr (e, out @ outs))
       else Inr (Returned, out))"

definition ct_writeToServer ::
  "netenv \<Rightarrow> int \<Rightarrow> controller \<Rightarrow> ((nat \<Rightarrow> bool) \<times> controller) list \<Rightarrow> (conn_end \<times> segs) res" where
  "ct_writeToServer ne counter s ts =
     (if ne_socket ne < 0 then Inl (Exit 1)
      else bindR (get_at (cf_ip_array (ct_cfg s)) counter) (\<lambda>ip.
        case ip of
          None \<Rightarrow> Inl NullDeref
        | Some a \<Rightarrow>
            if \<not> ne_aton ne a then Inl (Exit 1)
            else if ne_connect ne a then ct_write_loop counter ts
            else Inr (Closed, [])))"

definition ct_queue_sender ::
  "netenv \<Rightarrow> int \<Rightarrow> controller \<Rightarrow> ((nat \<Rightarrow> bool) \<times> controller) list \<Rightarrow> (conn_end \<times> segs) res" where
  "ct_queue_sender ne val s ts = ct_writeToServer ne val s ts"

section \<open>Receiving\<close>

record ct_env =
  ce_now :: int
  ce_net :: netenv
  ce_fopen :: bool

type_synonym ct_out = "string option \<times> segs"
type_synonym ct_step = "(ct_out list \<times> segs \<times> controller) res"

text \<open>The other controller is sent a character and the own id.\<close>

definition tell_other :: "netenv \<Rightarrow> char \<Rightarrow> controller \<Rightarrow> ct_out res" where
  "tell_other ne delim s =
     bindR (get_at (cf_ip_controller (ct_cfg s)) (other_id s)) (\<lambda>ip.
       bindR (sendID ne ip delim s) (\<lambda>out. Inr (ip, out)))"

definition ct_msg_c :: "segs \<Rightarrow> controller \<Rightarrow> ct_step" where
  "ct_msg_c cs s =
     (let (v, r) = read_int cs;
          s = (case v of None \<Rightarrow> s | Some x \<Rightarrow> s\<lparr>ct_capacity := x\<rparr>)
      in Inr ([], r, s\<lparr>ct_capacity := 720\<rparr>))"

definition ct_msg_h :: "segs \<Rightarrow> controller \<Rightarrow> ct_step" where
  "ct_msg_h cs s =
     (let (a, r) = read_int cs; (b, r) = read_int r;
          s = (case a of None \<Rightarrow> s | Some x \<Rightarrow> s\<lparr>ct_hardness := (ct_hardness s)[0 := x]\<rparr>);
          s = (case b of None \<Rightarrow> s | Some x \<Rightarrow> s\<lparr>ct_hardness := (ct_hardness s)[1 := x]\<rparr>)
      in Inr ([], r, s\<lparr>ct_hardness := (ct_hardness s)[0 := 1, 1 := 1]\<rparr>))"

text \<open>
  Message \<open>a\<close>, the heartbeat: a primary that has just taken over answers with its id, a backup
  restarts its clock and, in the middle of an election, gives it up.
\<close>

definition ct_msg_a :: "ct_env \<Rightarrow> segs \<Rightarrow> controller \<Rightarrow> ct_step" where
  "ct_msg_a e cs s =
     (if ct_id s = ct_myId s
      then (if ct_flag s = 1
            then bindR (tell_other (ce_net e) (CHR ''t'') s) (\<lambda>out. Inr ([out], cs, s))
            else Inr ([], cs, s))
      else let s = s\<lparr>ct_startTime := change_time (ct_startTime s) (ce_now e)\<rparr>
           in Inr ([], cs,
                if ct_timeOut s = 1
                then s\<lparr>ct_id := set_value (ct_id s) (other_id s), ct_timeOut := set_value (ct_timeOut s) 2\<rparr>
                else s))"

text \<open>Message \<open>p\<close>, a vote; a sender that already voted is not counted again.\<close>

definition ct_vote :: "int \<Rightarrow> controller \<Rightarrow> controller res" where
  "ct_vote tempId s =
     bindR (get_at (ct_votes s) tempId) (\<lambda>v.
       if v = 0
       then bindR (set_at (ct_votes s) tempId (set_value v 1)) (\<lambda>vs.
              Inr (s\<lparr>ct_votesRecv := change_values (ct_votesRecv s) 1, ct_votes := vs\<rparr>))
       else Inr s)"

definition ct_msg_p :: "segs \<Rightarrow> controller \<Rightarrow> ct_step" where
  "ct_msg_p cs s =
     (let (v, r) = read_int cs
      in if ct_id s = ct_myId s then Inr ([], r, s)
         else case v of None \<Rightarrow> Inl UninitRead
              | Some tempId \<Rightarrow> bindR (ct_vote tempId s) (\<lambda>s. Inr ([], r, s)))"

text \<open>Message \<open>n\<close>, a refused vote, is only logged.\<close>

definition ct_msg_n :: "segs \<Rightarrow> controller \<Rightarrow> ct_step" where
  "ct_msg_n cs s = (let (v, r) = read_int cs in Inr ([], r, s))"

text \<open>Message \<open>t\<close>: the other controller took over; acknowledged with \<open>z\<close>.\<close>

definition ct_msg_t :: "ct_env \<Rightarrow> segs \<Rightarrow> controller \<Rightarrow> ct_step" where
  "ct_msg_t e cs s =
     (let (v, r) = read_int cs
      in case v of None \<Rightarrow> Inl UninitRead
         | Some localId \<Rightarrow>
             let s = ct_writeID (ce_fopen e) (s\<lparr>ct_id := set_value (ct_id s) localId\<rparr>)
             in bindR (tell_other (ce_net e) (CHR ''z'') s) (\<lambda>out. Inr ([out], r, s)))"

text \<open>Messages \<open>y\<close> and \<open>z\<close>: a TokenGen and the other controller acknowledge the change.\<close>

definition ct_msg_y :: "segs \<Rightarrow> controller \<Rightarrow> ct_step" where
  "ct_msg_y cs s =
     (let (v, r) = read_int cs
      in if ct_id s = ct_myId s
         then (case v of None \<Rightarrow> Inl UninitRead
               | Some tempId \<Rightarrow> bindR (set_at (ct_flagTG s) tempId 0)
                                  (\<lambda>f. Inr ([], r, s\<lparr>ct_flagTG := f\<rparr>)))
         else Inr ([], r, s))"

definition ct_msg_z :: "segs \<Rightarrow> controller \<Rightarrow> ct_step" where
  "ct_msg_z cs s =
     (let (v, r) = read_int cs
      in Inr ([], r, if ct_id s = ct_myId s then s\<lparr>ct_flag := set_value (ct_flag s) 0\<rparr> else s))"

text \<open>Message \<open>i\<close>: the rate of a TokenGen, after which the shares are computed anew.\<close>

definition ct_msg_i :: "segs \<Rightarrow> controller \<Rightarrow> ct_step" where
  "ct_msg_i cs s =
     (let (i, r) = read_int cs; (v, r) = read_int r
      in case v of None \<Rightarrow> Inr ([], r, s)
         | Some x \<Rightarrow>
             (case i of None \<Rightarrow> Inl UninitRead
              | Some tempId \<Rightarrow>
                  bindR (set_at (ct_incomingR s) tempId x) (\<lambda>rs.
                    bindR (calcSoc (s\<lparr>ct_incomingR := rs\<rparr>)) (\<lambda>s. Inr ([], r, s)))))"

definition ct_msg :: "ct_env \<Rightarrow> byte \<Rightarrow> segs \<Rightarrow> controller \<Rightarrow> ct_step" where
  "ct_msg e b cs s =
     (if b = char_byte (CHR ''c'') then ct_msg_c cs s
      else if b = char_byte (CHR ''h'') then ct_msg_h cs s
      else if b = char_byte (CHR ''a'') then ct_msg_a e cs s
      else if b = char_byte (CHR ''p'') then ct_msg_p cs s
      else if b = char_byte (CHR ''n'') then ct_msg_n cs s
      else if b = char_byte (CHR ''t'') then ct_msg_t e cs s
      else if b = char_byte (CHR ''y'') then ct_msg_y cs s
      else if b = char_byte (CHR ''z'') then ct_msg_z cs s
      else if b = char_byte (CHR ''i'') then ct_msg_i cs s
      else Inr ([], cs, s))"

lemmas ct_msg_defs = ct_msg_c_def ct_msg_h_def ct_msg_a_def ct_msg_p_def ct_msg_n_def ct_msg_t_def
  ct_msg_y_def ct_msg_z_def ct_msg_i_def

lemma ct_msg_shorter:
  assumes "ct_msg e b cs s = Inr (out, r, s')"
  shows "pending r \<le> pending cs"
proof -
  have two: "read_int cs = (v, r1) \<Longrightarrow> read_int r1 = (w, r2) \<Longrightarrow> pending r2 \<le> pending cs" for v w r1 r2
    using read_int_pending [of cs v r1] read_int_pending [of r1 w r2] by linarith
  show ?thesis
    using assms unfolding ct_msg_def ct_msg_defs
    by (auto simp: Let_def res_simps split: if_splits prod.splits option.splits
        dest: read_int_pending two)
qed

function ct_readFromClient :: "(nat \<Rightarrow> ct_env) \<Rightarrow> nat \<Rightarrow> segs \<Rightarrow> controller \<Rightarrow> (ct_out list \<times> controller) res" where
  "ct_readFromClient env k cs s =
     (case read_sock 1 cs of
        ([], r) \<Rightarrow> Inr ([], s)
      | (b # _, r) \<Rightarrow>
          bindR (ct_msg (env k) b r s) (\<lambda>(out, r, s).
            bindR (ct_readFromClient env (Suc k) r s) (\<lambda>(outs, s). Inr (out @ outs, s))))"
  by pat_completeness auto
termination
proof (relation "measure (\<lambda>(env, k, cs, s). pending cs)", goal_cases)
  case 2
  then show ?case using read_sock_less ct_msg_shorter
    by (fastforce dest!: sym [of _ "read_sock _ _"])
qed simp

declare ct_readFromClient.simps [simp del]

section \<open>The listening socket\<close>

definition ct_accept :: "int \<Rightarrow> 32 word \<Rightarrow> controller \<Rightarrow> (clientDetails \<times> int \<times> controller) res" where
  "ct_accept newsockfd a s =
     (if newsockfd < 0 then Inl (Exit 1)
      else Inr (client_of newsockfd a, ct_connectedClients s,
                s\<lparr>ct_connectedClients := wrap32 (ct_connectedClients s + 1)\<rparr>))"

fun ct_accept_loop :: "(int \<times> 32 word) list \<Rightarrow> controller \<Rightarrow> ((clientDetails \<times> int) list \<times> controller) res" where
  "ct_accept_loop [] s = Inr ([], s)"
| "ct_accept_loop ((fd, a) # cs) s =
     bindR (ct_accept fd a s) (\<lambda>(cd, n, s).
       bindR (ct_accept_loop cs s) (\<lambda>(l, s). Inr ((cd, n) # l, s)))"

definition ct_create_server_socket ::
  "int \<Rightarrow> int \<Rightarrow> int \<Rightarrow> (int \<times> 32 word) list \<Rightarrow> controller \<Rightarrow> ((clientDetails \<times> int) list \<times> controller) res" where
  "ct_create_server_socket fd bound opt conns s =
     (if fd < 0 then Inl (Exit 1) else if bound < 0 then Inl (Exit 1)
      else if opt < 0 then Inl (Exit 2) else ct_accept_loop conns s)"

section \<open>Start-up\<close>

text \<open>C division rounds towards zero.\<close>

definition c_div2 :: "int \<Rightarrow> int" where
  "c_div2 n = (if 0 \<le> n then n div 2 else - ((- n) div 2))"

definition ct_main_init ::
  "(nat \<Rightarrow> nat) \<Rightarrow> string option \<Rightarrow> bool \<Rightarrow> string \<Rightarrow> controller \<Rightarrow> controller res" where
  "ct_main_init usable conf fopen_ok junk s =
     (let s = s\<lparr>ct_flag := 0, ct_timeOut := 0, ct_numbytes := 0, ct_incoming := 0, ct_failing := 0,
                ct_capacity := 720, ct_hardness := [1, 1], ct_sum_incoming_rate := 0,
                ct_connectedClients := 0, ct_current_time := 0,
                ct_incomingRate := replicate PEERS 0, ct_soc := replicate PEERS 1,
                ct_flagTG := replicate PEERS 0, ct_votes := replicate PEERS 0,
                ct_visitor_count := replicate PEERS (replicate LIMIT 0)\<rparr>
      in bindR (ctl_parse_config_file usable conf (ct_cfg s)) (\<lambda>cfg.
           let s = s\<lparr>ct_cfg := cfg, ct_myId := cf_myId cfg\<rparr>;
               s = ct_readID junk (ct_init_logger fopen_ok s)
           in Inr (s\<lparr>ct_majority := wrap32 (c_div2 (ct_n s) + 1)\<rparr>)))"

end
