(* ===== verification/Controller_Thread.thy ===== *)
theory Controller_Thread
  imports Controller
begin

text \<open>
  The thread \<open>controller\<close>: a primary starts the threads that publish shares and then sends
  heartbeats, a backup waits for them and, after four silent seconds, asks the TokenGens for their
  votes, waits three seconds and takes over if a majority voted for it. The thread is a machine
  whose states are the points at which the code sleeps, polls or runs a loop turn; the
  threads that read messages change the shared state between any two of its steps.
\<close>

section \<open>The machine\<close>

datatype ct_pc =
    Top
  | Beat
  | Beating
  | BeatCheck
  | Wait
  | Clear nat
  | Ask nat
  | Elect
  | Announce nat
  | Sweep nat nat

datatype ct_effect =
    Said "string option" segs
  | SpawnSoc
  | SpawnQueueSender nat
  | SpawnXSender "string option"

type_synonym ct_move = "(ct_effect list \<times> ct_pc \<times> controller) res"

text \<open>\<open>controller\<close>: the test at the head of its loop.\<close>

definition th_top :: "ct_env \<Rightarrow> controller \<Rightarrow> ct_move" where
  "th_top e s =
     (if ct_id s = ct_myId s
      then bindR (checkR (ct_n s \<le> int PEERS) OutOfBounds) (\<lambda>_.
             bindR (get_at (cf_ip_controller (ct_cfg s)) (other_id s)) (\<lambda>_.
               Inr (SpawnSoc # map SpawnQueueSender [0..<nat (ct_n s)], Beat, s)))
      else let s = s\<lparr>ct_startTime := change_time (ct_startTime s) (ce_now e)\<rparr>
           in Inr ([], Wait, s\<lparr>ct_startTime := change_time (ct_startTime s) (ce_now e)\<rparr>))"

text \<open>\<open>send_heartbeat\<close> and \<open>sendToBackup\<close>: open the connection, one turn of its loop, the final test.\<close>

definition th_beat :: "ct_env \<Rightarrow> controller \<Rightarrow> ct_move" where
  "th_beat e s =
     (let ne = ce_net e
      in if ne_socket ne < 0 then Inl (Exit 1)
         else bindR (get_at (cf_ip_controller (ct_cfg s)) (other_id s)) (\<lambda>ip.
           case ip of
             None \<Rightarrow> Inl NullDeref
           | Some a \<Rightarrow>
               if \<not> ne_aton ne a then Inl (Exit 1)
               else if ne_connect ne a then Inr ([], Beating, s)
               else Inr ([], BeatCheck, s)))"

definition th_beating :: "ct_env \<Rightarrow> controller \<Rightarrow> ct_move" where
  "th_beating e s =
     (if ct_id s \<noteq> ct_myId s then Inr ([], BeatCheck, s)
      else if ne_write (ce_net e) 0
      then bindR (get_at (cf_ip_controller (ct_cfg s)) (other_id s)) (\<lambda>ip.
             Inr ([Said ip [[char_byte (CHR ''a'')]]], Beating, s))
      else Inr ([], BeatCheck, s))"

definition th_beat_check :: "controller \<Rightarrow> ct_move" where
  "th_beat_check s = (if ct_id s \<noteq> ct_myId s then Inr ([], Top, s) else Inr ([], Beat, s))"

text \<open>\<open>timer_fn\<close>: four seconds without a heartbeat start \<open>timeout\<close>.\<close>

definition th_wait :: "ct_env \<Rightarrow> controller \<Rightarrow> ct_move" where
  "th_wait e s =
     (if ce_now e - ct_startTime s < 4 then Inr ([], Wait, s)
      else Inr ([], Clear 0,
             s\<lparr>ct_timeOut := set_value (ct_timeOut s) 1, ct_id := set_value (ct_id s) (-1),
               ct_votesRecv := set_value (ct_votesRecv s) 0\<rparr>))"

text \<open>\<open>timeout\<close>: clear the votes, start one \<open>x_sender\<close> per TokenGen, wait, decide.\<close>

definition th_clear :: "nat \<Rightarrow> controller \<Rightarrow> ct_move" where
  "th_clear counter s =
     (if int counter < ct_n s
      then bindR (set_at (ct_votes s) (int counter) 0) (\<lambda>v.
             Inr ([], Clear (Suc counter), s\<lparr>ct_votes := v\<rparr>))
      else Inr ([], Ask 0, s))"

definition th_ask :: "ct_env \<Rightarrow> nat \<Rightarrow> controller \<Rightarrow> ct_move" where
  "th_ask e counter s =
     (if int counter < ct_n s
      then bindR (get_at (cf_ip_array (ct_cfg s)) (int counter)) (\<lambda>ip.
             Inr ([SpawnXSender ip], Ask (Suc counter), s))
      else Inr ([], Elect, s\<lparr>ct_startTime := change_time (ct_startTime s) (ce_now e)\<rparr>))"

definition th_elect :: "ct_env \<Rightarrow> controller \<Rightarrow> ct_move" where
  "th_elect e s =
     (if ce_now e - ct_startTime s < 3
      then (if ct_timeOut s = 2
            then Inr ([], Top, s\<lparr>ct_timeOut := set_value (ct_timeOut s) 0\<rparr>)
            else Inr ([], Elect, s))
      else if ct_votesRecv s \<ge> ct_majority s
      then Inr ([], Announce 0, ct_writeID (ce_fopen e) (s\<lparr>ct_id := set_value (ct_id s) (ct_myId s)\<rparr>))
      else Inr ([], Top, s))"

text \<open>
  \<open>switch_controller\<close>: tell every TokenGen and the other controller, then repeat to those TokenGens
  that have not acknowledged until a sweep finds none.
\<close>

definition th_announce :: "ct_env \<Rightarrow> nat \<Rightarrow> controller \<Rightarrow> ct_move" where
  "th_announce e counter s =
     (if int counter < ct_n s
      then bindR (set_at (ct_flagTG s) (int counter) 1) (\<lambda>f.
             bindR (get_at (cf_ip_array (ct_cfg s)) (int counter)) (\<lambda>ip.
               bindR (sendID (ce_net e) ip (CHR ''t'') s) (\<lambda>out.
                 Inr ([Said ip out], Announce (Suc counter), s\<lparr>ct_flagTG := f\<rparr>))))
      else let s = s\<lparr>ct_flag := set_value (ct_flag s) 1\<rparr>
           in bindR (tell_other (ce_net e) (CHR ''t'') s) (\<lambda>(ip, out).
                Inr ([Said ip out], Sweep 0 0, s)))"

definition th_sweep :: "ct_env \<Rightarrow> nat \<Rightarrow> nat \<Rightarrow> controller \<Rightarrow> ct_move" where
  "th_sweep e counter c s =
     (if int counter < ct_n s
      then bindR (get_at (ct_flagTG s) (int counter)) (\<lambda>fl.
             if fl = 1
             then bindR (get_at (cf_ip_array (ct_cfg s)) (int counter)) (\<lambda>ip.
                    bindR (sendID (ce_net e) ip (CHR ''t'') s) (\<lambda>out.
                      Inr ([Said ip out], Sweep (Suc counter) (Suc c), s)))
             else Inr ([], Sweep (Suc counter) c, s))
      else if c = 0 then Inr ([], Top, s)
      else Inr ([], Sweep 0 0, s))"

fun th_step :: "ct_env \<Rightarrow> ct_pc \<Rightarrow> controller \<Rightarrow> ct_move" where
  "th_step e Top s = th_top e s"
| "th_step e Beat s = th_beat e s"
| "th_step e Beating s = th_beating e s"
| "th_step e BeatCheck s = th_beat_check s"
| "th_step e Wait s = th_wait e s"
| "th_step e (Clear k) s = th_clear k s"
| "th_step e (Ask k) s = th_ask e k s"
| "th_step e Elect s = th_elect e s"
| "th_step e (Announce k) s = th_announce e k s"
| "th_step e (Sweep k c) s = th_sweep e k c s"

lemmas th_defs = th_top_def th_beat_def th_beating_def th_beat_check_def th_wait_def th_clear_def
  th_ask_def th_elect_def th_announce_def th_sweep_def

section \<open>Interleaving\<close>

text \<open>
  The events of a running Controller: a step of its thread, one whole message on some connection,
  and the per-second log. A message is given by its first byte and what follows.
\<close>

datatype ct_event =
    Thread ct_env
  | Deliver ct_env byte segs
  | LogSecond int bool
  | Accept int "32 word"
  | Soc

fun ct_event_step :: "ct_event \<Rightarrow> ct_pc \<times> controller \<Rightarrow> (ct_pc \<times> controller) res" where
  "ct_event_step (Thread e) (pc, s) = bindR (th_step e pc s) (\<lambda>(_, pc, s). Inr (pc, s))"
| "ct_event_step (Deliver e b cs) (pc, s) = bindR (ct_msg e b cs s) (\<lambda>(_, _, s). Inr (pc, s))"
| "ct_event_step (LogSecond now ok) (pc, s) = Inr (pc, ct_log_data now ok s)"
| "ct_event_step (Accept fd a) (pc, s) = bindR (ct_accept fd a s) (\<lambda>(_, _, s). Inr (pc, s))"
| "ct_event_step Soc (pc, s) = bindR (calculate_soc s) (\<lambda>s. Inr (pc, s))"

fun ct_run :: "ct_event list \<Rightarrow> ct_pc \<times> controller \<Rightarrow> (ct_pc \<times> controller) res" where
  "ct_run [] c = Inr c"
| "ct_run (ev # evs) c = bindR (ct_event_step ev c) (ct_run evs)"

inductive ct_steps :: "ct_pc \<times> controller \<Rightarrow> ct_pc \<times> controller \<Rightarrow> bool" where
  steps_refl: "ct_steps c c"
| steps_step: "ct_steps c c' \<Longrightarrow> ct_event_step ev c' = Inr c'' \<Longrightarrow> ct_steps c c''"

inductive_cases ct_stepsE: "ct_steps c c'"

lemma ct_run_append: "ct_run (as @ bs) c = bindR (ct_run as c) (ct_run bs)"
  by (induction as arbitrary: c) (auto simp: bindR_def split: sum.splits)

lemma ct_run_steps: "ct_run evs c = Inr c' \<Longrightarrow> ct_steps c c'"
proof (induction evs arbitrary: c' rule: rev_induct)
  case (snoc ev evs)
  then show ?case by (auto simp: ct_run_append res_simps intro: ct_steps.intros)
qed (auto intro: ct_steps.intros)

end
