(* ===== verification/Election.thy ===== *)
theory Election
  imports Controller_Thread
begin

text \<open>
  What the Controller guarantees whatever its peers send and however its threads interleave: the
  shape of its state, the count of votes, the decision by majority, the takeover that ends only when
  every TokenGen has acknowledged. Counting votes is stated as the interface \<open>ballot\<close>, interpreted
  by the handler of message \<open>p\<close>.
\<close>

section \<open>Shape of the state\<close>

definition ct_inv :: "controller \<Rightarrow> bool" where
  "ct_inv s \<longleftrightarrow>
     (ct_myId s = 0 \<or> ct_myId s = 1) \<and> 0 \<le> ct_n s \<and> ct_n s \<le> int PEERS \<and>
     ct_majority s = ct_n s div 2 + 1 \<and>
     length (ct_soc s) = PEERS \<and> length (ct_votes s) = PEERS \<and> length (ct_flagTG s) = PEERS \<and>
     length (ct_incomingRate s) = PEERS \<and> length (ct_incomingR s) = PEERS \<and>
     length (cf_ip_controller (ct_cfg s)) = 2 \<and> length (cf_ip_array (ct_cfg s)) = PEERS"

text \<open>What never changes after the start.\<close>

definition ct_fixed :: "controller \<Rightarrow> int \<times> config \<times> int" where
  "ct_fixed s = (ct_myId s, ct_cfg s, ct_majority s)"

lemma other_id_eq: "ct_inv s \<Longrightarrow> other_id s = 1 - ct_myId s"
  by (auto simp: ct_inv_def other_id_def intro!: wrap32_id simp: int32_def)

lemma other_id_range: "ct_inv s \<Longrightarrow> 0 \<le> other_id s \<and> other_id s < 2"
  by (auto simp: other_id_eq) (auto simp: ct_inv_def)

lemma soc_list_length [simp]: "length (soc_list c rs) = length rs"
  by (simp add: soc_list_def soc_rates_def Let_def)

lemma soc_rates_length [simp]: "length (soc_rates rs) = length rs"
  by (simp add: soc_rates_def)

lemma calcSoc_frame:
  assumes "calcSoc s = Inr s'"
  shows "ct_fixed s' = ct_fixed s \<and> ct_id s' = ct_id s \<and> ct_votes s' = ct_votes s \<and>
    ct_votesRecv s' = ct_votesRecv s \<and> ct_flagTG s' = ct_flagTG s \<and> ct_incomingR s' = ct_incomingR s \<and>
    ct_timeOut s' = ct_timeOut s"
  using assms by (auto simp: calcSoc_def ct_fixed_def res_simps Let_def split: if_splits)

lemma calcSoc_inv: "ct_inv s \<Longrightarrow> calcSoc s = Inr s' \<Longrightarrow> ct_inv s'"
  by (auto simp: calcSoc_def ct_inv_def res_simps Let_def split: if_splits)

lemma calcSoc_ok: "ct_inv s \<Longrightarrow> \<exists>s'. calcSoc s = Inr s'"
  by (auto simp: calcSoc_def ct_inv_def res_simps Let_def)

lemma ct_vote_inv: "ct_inv s \<Longrightarrow> ct_vote i s = Inr s' \<Longrightarrow> ct_inv s'"
  by (auto simp: ct_vote_def ct_inv_def res_simps split: if_splits)

lemma ct_vote_frame: "ct_vote i s = Inr s' \<Longrightarrow> ct_fixed s' = ct_fixed s \<and> ct_id s' = ct_id s \<and>
    ct_flagTG s' = ct_flagTG s \<and> ct_timeOut s' = ct_timeOut s"
  by (auto simp: ct_vote_def ct_fixed_def res_simps split: if_splits)

lemma ct_writeID_simps [simp]:
  "ct_inv (ct_writeID ok s) = ct_inv s" "ct_id (ct_writeID ok s) = ct_id s"
  "ct_votes (ct_writeID ok s) = ct_votes s" "ct_votesRecv (ct_writeID ok s) = ct_votesRecv s"
  "ct_flagTG (ct_writeID ok s) = ct_flagTG s" "ct_fixed (ct_writeID ok s) = ct_fixed s"
  "ct_timeOut (ct_writeID ok s) = ct_timeOut s" "ct_cfg (ct_writeID ok s) = ct_cfg s"
  "ct_myId (ct_writeID ok s) = ct_myId s" "ct_majority (ct_writeID ok s) = ct_majority s"
  "other_id (ct_writeID ok s) = other_id s"
  by (simp_all add: ct_writeID_def ct_inv_def ct_fixed_def other_id_def)

lemma ct_inv_simps [simp]:
  "ct_inv (s\<lparr>ct_id := i\<rparr>) = ct_inv s" "ct_inv (s\<lparr>ct_timeOut := t\<rparr>) = ct_inv s"
  "ct_inv (s\<lparr>ct_flag := t\<rparr>) = ct_inv s" "ct_inv (s\<lparr>ct_votesRecv := t\<rparr>) = ct_inv s"
  "ct_inv (s\<lparr>ct_startTime := t\<rparr>) = ct_inv s" "ct_inv (s\<lparr>ct_capacity := t\<rparr>) = ct_inv s"
  "ct_inv (s\<lparr>ct_hardness := h\<rparr>) = ct_inv s" "ct_inv (s\<lparr>ct_connectedClients := t\<rparr>) = ct_inv s"
  by (simp_all add: ct_inv_def)

lemma ct_log_data_frame [simp]:
  "ct_inv (ct_log_data now ok s) = ct_inv s" "ct_id (ct_log_data now ok s) = ct_id s"
  "ct_votes (ct_log_data now ok s) = ct_votes s" "ct_votesRecv (ct_log_data now ok s) = ct_votesRecv s"
  "ct_flagTG (ct_log_data now ok s) = ct_flagTG s" "ct_fixed (ct_log_data now ok s) = ct_fixed s"
  "ct_timeOut (ct_log_data now ok s) = ct_timeOut s"
  by (cases "ct_log_open s"; cases ok;
      simp add: ct_log_data_def ct_init_logger_def ct_inv_def ct_fixed_def Let_def)+

lemma ct_inv_arrays:
  "ct_inv s \<Longrightarrow> length v = PEERS \<Longrightarrow> ct_inv (s\<lparr>ct_votes := v\<rparr>)"
  "ct_inv s \<Longrightarrow> length v = PEERS \<Longrightarrow> ct_inv (s\<lparr>ct_flagTG := v\<rparr>)"
  "ct_inv s \<Longrightarrow> length v = PEERS \<Longrightarrow> ct_inv (s\<lparr>ct_incomingR := v\<rparr>)"
  by (simp_all add: ct_inv_def)

lemma ct_inv_lengths:
  "ct_inv s \<Longrightarrow> length (ct_votes s) = PEERS" "ct_inv s \<Longrightarrow> length (ct_flagTG s) = PEERS"
  "ct_inv s \<Longrightarrow> length (ct_incomingR s) = PEERS"
  by (simp_all add: ct_inv_def)

lemma ct_msg_i_inv:
  assumes "ct_inv s" "ct_msg_i cs s = Inr (out, r, s')"
  shows "ct_inv s'"
proof -
  from assms(2) consider "s' = s"
    | i x rs where "set_at (ct_incomingR s) i x = Inr rs" "calcSoc (s\<lparr>ct_incomingR := rs\<rparr>) = Inr s'"
    by (auto simp: ct_msg_i_def Let_def res_simps split: prod.splits option.splits)
  then show ?thesis
  proof cases
    case 2
    then have "ct_inv (s\<lparr>ct_incomingR := rs\<rparr>)"
      using assms(1) by (intro ct_inv_arrays) (auto simp: res_simps ct_inv_lengths)
    with 2 calcSoc_inv show ?thesis by blast
  qed (use assms in simp)
qed

text \<open>Every message keeps the shape, whatever its bytes.\<close>

lemma ct_msg_inv:
  assumes "ct_inv s" "ct_msg e b cs s = Inr (out, r, s')"
  shows "ct_inv s'"
proof -
  have "ct_msg_y cs s = Inr (out, r, s') \<Longrightarrow> ct_inv s'"
    using assms(1) by (auto simp: ct_msg_y_def Let_def res_simps ct_inv_lengths intro!: ct_inv_arrays
        split: if_splits prod.splits option.splits)
  moreover have "ct_msg_p cs s = Inr (out, r, s') \<Longrightarrow> ct_inv s'"
    using assms(1) by (auto simp: ct_msg_p_def Let_def res_simps intro: ct_vote_inv
        split: if_splits prod.splits option.splits)
  moreover have "ct_msg_a e cs s = Inr (out, r, s') \<Longrightarrow> ct_inv s'"
    using assms(1) by (auto simp: ct_msg_a_def Let_def res_simps split: if_splits)
  moreover have "ct_msg_t e cs s = Inr (out, r, s') \<Longrightarrow> ct_inv s'"
    using assms(1) by (auto simp: ct_msg_t_def Let_def res_simps split: prod.splits option.splits)
  moreover have "ct_msg_i cs s = Inr (out, r, s') \<Longrightarrow> ct_inv s'"
    using assms(1) by (rule ct_msg_i_inv)
  moreover have "ct_msg_c cs s = Inr (out, r, s') \<Longrightarrow> ct_inv s'" "ct_msg_h cs s = Inr (out, r, s') \<Longrightarrow> ct_inv s'"
    "ct_msg_n cs s = Inr (out, r, s') \<Longrightarrow> ct_inv s'" "ct_msg_z cs s = Inr (out, r, s') \<Longrightarrow> ct_inv s'"
    using assms(1) by (auto simp: ct_msg_c_def ct_msg_h_def ct_msg_n_def ct_msg_z_def Let_def
        split: if_splits prod.splits option.splits)
  ultimately show ?thesis using assms by (auto simp: ct_msg_def split: if_splits)
qed

lemma th_step_inv: "ct_inv s \<Longrightarrow> th_step e pc s = Inr (out, pc', s') \<Longrightarrow> ct_inv s'"
  by (cases pc) (auto simp: th_defs Let_def res_simps ct_inv_lengths intro!: ct_inv_arrays
      split: if_splits option.splits prod.splits)

lemma ct_event_inv:
  assumes "ct_inv s" "ct_event_step ev (pc, s) = Inr (pc', s')"
  shows "ct_inv s'"
proof (cases ev)
  case (Accept fd a)
  with assms show ?thesis by (auto simp: ct_accept_def res_simps split: if_splits)
qed (use assms in \<open>auto simp: res_simps calculate_soc_def intro: th_step_inv ct_msg_inv calcSoc_inv\<close>)

lemma ct_steps_inv:
  assumes "ct_steps c c'" "ct_inv (snd c)"
  shows "ct_inv (snd c')"
  using assms
proof (induction rule: ct_steps.induct)
  case (steps_step c c' ev c'')
  then show ?case using ct_event_inv by (cases c', cases c'') auto
qed

section \<open>Phases of a run\<close>

text \<open>
  A run whose thread stays at the points \<open>P\<close>, and the ids of the peers whose messages with a given
  first character were delivered in it.
\<close>

fun ct_during :: "(ct_pc \<Rightarrow> bool) \<Rightarrow> ct_event list \<Rightarrow> ct_pc \<times> controller \<Rightarrow> (ct_pc \<times> controller) option" where
  "ct_during P [] c = (if P (fst c) then Some c else None)"
| "ct_during P (ev # evs) c =
     (if P (fst c) then (case ct_event_step ev c of Inl _ \<Rightarrow> None | Inr c' \<Rightarrow> ct_during P evs c') else None)"

fun sender_of :: "char \<Rightarrow> ct_event \<Rightarrow> int set" where
  "sender_of ch (Deliver e b cs) =
     (if b = char_byte ch then (case fst (read_int cs) of None \<Rightarrow> {} | Some i \<Rightarrow> {i}) else {})"
| "sender_of ch _ = {}"

definition senders_of :: "char \<Rightarrow> ct_event list \<Rightarrow> int set" where
  "senders_of ch evs = \<Union> (set (map (sender_of ch) evs))"

lemma senders_of_simps [simp]:
  "senders_of ch [] = {}" "senders_of ch (ev # evs) = sender_of ch ev \<union> senders_of ch evs"
  by (simp_all add: senders_of_def)

lemma sender_of_finite [simp]: "finite (sender_of ch ev)"
  by (cases ev) (auto split: option.splits)

text \<open>An invariant indexed by the senders heard so far is carried through a phase.\<close>

lemma ct_during_invariant:
  assumes "I V c" "ct_during P evs c = Some c'"
    and step: "\<And>V c ev c'. I V c \<Longrightarrow> P (fst c) \<Longrightarrow> ct_event_step ev c = Inr c' \<Longrightarrow>
      I (V \<union> sender_of ch ev) c'"
  shows "I (V \<union> senders_of ch evs) c' \<and> P (fst c')"
  using assms(1,2)
proof (induction evs arbitrary: V c)
  case (Cons ev evs)
  then obtain c1 where c1: "P (fst c)" "ct_event_step ev c = Inr c1" "ct_during P evs c1 = Some c'"
    by (auto split: if_splits sum.splits)
  with step Cons.prems c1 have "I (V \<union> sender_of ch ev) c1" by blast
  with Cons.IH [OF this c1(3)] show ?case by (simp add: Un_assoc)
qed (auto split: if_splits)

section \<open>Voting\<close>

definition voting :: "ct_pc \<Rightarrow> bool" where
  "voting pc = (case pc of Ask _ \<Rightarrow> True | Elect \<Rightarrow> True | _ \<Rightarrow> False)"

definition counted :: "int set \<Rightarrow> controller \<Rightarrow> int set" where
  "counted V s = {i \<in> V. 0 \<le> i \<and> i < int PEERS \<and> ct_votes s ! nat i \<noteq> 0}"

definition votes_inv :: "int set \<Rightarrow> ct_pc \<times> controller \<Rightarrow> bool" where
  "votes_inv V c \<longleftrightarrow> ct_inv (snd c) \<and> finite V \<and> 0 \<le> ct_votesRecv (snd c) \<and>
     ct_votesRecv (snd c) \<le> int (card (counted V (snd c)))"

lemma counted_small:
  assumes "finite V"
  shows "card (counted V s) \<le> PEERS"
proof -
  have "counted V s \<subseteq> {0..<int PEERS}" by (auto simp: counted_def)
  then have "card (counted V s) \<le> card {0..<int PEERS}" by (intro card_mono) auto
  then show ?thesis by simp
qed

lemma ct_msg_votes:
  assumes "b \<noteq> char_byte (CHR ''p'')" "ct_msg e b cs s = Inr (out, r, s')"
  shows "ct_votes s' = ct_votes s \<and> ct_votesRecv s' = ct_votesRecv s"
  using assms unfolding ct_msg_def ct_msg_defs
  by (auto simp: Let_def res_simps split: if_splits prod.splits option.splits dest!: calcSoc_frame)

lemma th_step_votes:
  "voting pc \<Longrightarrow> th_step e pc s = Inr (out, pc', s') \<Longrightarrow>
     ct_votes s' = ct_votes s \<and> ct_votesRecv s' = ct_votesRecv s"
  by (cases pc) (auto simp: voting_def th_defs res_simps split: if_splits)

lemma votes_inv_mono:
  assumes "votes_inv V (pc, s)" "ct_inv s'" "ct_votes s' = ct_votes s" "ct_votesRecv s' = ct_votesRecv s" "finite X"
  shows "votes_inv (V \<union> X) (pc', s')"
proof -
  have "card (counted V s) \<le> card (counted (V \<union> X) s')"
    using assms by (intro card_mono) (auto simp: counted_def votes_inv_def)
  with assms show ?thesis by (simp add: votes_inv_def)
qed

lemma ct_vote_votes:
  assumes "votes_inv V (pc, s)" "ct_vote i s = Inr s'"
  shows "votes_inv (insert i V) (pc, s')"
proof -
  have inv: "ct_inv s'" using assms ct_vote_inv by (auto simp: votes_inv_def)
  have l: "length (ct_votes s) = PEERS" using assms by (auto simp: votes_inv_def ct_inv_lengths)
  have i: "0 \<le> i" "i < int PEERS" using assms(2) l by (auto simp: ct_vote_def res_simps)
  show ?thesis
  proof (cases "ct_votes s ! nat i = 0")
    case False
    with assms(2) i l have "s' = s" by (auto simp: ct_vote_def res_simps split: if_splits)
    with votes_inv_mono [OF assms(1) inv, of "{i}" pc] show ?thesis by simp
  next
    case True
    then have s': "ct_votes s' = (ct_votes s)[nat i := 1]"
      "ct_votesRecv s' = wrap32 (ct_votesRecv s + 1)"
      using assms(2) by (auto simp: ct_vote_def res_simps set_value_def change_values_def)
    have nth: "ct_votes s' ! nat j = (if j = i then 1 else ct_votes s ! nat j)" if "0 \<le> j" for j
      using that i l s'(1) by (auto simp: nth_list_update nat_eq_iff2)
    have fin: "finite (counted V s)" using assms(1) by (auto simp: votes_inv_def counted_def)
    have c: "counted (insert i V) s' = insert i (counted V s)"
      using i by (auto simp: counted_def nth split: if_splits)
    have new: "i \<notin> counted V s" using True by (simp add: counted_def)
    have "card (counted V s) \<le> PEERS" using assms(1) by (intro counted_small) (simp add: votes_inv_def)
    then have "wrap32 (ct_votesRecv s + 1) = ct_votesRecv s + 1"
      using assms(1) by (intro wrap32_id) (auto simp: votes_inv_def int32_def PEERS_def)
    then show ?thesis using assms(1) inv c fin new s'(2) by (simp add: votes_inv_def)
  qed
qed

lemma votes_inv_step:
  assumes "votes_inv V c" "voting (fst c)" "ct_event_step ev c = Inr c'"
  shows "votes_inv (V \<union> sender_of (CHR ''p'') ev) c'"
proof -
  obtain pc s pc' s' where c: "c = (pc, s)" "c' = (pc', s')" by (cases c, cases c')
  have inv: "ct_inv s'" using assms ct_event_inv c by (auto simp: votes_inv_def)
  note mono = votes_inv_mono [OF assms(1) [unfolded c] inv]
  have frame: "sender_of (CHR ''p'') ev = {} \<Longrightarrow> ct_votes s' = ct_votes s \<Longrightarrow>
      ct_votesRecv s' = ct_votesRecv s \<Longrightarrow> ?thesis" using mono [of "{}" pc'] c by simp
  show ?thesis
  proof (cases ev)
    case (Thread e)
    then show ?thesis using assms c th_step_votes by (intro frame) (auto simp: res_simps)
  next
    case (Deliver e b cs)
    then obtain out r where m: "ct_msg e b cs s = Inr (out, r, s')" and pc: "pc' = pc"
      using assms(3) c by (auto simp: res_simps)
    show ?thesis
    proof (cases "b = char_byte (CHR ''p'')")
      case False
      then have "ct_votes s' = ct_votes s" "ct_votesRecv s' = ct_votesRecv s"
        using ct_msg_votes [OF _ m] by simp_all
      then show ?thesis using Deliver False by (intro frame) auto
    next
      case True
      with m have "ct_msg_p cs s = Inr (out, r, s')" by (simp add: ct_msg_def)
      then consider "s' = s" | i where "fst (read_int cs) = Some i" "ct_vote i s = Inr s'"
        by (auto simp: ct_msg_p_def Let_def res_simps split: if_splits prod.splits option.splits)
      then show ?thesis
      proof cases
        case 1
        then show ?thesis using mono c pc by simp
      next
        case 2
        then show ?thesis using ct_vote_votes [of V pc s i s'] assms(1) c pc True Deliver by simp
      qed
    qed
  next
    case (LogSecond now ok)
    then show ?thesis using assms(3) c by (intro frame) auto
  next
    case (Accept fd a)
    then show ?thesis using assms(3) c
      by (intro frame) (auto simp: ct_accept_def res_simps split: if_splits)
  next
    case Soc
    then show ?thesis using assms(3) c
      by (intro frame) (auto simp: calculate_soc_def res_simps dest: calcSoc_frame)
  qed
qed

text \<open>The count never exceeds the number of distinct peers whose vote arrived in this round.\<close>

lemma votes_counted:
  assumes "ct_inv s" "ct_votesRecv s = 0" "ct_during voting evs (Ask 0, s) = Some (pc, s')"
  shows "ct_votesRecv s' \<le> int (card (senders_of (CHR ''p'') evs \<inter> {0..<int PEERS}))"
proof -
  let ?V = "senders_of (CHR ''p'') evs"
  have "votes_inv {} (Ask 0, s)" using assms by (simp add: votes_inv_def)
  then have "votes_inv ({} \<union> ?V) (pc, s') \<and> voting (fst (pc, s'))"
    using assms(3) by (rule ct_during_invariant) (rule votes_inv_step)
  then have v: "votes_inv ?V (pc, s')" by simp
  have "card (counted ?V s') \<le> card (?V \<inter> {0..<int PEERS})"
    by (rule card_mono) (auto simp: counted_def)
  with v show ?thesis by (simp add: votes_inv_def)
qed

section \<open>Taking over\<close>

definition taking_over :: "ct_pc \<Rightarrow> bool" where
  "taking_over pc = (case pc of Announce _ \<Rightarrow> True | Sweep _ _ \<Rightarrow> True | _ \<Rightarrow> False)"

text \<open>
  A TokenGen that was told and has not acknowledged keeps its flag; a sweep that has found no flag so
  far has passed only cleared ones.
\<close>

definition told :: "ct_pc \<Rightarrow> controller \<Rightarrow> nat" where
  "told pc s = (case pc of Announce k \<Rightarrow> min k (nat (ct_n s)) | _ \<Rightarrow> nat (ct_n s))"

definition passed :: "ct_pc \<Rightarrow> nat" where
  "passed pc = (case pc of Sweep k c \<Rightarrow> (if c = 0 then k else 0) | _ \<Rightarrow> 0)"

definition takeover_inv :: "int set \<Rightarrow> ct_pc \<times> controller \<Rightarrow> bool" where
  "takeover_inv A c \<longleftrightarrow> ct_inv (snd c) \<and>
     (\<forall>j < told (fst c) (snd c). ct_flagTG (snd c) ! j = 1 \<or> int j \<in> A) \<and>
     (\<forall>j < passed (fst c). int j < ct_n (snd c) \<longrightarrow> ct_flagTG (snd c) ! j \<noteq> 1)"

lemma ct_msg_flags:
  assumes "b \<noteq> char_byte (CHR ''y'')" "ct_msg e b cs s = Inr (out, r, s')"
  shows "ct_flagTG s' = ct_flagTG s \<and> ct_fixed s' = ct_fixed s"
  using assms unfolding ct_msg_def ct_msg_defs
  by (auto simp: Let_def res_simps ct_fixed_def split: if_splits prod.splits option.splits
      dest!: calcSoc_frame ct_vote_frame)

lemma ct_fixed_n: "ct_fixed s' = ct_fixed s \<Longrightarrow> ct_n s' = ct_n s"
  by (simp add: ct_fixed_def)

lemma takeover_inv_frame:
  assumes "takeover_inv A (pc, s)" "ct_inv s'" "ct_flagTG s' = ct_flagTG s" "ct_fixed s' = ct_fixed s"
  shows "takeover_inv (A \<union> X) (pc, s')"
  using assms ct_fixed_n [OF assms(4)] by (auto simp: takeover_inv_def told_def split: ct_pc.splits)

lemma takeover_inv_ack:
  assumes "takeover_inv A (pc, s)" "set_at (ct_flagTG s) i 0 = Inr f"
  shows "takeover_inv (insert i A) (pc, s\<lparr>ct_flagTG := f\<rparr>)"
proof -
  have f: "f = (ct_flagTG s)[nat i := 0]" "0 \<le> i" "length f = PEERS"
    using assms by (auto simp: res_simps takeover_inv_def ct_inv_lengths)
  have nth: "f ! j = ct_flagTG s ! j \<or> f ! j = 0 \<and> int j = i" for j
    using f(1,2) by (cases "j = nat i \<and> j < length (ct_flagTG s)") (auto simp: nth_list_update list_update_beyond)
  have "ct_inv (s\<lparr>ct_flagTG := f\<rparr>)" using assms(1) f(3) by (auto simp: takeover_inv_def intro: ct_inv_arrays)
  moreover have "told pc (s\<lparr>ct_flagTG := f\<rparr>) = told pc s" by (simp add: told_def split: ct_pc.splits)
  moreover have "f ! j = 1 \<or> int j \<in> insert i A" if "j < told pc s" for j
    using that nth [of j] assms(1) by (auto simp: takeover_inv_def)
  moreover have "f ! j \<noteq> 1" if "j < passed pc" "int j < ct_n s" for j
    using that nth [of j] assms(1) by (auto simp: takeover_inv_def)
  ultimately show ?thesis by (simp add: takeover_inv_def)
qed

lemma announce_inv:
  assumes "takeover_inv A (Announce k, s)" "th_step e (Announce k) s = Inr (out, pc', s')"
  shows "takeover_inv A (pc', s')"
proof (cases "int k < ct_n s")
  case True
  then have s': "pc' = Announce (Suc k)" "s' = s\<lparr>ct_flagTG := (ct_flagTG s)[k := 1]\<rparr>" "k < length (ct_flagTG s)"
    using assms(2) by (auto simp: th_announce_def res_simps)
  have "ct_inv s'" using assms(1) s' by (auto simp: takeover_inv_def ct_inv_lengths intro!: ct_inv_arrays)
  moreover have "(ct_flagTG s)[k := 1] ! j = 1 \<or> int j \<in> A" if "j < told (Announce (Suc k)) s" for j
    using that s'(3) assms(1) True
    by (cases "j = k") (auto simp: takeover_inv_def told_def nth_list_update)
  ultimately show ?thesis using s' by (simp add: takeover_inv_def told_def passed_def)
next
  case False
  then have s': "pc' = Sweep 0 0" "s' = s\<lparr>ct_flag := 1\<rparr>"
    using assms(2) by (auto simp: th_announce_def res_simps Let_def set_value_def split: prod.splits)
  from False have "told (Announce k) s = nat (ct_n s)" by (simp add: told_def)
  with assms(1) s' show ?thesis by (simp add: takeover_inv_def told_def passed_def)
qed

lemma sweep_inv:
  assumes "takeover_inv A (Sweep k c, s)" "th_step e (Sweep k c) s = Inr (out, pc', s')"
  shows "takeover_inv A (pc', s') \<and> (pc' = Top \<longrightarrow> {0..<ct_n s} \<subseteq> A)"
proof -
  have s': "s' = s" using assms(2) by (auto simp: th_sweep_def res_simps split: if_splits)
  consider "int k < ct_n s" "ct_flagTG s ! k = 1" "pc' = Sweep (Suc k) (Suc c)"
    | "int k < ct_n s" "ct_flagTG s ! k \<noteq> 1" "pc' = Sweep (Suc k) c"
    | "\<not> int k < ct_n s" "c = 0" "pc' = Top" | "\<not> int k < ct_n s" "pc' = Sweep 0 0"
    using assms(2) by (auto simp: th_sweep_def res_simps split: if_splits)
  then show ?thesis
  proof cases
    case 3
    have flags: "\<forall>j < nat (ct_n s). ct_flagTG s ! j = 1 \<or> int j \<in> A"
      "\<forall>j < k. int j < ct_n s \<longrightarrow> ct_flagTG s ! j \<noteq> 1"
      using assms(1) 3(2) by (simp_all add: takeover_inv_def told_def passed_def)
    have "i \<in> A" if "0 \<le> i" "i < ct_n s" for i
    proof -
      have "nat i < k" "nat i < nat (ct_n s)" "int (nat i) = i" using 3(1) that by linarith+
      with flags that show ?thesis by metis
    qed
    then have "{0..<ct_n s} \<subseteq> A" by fastforce
    with 3 assms(1) s' show ?thesis by (auto simp: takeover_inv_def told_def passed_def)
  qed (use assms(1) s' in \<open>auto simp: takeover_inv_def told_def passed_def less_Suc_eq split: if_splits\<close>)
qed

lemma ct_msg_y_cases:
  assumes "ct_msg_y cs s = Inr (out, r, s')"
  shows "s' = s \<or> (\<exists>i f. fst (read_int cs) = Some i \<and> set_at (ct_flagTG s) i 0 = Inr f \<and>
    s' = s\<lparr>ct_flagTG := f\<rparr>)"
proof (cases "fst (read_int cs)")
  case None
  with assms show ?thesis by (simp add: ct_msg_y_def split: prod.splits if_splits)
next
  case (Some i)
  then show ?thesis using assms
    by (cases "set_at (ct_flagTG s) i 0") (auto simp: ct_msg_y_def split: prod.splits if_splits)
qed

lemma takeover_inv_step:
  assumes "takeover_inv A c" "taking_over (fst c)" "ct_event_step ev c = Inr c'"
  shows "takeover_inv (A \<union> sender_of (CHR ''y'') ev) c'"
proof -
  obtain pc s pc' s' where c: "c = (pc, s)" "c' = (pc', s')" by (cases c, cases c')
  have inv: "ct_inv s'" using assms ct_event_inv c by (auto simp: takeover_inv_def)
  note frame = takeover_inv_frame [OF assms(1) [unfolded c] inv]
  show ?thesis
  proof (cases ev)
    case (Thread e)
    then obtain out where "th_step e pc s = Inr (out, pc', s')" using assms(3) c by (auto simp: res_simps)
    moreover have "(\<exists>k. pc = Announce k) \<or> (\<exists>k n. pc = Sweep k n)"
      using assms(2) c by (cases pc) (auto simp: taking_over_def)
    ultimately have "takeover_inv A (pc', s')"
      using assms(1) c announce_inv sweep_inv by blast
    with c Thread show ?thesis by simp
  next
    case (Deliver e b cs)
    then obtain out r where m: "ct_msg e b cs s = Inr (out, r, s')" and pc: "pc' = pc"
      using assms(3) c by (auto simp: res_simps)
    show ?thesis
    proof (cases "b = char_byte (CHR ''y'')")
      case False
      then show ?thesis using ct_msg_flags [OF False m] frame c pc by simp
    next
      case True
      with m have "ct_msg_y cs s = Inr (out, r, s')" by (simp add: ct_msg_def)
      from ct_msg_y_cases [OF this] show ?thesis
      proof (elim disjE exE conjE)
        assume "s' = s"
        then show ?thesis using frame c pc by simp
      next
        fix i f
        assume "fst (read_int cs) = Some i" "set_at (ct_flagTG s) i 0 = Inr f" "s' = s\<lparr>ct_flagTG := f\<rparr>"
        then show ?thesis using takeover_inv_ack [OF assms(1) [unfolded c], of i f] c pc True Deliver by simp
      qed
    qed
  next
    case (LogSecond now ok)
    then show ?thesis using assms(3) c frame [where X = "{}"] by auto
  next
    case (Accept fd a)
    then show ?thesis using assms(3) c frame [where X = "{}"]
      by (auto simp: ct_accept_def ct_fixed_def res_simps split: if_splits)
  next
    case Soc
    then have "calcSoc s = Inr s'" "pc' = pc" using assms(3) c by (auto simp: calculate_soc_def res_simps)
    then show ?thesis using frame [where X = "{}"] c Soc calcSoc_frame by auto
  qed
qed

lemma takeover_heard:
  assumes "ct_inv s" "ct_during taking_over evs (Announce 0, s) = Some c"
  shows "takeover_inv (senders_of (CHR ''y'') evs) c"
proof -
  have "takeover_inv {} (Announce 0, s)" using assms(1) by (simp add: takeover_inv_def told_def passed_def)
  then have "takeover_inv ({} \<union> senders_of (CHR ''y'') evs) c \<and> taking_over (fst c)"
    using assms(2) by (rule ct_during_invariant) (rule takeover_inv_step)
  then show ?thesis by simp
qed

end
