(* ===== verification/Takeover.thy ===== *)
theory Takeover
  imports Election
begin

text \<open>
  The election and the takeover succeed: counting votes as an interface (\<open>ballot\<close>), the thread of a
  backup from the silence of the primary to its own announcement, and the messages of well-behaved
  peers, none of which makes the Controller fault.
\<close>

section \<open>Counting votes\<close>

text \<open>
  A ballot box: \<open>reset\<close> empties it, \<open>vote i\<close> counts peer \<open>i\<close> once. The count is that of the distinct
  peers that voted since.
\<close>

locale ballot =
  fixes ok :: "'s \<Rightarrow> bool" and peers :: "'s \<Rightarrow> nat" and cast :: "'s \<Rightarrow> nat set" and tally :: "'s \<Rightarrow> int"
    and vote :: "nat \<Rightarrow> 's \<Rightarrow> 's" and reset :: "'s \<Rightarrow> 's" and fit :: "'s \<Rightarrow> bool"
  assumes reset_ok: "fit s \<Longrightarrow> ok (reset s)" and reset_cast: "fit s \<Longrightarrow> cast (reset s) = {}"
    and reset_tally: "fit s \<Longrightarrow> tally (reset s) = 0" and reset_peers: "fit s \<Longrightarrow> peers (reset s) = peers s"
    and vote_ok: "ok s \<Longrightarrow> i < peers s \<Longrightarrow> ok (vote i s)"
    and vote_peers: "ok s \<Longrightarrow> i < peers s \<Longrightarrow> peers (vote i s) = peers s"
    and vote_cast: "ok s \<Longrightarrow> i < peers s \<Longrightarrow> cast (vote i s) = insert i (cast s)"
    and vote_tally: "ok s \<Longrightarrow> i < peers s \<Longrightarrow> tally (vote i s) = tally s + (if i \<in> cast s then 0 else 1)"
begin

lemma votes_fold:
  assumes "ok s" "finite (cast s)" "tally s = int (card (cast s))" "\<forall>i \<in> set is. i < peers s"
  shows "ok (fold vote is s) \<and> peers (fold vote is s) = peers s \<and> cast (fold vote is s) = cast s \<union> set is \<and>
    tally (fold vote is s) = int (card (cast s \<union> set is))"
  using assms
proof (induction "is" arbitrary: s)
  case (Cons i "is")
  let ?s = "vote i s"
  have i: "i < peers s" using Cons.prems by simp
  have "ok ?s" "finite (cast ?s)" "tally ?s = int (card (cast ?s))" "\<forall>i \<in> set is. i < peers ?s"
    using Cons.prems i by (auto simp: vote_ok vote_cast vote_peers vote_tally card_insert_if)
  from Cons.IH [OF this] show ?case using Cons.prems i by (simp add: vote_cast vote_peers)
qed simp

lemma polled:
  assumes "fit s" "\<forall>i \<in> set is. i < peers s"
  shows "tally (fold vote is (reset s)) = int (card (set is))"
    and "ok (fold vote is (reset s))"
  using votes_fold [of "reset s" "is"] assms by (simp_all add: reset_ok reset_cast reset_tally reset_peers)

end

text \<open>The Controller's ballot box: \<open>votes\<close> and \<open>votesRecv\<close>, filled by message \<open>p\<close> while it has no id.\<close>

definition ct_peers :: "controller \<Rightarrow> nat" where
  "ct_peers s = nat (ct_n s)"

definition ct_cast :: "controller \<Rightarrow> nat set" where
  "ct_cast s = {i. i < ct_peers s \<and> ct_votes s ! i \<noteq> 0}"

definition ct_poll_ok :: "controller \<Rightarrow> bool" where
  "ct_poll_ok s \<longleftrightarrow> ct_inv s \<and> ct_id s \<noteq> ct_myId s \<and> ct_votesRecv s = int (card (ct_cast s))"

definition p_msg :: "nat \<Rightarrow> segs" where
  "p_msg i = [int_bytes (int i)]"

definition ct_hear :: "ct_step \<Rightarrow> controller \<Rightarrow> controller" where
  "ct_hear m s = (case m of Inl _ \<Rightarrow> s | Inr (_, _, s') \<Rightarrow> s')"

definition ct_hear_p :: "nat \<Rightarrow> controller \<Rightarrow> controller" where
  "ct_hear_p i s = ct_hear (ct_msg_p (p_msg i) s) s"

text \<open>What \<open>timeout\<close> does before it waits for votes.\<close>

definition ct_new_round :: "controller \<Rightarrow> controller" where
  "ct_new_round s = s\<lparr>ct_timeOut := 1, ct_id := -1, ct_votesRecv := 0,
     ct_votes := replicate (ct_peers s) 0 @ drop (ct_peers s) (ct_votes s)\<rparr>"

lemma ct_inv_peers: "ct_inv s \<Longrightarrow> ct_peers s \<le> PEERS"
  by (auto simp: ct_inv_def ct_peers_def)

lemma small_int32: "i < PEERS \<Longrightarrow> int32 (int i)"
  by (simp add: int32_def PEERS_def)

lemma ct_cast_card: "ct_inv s \<Longrightarrow> card (ct_cast s) \<le> PEERS"
proof -
  assume "ct_inv s"
  then have "ct_cast s \<subseteq> {..<PEERS}" using ct_inv_peers [of s] by (auto simp: ct_cast_def)
  then have "card (ct_cast s) \<le> card {..<PEERS}" by (intro card_mono) auto
  then show ?thesis by simp
qed

lemma ct_hear_p_eq:
  assumes "ct_poll_ok s" "i < ct_peers s"
  shows "ct_msg_p (p_msg i) s = Inr ([], [], ct_hear_p i s)"
    and "ct_hear_p i s = (if i \<in> ct_cast s then s
       else s\<lparr>ct_votesRecv := ct_votesRecv s + 1, ct_votes := (ct_votes s)[i := 1]\<rparr>)"
proof -
  have inv: "ct_inv s" and id: "ct_id s \<noteq> ct_myId s" and cnt: "ct_votesRecv s = int (card (ct_cast s))"
    using assms(1) by (auto simp: ct_poll_ok_def)
  have i: "i < PEERS" "i < length (ct_votes s)" using assms(2) ct_inv_peers [OF inv] ct_inv_lengths [OF inv] by auto
  have w: "wrap32 (ct_votesRecv s + 1) = ct_votesRecv s + 1"
    using ct_cast_card [OF inv] cnt by (intro wrap32_id) (simp add: int32_def PEERS_def)
  have v: "ct_vote (int i) s = Inr (if i \<in> ct_cast s then s
       else s\<lparr>ct_votesRecv := ct_votesRecv s + 1, ct_votes := (ct_votes s)[i := 1]\<rparr>)"
    using i assms(2) w by (simp add: ct_vote_def get_at_def set_at_def ct_cast_def change_values_def set_value_def)
  then have m: "ct_msg_p (p_msg i) s = Inr ([], [], if i \<in> ct_cast s then s
       else s\<lparr>ct_votesRecv := ct_votesRecv s + 1, ct_votes := (ct_votes s)[i := 1]\<rparr>)"
    using id small_int32 [OF i(1)] by (simp add: ct_msg_p_def p_msg_def)
  then show "ct_hear_p i s = (if i \<in> ct_cast s then s
       else s\<lparr>ct_votesRecv := ct_votesRecv s + 1, ct_votes := (ct_votes s)[i := 1]\<rparr>)"
    by (simp add: ct_hear_p_def ct_hear_def)
  with m show "ct_msg_p (p_msg i) s = Inr ([], [], ct_hear_p i s)" by (simp only:)
qed

lemma ct_hear_p_cast:
  assumes "ct_poll_ok s" "i < ct_peers s"
  shows "ct_cast (ct_hear_p i s) = insert i (ct_cast s)" "ct_peers (ct_hear_p i s) = ct_peers s"
proof -
  have "length (ct_votes s) = PEERS" "ct_peers s \<le> PEERS"
    using assms(1) ct_inv_lengths ct_inv_peers by (auto simp: ct_poll_ok_def)
  then show "ct_cast (ct_hear_p i s) = insert i (ct_cast s)"
    using assms(2) ct_hear_p_eq(2) [OF assms]
    by (auto simp: ct_cast_def ct_peers_def nth_list_update split: if_splits)
  show "ct_peers (ct_hear_p i s) = ct_peers s" using ct_hear_p_eq(2) [OF assms] by (simp add: ct_peers_def)
qed

lemma ct_hear_p_ok:
  assumes "ct_poll_ok s" "i < ct_peers s"
  shows "ct_poll_ok (ct_hear_p i s)"
proof (cases "i \<in> ct_cast s")
  case True
  with assms ct_hear_p_eq(2) [OF assms] show ?thesis by simp
next
  case False
  have "finite (ct_cast s)" by (simp add: ct_cast_def)
  with False have "ct_votesRecv (ct_hear_p i s) = int (card (ct_cast (ct_hear_p i s)))"
    using assms ct_hear_p_eq(2) [OF assms] ct_hear_p_cast [OF assms] by (simp add: ct_poll_ok_def)
  moreover have "ct_inv (ct_hear_p i s)" "ct_id (ct_hear_p i s) = ct_id s" "ct_myId (ct_hear_p i s) = ct_myId s"
    using False assms(1) ct_hear_p_eq(2) [OF assms] by (simp_all add: ct_poll_ok_def ct_inv_def)
  ultimately show ?thesis using assms(1) by (simp add: ct_poll_ok_def)
qed

lemma ct_new_round_facts:
  assumes "ct_inv s"
  shows "ct_poll_ok (ct_new_round s)" "ct_cast (ct_new_round s) = {}"
    "ct_peers (ct_new_round s) = ct_peers s"
proof -
  have l: "length (ct_votes s) = PEERS" "ct_peers s \<le> PEERS" using assms ct_inv_lengths ct_inv_peers by auto
  have "ct_inv (ct_new_round s)" using assms l by (simp add: ct_new_round_def ct_inv_def)
  moreover show p: "ct_peers (ct_new_round s) = ct_peers s" by (simp add: ct_new_round_def ct_peers_def)
  moreover show c: "ct_cast (ct_new_round s) = {}"
    unfolding ct_cast_def p by (auto simp: ct_new_round_def nth_append)
  ultimately show "ct_poll_ok (ct_new_round s)"
    using assms unfolding ct_poll_ok_def c by (auto simp: ct_new_round_def ct_inv_def)
qed

interpretation box: ballot ct_poll_ok ct_peers ct_cast ct_votesRecv ct_hear_p ct_new_round ct_inv
proof (unfold_locales, goal_cases)
  case (3 s)
  then show ?case by (simp add: ct_new_round_def)
next
  case (8 s i)
  then show ?case using ct_hear_p_eq [OF 8] by simp
qed (simp_all add: ct_new_round_facts ct_hear_p_cast ct_hear_p_ok)

section \<open>From silence to announcement\<close>

lemma ct_run_clear:
  assumes "ct_inv s" "k \<le> ct_peers s"
  shows "ct_run (replicate (Suc (ct_peers s - k)) (Thread e)) (Clear k, s) =
    Inr (Ask 0, s\<lparr>ct_votes := take k (ct_votes s) @ replicate (ct_peers s - k) 0 @ drop (ct_peers s) (ct_votes s)\<rparr>)"
  using assms
proof (induction "ct_peers s - k" arbitrary: k s)
  case 0
  then have "ct_peers s = k" by simp
  moreover from this have "\<not> int k < ct_n s" by (auto simp: ct_peers_def)
  ultimately show ?case by (simp add: th_clear_def)
next
  case (Suc d)
  let ?s = "s\<lparr>ct_votes := (ct_votes s)[k := 0]\<rparr>"
  have k: "k < ct_peers s" using Suc.hyps(2) by simp
  have l: "k < length (ct_votes s)" "ct_peers s \<le> length (ct_votes s)"
    using k Suc.prems(1) ct_inv_peers ct_inv_lengths by fastforce+
  have lt: "int k < ct_n s" using k by (simp add: ct_peers_def)
  have inv: "ct_inv ?s" using Suc.prems(1) ct_inv_lengths by (intro ct_inv_arrays) auto
  have p: "ct_peers ?s = ct_peers s" by (simp add: ct_peers_def)
  have ih: "ct_run (replicate (Suc (ct_peers ?s - Suc k)) (Thread e)) (Clear (Suc k), ?s) =
      Inr (Ask 0, ?s\<lparr>ct_votes := take (Suc k) (ct_votes ?s) @ replicate (ct_peers ?s - Suc k) 0 @
        drop (ct_peers ?s) (ct_votes ?s)\<rparr>)"
    using Suc.hyps(2) k by (intro Suc.hyps(1) inv) (auto simp: p)
  have first: "ct_event_step (Thread e) (Clear k, s) = Inr (Clear (Suc k), ?s)"
    using l lt by (simp add: th_clear_def set_at_def)
  have t: "take (Suc k) ((ct_votes s)[k := 0]) @ replicate (ct_peers s - Suc k) 0 =
      take k (ct_votes s) @ replicate (ct_peers s - k) 0"
    using l k by (simp add: take_Suc_conv_app_nth replicate_append_same [symmetric] Suc_diff_Suc [symmetric])
  have "replicate (Suc (ct_peers s - k)) (Thread e) = Thread e # replicate (Suc (ct_peers s - Suc k)) (Thread e)"
    using k by (simp add: Suc_diff_Suc)
  then show ?case using ih first t k l by (simp add: p append_assoc [symmetric] del: append_assoc th_step.simps ct_event_step.simps)
qed

lemma ct_run_ask:
  assumes "ct_inv s" "k \<le> ct_peers s"
  shows "ct_run (replicate (Suc (ct_peers s - k)) (Thread e)) (Ask k, s) =
    Inr (Elect, s\<lparr>ct_startTime := ce_now e\<rparr>)"
  using assms(2)
proof (induction "ct_peers s - k" arbitrary: k)
  case 0
  then have "\<not> int k < ct_n s" "ct_peers s = k" by (auto simp: ct_peers_def)
  then show ?case by (simp add: th_ask_def change_time_def)
next
  case (Suc d)
  have k: "k < ct_peers s" "d = ct_peers s - Suc k" using Suc.hyps(2) by simp_all
  have "k < PEERS" using k ct_inv_peers [OF assms(1)] by simp
  then have "ct_event_step (Thread e) (Ask k, s) = Inr (Ask (Suc k), s)"
    using k assms(1) by (simp add: th_ask_def get_at_def ct_peers_def ct_inv_def)
  moreover have "replicate (Suc (ct_peers s - k)) (Thread e) = Thread e # replicate (Suc (ct_peers s - Suc k)) (Thread e)"
    using k by (simp add: Suc_diff_Suc)
  ultimately show ?case using Suc.hyps(1) [OF k(2)] k by simp
qed

text \<open>Four silent seconds bring a backup to the point where it waits for votes.\<close>

definition timeout_steps :: "ct_env \<Rightarrow> controller \<Rightarrow> ct_event list" where
  "timeout_steps e s = Thread e # replicate (Suc (ct_peers s)) (Thread e) @ replicate (Suc (ct_peers s)) (Thread e)"

lemma ct_run_timeout:
  assumes "ct_inv s" "4 \<le> ce_now e - ct_startTime s"
  shows "ct_run (timeout_steps e s) (Wait, s) = Inr (Elect, (ct_new_round s)\<lparr>ct_startTime := ce_now e\<rparr>)"
proof -
  let ?s = "s\<lparr>ct_timeOut := 1, ct_id := -1, ct_votesRecv := 0\<rparr>" and ?n = "Suc (ct_peers s)"
  have p: "ct_peers ?s = ct_peers s" "ct_peers (ct_new_round s) = ct_peers s"
    by (simp_all add: ct_peers_def ct_new_round_def)
  have w: "ct_event_step (Thread e) (Wait, s) = Inr (Clear 0, ?s)"
    using assms(2) by (simp add: th_wait_def set_value_def)
  have c: "ct_run (replicate ?n (Thread e)) (Clear 0, ?s) = Inr (Ask 0, ct_new_round s)"
    using ct_run_clear [of ?s 0 e] assms(1) p by (simp add: ct_new_round_def del: ct_run.simps)
  have a: "ct_run (replicate ?n (Thread e)) (Ask 0, ct_new_round s) =
      Inr (Elect, (ct_new_round s)\<lparr>ct_startTime := ce_now e\<rparr>)"
    using ct_run_ask [of "ct_new_round s" 0 e] box.reset_ok [OF assms(1)] p
    by (simp add: ct_poll_ok_def del: ct_run.simps)
  show ?thesis using w c a
    by (simp only: timeout_steps_def ct_run.simps(2) ct_run_append bindR_Inr)
qed

lemma ct_run_polls:
  assumes "ct_poll_ok s" "\<forall>i \<in> set is. i < ct_peers s"
  shows "ct_run (map (\<lambda>i. Deliver e (char_byte (CHR ''p'')) (p_msg i)) is) (pc, s) = Inr (pc, fold ct_hear_p is s)"
  using assms
proof (induction "is" arbitrary: s)
  case (Cons i "is")
  have i: "i < ct_peers s" using Cons.prems by simp
  have "ct_msg e (char_byte (CHR ''p'')) (p_msg i) s = Inr ([], [], ct_hear_p i s)"
    using ct_hear_p_eq(1) [OF Cons.prems(1) i] by (simp add: ct_msg_def)
  with Cons.IH [OF ct_hear_p_ok [OF Cons.prems(1) i]] Cons.prems ct_hear_p_cast [OF Cons.prems(1) i]
  show ?case by simp
qed simp

lemma ct_hear_p_frame:
  assumes "ct_poll_ok s" "i < ct_peers s"
  shows "ct_fixed (ct_hear_p i s) = ct_fixed s \<and> ct_startTime (ct_hear_p i s) = ct_startTime s \<and>
    ct_id (ct_hear_p i s) = ct_id s"
  using ct_hear_p_eq(2) [OF assms] by (simp add: ct_fixed_def)

lemma polls_frame:
  assumes "ct_poll_ok s" "\<forall>i \<in> set is. i < ct_peers s"
  shows "ct_fixed (fold ct_hear_p is s) = ct_fixed s \<and> ct_startTime (fold ct_hear_p is s) = ct_startTime s \<and>
    ct_id (fold ct_hear_p is s) = ct_id s"
  using assms
proof (induction "is" arbitrary: s)
  case (Cons i "is")
  then have i: "i < ct_peers s" by simp
  show ?case using Cons.IH [OF ct_hear_p_ok [OF Cons.prems(1) i]] Cons.prems
      ct_hear_p_cast [OF Cons.prems(1) i] ct_hear_p_frame [OF Cons.prems(1) i] by simp
qed simp

text \<open>
  A whole election: the round opens, the peers \<open>is\<close> vote, three seconds pass. The backup ends at the
  announcement, as primary, exactly if the distinct voters are a majority.
\<close>

definition election_events :: "ct_env \<Rightarrow> ct_env \<Rightarrow> ct_env \<Rightarrow> nat list \<Rightarrow> controller \<Rightarrow> ct_event list" where
  "election_events e1 e2 e3 is s =
     timeout_steps e1 s @ map (\<lambda>i. Deliver e2 (char_byte (CHR ''p'')) (p_msg i)) is @ [Thread e3]"

lemma ct_election:
  assumes "ct_inv s" "4 \<le> ce_now e1 - ct_startTime s" "3 \<le> ce_now e3 - ce_now e1"
    "\<forall>i \<in> set is. i < ct_peers s"
  shows "\<exists>pc s'. ct_run (election_events e1 e2 e3 is s) (Wait, s) = Inr (pc, s') \<and> ct_inv s' \<and>
    ct_fixed s' = ct_fixed s \<and>
    (if ct_n s < 2 * int (card (set is)) then pc = Announce 0 \<and> ct_id s' = ct_myId s
     else pc = Top \<and> ct_id s' = -1)"
proof -
  let ?s0 = "s\<lparr>ct_startTime := ce_now e1\<rparr>"
  let ?s1 = "ct_new_round ?s0"
  let ?s2 = "fold ct_hear_p is ?s1"
  have inv0: "ct_inv ?s0" and p0: "\<forall>i \<in> set is. i < ct_peers ?s0" using assms by (simp_all add: ct_peers_def)
  have comm: "(ct_new_round s)\<lparr>ct_startTime := ce_now e1\<rparr> = ?s1" by (simp add: ct_new_round_def ct_peers_def)
  have ok1: "ct_poll_ok ?s1" and p1: "\<forall>i \<in> set is. i < ct_peers ?s1"
    using box.reset_ok [OF inv0] box.reset_peers [OF inv0] p0 by simp_all
  have t: "ct_votesRecv ?s2 = int (card (set is))" and ok2: "ct_poll_ok ?s2"
    using box.polled [OF inv0 p0] by simp_all
  have fr: "ct_fixed ?s2 = ct_fixed s" "ct_startTime ?s2 = ce_now e1" "ct_id ?s2 = -1"
    using polls_frame [OF ok1 p1] by (simp_all add: ct_new_round_def ct_fixed_def)
  have run: "ct_run (election_events e1 e2 e3 is s) (Wait, s) = ct_event_step (Thread e3) (Elect, ?s2)"
    unfolding election_events_def ct_run_append ct_run_timeout [OF assms(1,2)] comm bindR_Inr
      ct_run_polls [OF ok1 p1] by (cases "ct_event_step (Thread e3) (Elect, ?s2)") auto
  have maj: "ct_majority ?s2 = ct_n s div 2 + 1" using fr(1) assms(1) by (simp add: ct_fixed_def ct_inv_def)
  have iff: "ct_majority ?s2 \<le> ct_votesRecv ?s2 \<longleftrightarrow> ct_n s < 2 * int (card (set is))"
    unfolding maj t by presburger
  have inv2: "ct_inv ?s2" using ok2 by (simp add: ct_poll_ok_def)
  show ?thesis
  proof (cases "ct_n s < 2 * int (card (set is))")
    case True
    with iff have "ct_event_step (Thread e3) (Elect, ?s2) =
        Inr (Announce 0, ct_writeID (ce_fopen e3) (?s2\<lparr>ct_id := ct_myId ?s2\<rparr>))"
      using fr(2) assms(3) by (simp add: th_elect_def set_value_def)
    with run True inv2 fr(1) show ?thesis by (auto simp: ct_fixed_def)
  next
    case False
    with iff have "ct_event_step (Thread e3) (Elect, ?s2) = Inr (Top, ?s2)"
      using fr(2) assms(3) by (simp add: th_elect_def)
    with run False inv2 fr show ?thesis by auto
  qed
qed

section \<open>What stays fixed\<close>

lemma ct_msg_fixed: "ct_msg e b cs s = Inr (out, r, s') \<Longrightarrow> ct_fixed s' = ct_fixed s"
proof (cases "b = char_byte (CHR ''y'')")
  case True
  assume "ct_msg e b cs s = Inr (out, r, s')"
  with True have "ct_msg_y cs s = Inr (out, r, s')" by (simp add: ct_msg_def)
  from ct_msg_y_cases [OF this] show ?thesis by (auto simp: ct_fixed_def)
qed (simp add: ct_msg_flags)

lemma th_step_fixed: "th_step e pc s = Inr (out, pc', s') \<Longrightarrow> ct_fixed s' = ct_fixed s"
  by (cases pc) (auto simp: th_defs Let_def res_simps ct_fixed_def ct_writeID_def
      split: if_splits option.splits prod.splits)

lemma ct_event_fixed: "ct_event_step ev (pc, s) = Inr (pc', s') \<Longrightarrow> ct_fixed s' = ct_fixed s"
proof (cases ev)
  case (Accept fd a)
  then show "ct_event_step ev (pc, s) = Inr (pc', s') \<Longrightarrow> ct_fixed s' = ct_fixed s"
    by (auto simp: ct_accept_def ct_fixed_def res_simps split: if_splits)
qed (auto simp: res_simps calculate_soc_def ct_msg_fixed th_step_fixed dest!: calcSoc_frame)

lemma ct_during_keeps:
  assumes "ct_during P evs c = Some c'" "ct_inv (snd c)"
  shows "ct_fixed (snd c') = ct_fixed (snd c) \<and> ct_inv (snd c')"
  using assms
proof (induction evs arbitrary: c)
  case (Cons ev evs)
  then obtain c1 where c1: "ct_event_step ev c = Inr c1" "ct_during P evs c1 = Some c'"
    by (auto split: if_splits sum.splits)
  obtain pc s pc1 s1 where p: "c = (pc, s)" "c1 = (pc1, s1)" by (cases c, cases c1)
  have "ct_fixed s1 = ct_fixed s" "ct_inv s1"
    using ct_event_fixed ct_event_inv c1(1) p Cons.prems(2) by auto
  with Cons.IH [OF c1(2)] p show ?case by simp
qed (auto split: if_splits)

lemma ct_during_end: "ct_during P evs c = Some (pc, s) \<Longrightarrow> P pc"
  by (induction evs arbitrary: c) (auto split: if_splits sum.splits)

lemma announce_not_top: "th_announce e k s \<noteq> Inr (out, Top, s')"
  by (auto simp: th_announce_def bindR_def Let_def split: sum.splits prod.splits)

section \<open>Messages of well-behaved peers\<close>

text \<open>
  The messages TokenGens, the other controller and the capacity estimator send, \<open>n\<close> being the number
  of TokenGens.
\<close>

inductive peer_msg :: "int \<Rightarrow> char \<Rightarrow> segs \<Rightarrow> bool" for n where
  vote_yes: "0 \<le> i \<Longrightarrow> i < n \<Longrightarrow> peer_msg n (CHR ''p'') [int_bytes i]"
| vote_no: "0 \<le> i \<Longrightarrow> i < n \<Longrightarrow> peer_msg n (CHR ''n'') [int_bytes i]"
| ack_tg: "0 \<le> i \<Longrightarrow> i < n \<Longrightarrow> peer_msg n (CHR ''y'') [int_bytes i]"
| rate: "0 \<le> i \<Longrightarrow> i < n \<Longrightarrow> int32 x \<Longrightarrow> peer_msg n (CHR ''i'') [int_bytes i, int_bytes x]"
| new_controller: "int32 i \<Longrightarrow> peer_msg n (CHR ''t'') [int_bytes i]"
| ack_controller: "int32 i \<Longrightarrow> peer_msg n (CHR ''z'') [int_bytes i]"
| capacity: "int32 i \<Longrightarrow> peer_msg n (CHR ''c'') [int_bytes i]"
| hardness: "int32 i \<Longrightarrow> int32 x \<Longrightarrow> peer_msg n (CHR ''h'') [int_bytes i, int_bytes x]"
| heartbeat: "peer_msg n (CHR ''a'') []"

definition ct_ready :: "controller \<Rightarrow> bool" where
  "ct_ready s \<longleftrightarrow> ct_inv s \<and> None \<notin> set (cf_ip_controller (ct_cfg s))"

lemma tell_other_ok:
  assumes "ct_ready s" "net_up ne"
  shows "\<exists>out. tell_other ne ch s = Inr out"
proof -
  have inv: "ct_inv s" using assms(1) by (simp add: ct_ready_def)
  have l: "length (cf_ip_controller (ct_cfg s)) = 2" using inv by (simp add: ct_inv_def)
  then have i: "nat (other_id s) < length (cf_ip_controller (ct_cfg s))" using other_id_range [OF inv] by auto
  with assms(1) have "cf_ip_controller (ct_cfg s) ! nat (other_id s) \<noteq> None"
    unfolding ct_ready_def using nth_mem by metis
  then obtain a where "cf_ip_controller (ct_cfg s) ! nat (other_id s) = Some a" by blast
  then show ?thesis using i l other_id_range [OF inv] assms(2)
    by (auto simp: tell_other_def get_at_def sendID_def net_up_def send_to_def)
qed

lemma ct_ready_frame [simp]:
  "ct_ready (s\<lparr>ct_id := i\<rparr>) = ct_ready s" "ct_ready (ct_writeID ok s) = ct_ready s"
  by (simp_all add: ct_ready_def)

lemma peer_index:
  assumes "ct_inv s" "0 \<le> i" "i < ct_n s"
  shows "int32 i" "set_at (ct_votes s) i v = Inr ((ct_votes s)[nat i := v])"
    "get_at (ct_votes s) i = Inr (ct_votes s ! nat i)"
    "set_at (ct_flagTG s) i v = Inr ((ct_flagTG s)[nat i := v])"
    "set_at (ct_incomingR s) i v = Inr ((ct_incomingR s)[nat i := v])"
  using assms by (auto simp: ct_inv_def set_at_def get_at_def int32_def PEERS_def)

lemma peer_msg_ok:
  assumes "ct_ready s" "net_up (ce_net e)" "peer_msg (ct_n s) ch cs"
  shows "\<exists>out s'. ct_msg e (char_byte ch) cs s = Inr (out, [], s')"
proof -
  have inv: "ct_inv s" using assms(1) by (simp add: ct_ready_def)
  note idx = peer_index [OF inv]
  from assms(3) show ?thesis
  proof cases
    case (rate i x)
    have "ct_inv (s\<lparr>ct_incomingR := (ct_incomingR s)[nat i := x]\<rparr>)"
      using inv by (intro ct_inv_arrays) (simp_all add: ct_inv_lengths)
    from calcSoc_ok [OF this] rate idx show ?thesis by (auto simp: ct_msg_def ct_msg_i_def)
  next
    case (new_controller i)
    obtain out where "tell_other (ce_net e) (CHR ''z'') (ct_writeID (ce_fopen e) (s\<lparr>ct_id := i\<rparr>)) = Inr out"
      using tell_other_ok assms(1,2) ct_ready_frame by metis
    then show ?thesis using new_controller by (simp add: ct_msg_def ct_msg_t_def set_value_def Let_def)
  next
    case heartbeat
    obtain out where "tell_other (ce_net e) (CHR ''t'') s = Inr out" using tell_other_ok [OF assms(1,2)] by blast
    then show ?thesis using heartbeat by (simp add: ct_msg_def ct_msg_a_def Let_def)
  qed (auto simp: ct_msg_def ct_msg_p_def ct_msg_n_def ct_msg_y_def ct_msg_z_def ct_msg_c_def ct_msg_h_def
      ct_vote_def idx)
qed

section \<open>A Controller for concrete runs\<close>

definition env_at :: "int \<Rightarrow> ct_env" where
  "env_at t = \<lparr>ce_now = t, ce_net = net_ok, ce_fopen = True\<rparr>"

text \<open>Backup 1 of a system with two TokenGens; the primary is 0.\<close>

definition ct_backup :: controller where
  "ct_backup = ct_globals\<lparr>ct_myId := 1, ct_id := 0, ct_majority := 2,
     ct_cfg := cfg_init\<lparr>cf_no_of_proxy := 2, cf_ip_controller := [Some ''10.0.0.2'', Some ''10.0.0.3''],
       cf_ip_array := [Some ''10.0.0.4'', Some ''10.0.0.5'', None, None, None]\<rparr>\<rparr>"

lemma ct_backup_ready: "ct_ready ct_backup" "ct_inv ct_backup" "ct_n ct_backup = 2" "ct_peers ct_backup = 2"
  by (simp_all add: ct_ready_def ct_backup_def ct_globals_def ct_inv_def cfg_init_def PEERS_def ct_peers_def)

lemma ct_backup_simps: "ct_votesRecv ct_backup = 0" "ct_startTime ct_backup = 0" "ct_myId ct_backup = 1"
  by (simp_all add: ct_backup_def ct_globals_def)

section \<open>Properties\<close>





text \<open>
  An election that runs its course: after four silent seconds a backup asks, the TokenGens \<open>is\<close>
  answer, and three seconds later it is primary if and only if the distinct ones among them are more
  than half; otherwise it starts over.
\<close>

lemma election_outcome:
  assumes "ct_inv s" "4 \<le> ce_now e1 - ct_startTime s" "3 \<le> ce_now e3 - ce_now e1"
    "\<forall>i \<in> set is. i < ct_peers s"
  shows "\<exists>pc s'. ct_run (election_events e1 e2 e3 is s) (Wait, s) = Inr (pc, s') \<and> ct_inv s' \<and>
    ct_fixed s' = ct_fixed s \<and>
    (if ct_n s < 2 * int (card (set is)) then pc = Announce 0 \<and> ct_id s' = ct_myId s
     else pc = Top \<and> ct_id s' = -1)"
  using assms by (rule ct_election)

lemma election_outcome_example:
  "\<exists>pc s'. ct_run (election_events (env_at 4) (env_at 5) (env_at 7) [1, 0] ct_backup) (Wait, ct_backup) = Inr (pc, s') \<and>
     pc = Announce 0 \<and> ct_id s' = 1"
  using election_outcome [of ct_backup "env_at 4" "env_at 7" "[1, 0]" "env_at 5"] ct_backup_ready
  by (auto simp: env_at_def ct_backup_simps)

text \<open>
  C5. The takeover is complete when it ends: \<open>switch_controller\<close> returns only after every configured
  TokenGen has acknowledged the new controller since the announcement began.
\<close>

theorem takeover_ends_after_all_acks:
  assumes "ct_inv s" "ct_during taking_over evs (Announce 0, s) = Some (pc, s1)"
    and "th_step e pc s1 = Inr (out, Top, s2)"
  shows "{0..<ct_n s} \<subseteq> senders_of (CHR ''y'') evs"
proof -
  have t: "takeover_inv (senders_of (CHR ''y'') evs) (pc, s1)" by (rule takeover_heard [OF assms(1,2)])
  have "taking_over pc" using assms(2) by (rule ct_during_end)
  moreover have "pc \<noteq> Announce k" for k using assms(3) announce_not_top by fastforce
  ultimately obtain k c where pc: "pc = Sweep k c" by (cases pc) (auto simp: taking_over_def)
  have "{0..<ct_n s1} \<subseteq> senders_of (CHR ''y'') evs"
    using sweep_inv [OF t [unfolded pc] assms(3) [unfolded pc]] by simp
  moreover have "ct_n s1 = ct_n s" using ct_during_keeps [OF assms(2)] assms(1) ct_fixed_n [of s1 s] by simp
  ultimately show ?thesis by simp
qed

definition acked_run :: "ct_event list" where
  "acked_run = replicate 3 (Thread (env_at 9)) @
     [Deliver (env_at 9) (char_byte (CHR ''y'')) [int_bytes 0], Deliver (env_at 9) (char_byte (CHR ''y'')) [int_bytes 1]] @
     replicate 2 (Thread (env_at 10))"

theorem takeover_ends_after_all_acks_witness:
  "{0..<2} \<subseteq> senders_of (CHR ''y'') acked_run"
proof -
  let ?s = "ct_backup\<lparr>ct_id := 1\<rparr>"
  let ?s1 = "?s\<lparr>ct_flag := 1\<rparr>"
  have o: "wrap32 0 = 0" by (simp add: wrap32_id int32_def)
  have run: "ct_during taking_over acked_run (Announce 0, ?s) = Some (Sweep 2 0, ?s1)"
    by (simp add: acked_run_def eval_nat_numeral taking_over_def th_announce_def th_sweep_def
        ct_backup_def ct_globals_def cfg_init_def get_at_def set_at_def ct_msg_def ct_msg_y_def int32_def
        sendID_def tell_other_def other_id_def o send_to_def net_ok_def set_value_def env_at_def PEERS_def)
  have "th_step (env_at 11) (Sweep 2 0) ?s1 = Inr ([], Top, ?s1)"
    using ct_backup_ready by (simp add: th_sweep_def)
  from takeover_ends_after_all_acks [OF _ run this] ct_backup_ready show ?thesis by simp
qed

text \<open>
  C14. No well-formed message of a peer makes a Controller fault: votes, acknowledgements, rates,
  heartbeats, capacities and changes of controller are all handled to the last byte.
\<close>

theorem peers_cannot_crash_controller:
  assumes "ct_ready s" "net_up (ce_net e)" "peer_msg (ct_n s) ch cs"
  shows "\<exists>out s'. ct_msg e (char_byte ch) cs s = Inr (out, [], s') \<and> ct_inv s'"
  using peer_msg_ok [OF assms] ct_msg_inv assms(1) unfolding ct_ready_def by blast

theorem peers_cannot_crash_controller_witness:
  "\<exists>out s'. ct_msg (env_at 1) (char_byte (CHR ''i'')) [int_bytes 1, int_bytes 40] ct_backup = Inr (out, [], s') \<and> ct_inv s'"
  by (rule peers_cannot_crash_controller)
     (use ct_backup_ready in \<open>auto simp: env_at_def int32_def intro!: peer_msg.rate\<close>)

definition late_vote_run :: "ct_event list" where
  "late_vote_run =
     [Thread (env_at 4), Deliver (env_at 4) (char_byte (CHR ''p'')) [int_bytes 0]] @
     replicate 6 (Thread (env_at 4)) @
     [Deliver (env_at 5) (char_byte (CHR ''p'')) [int_bytes 0], Thread (env_at 7)]"

text \<open>
  The votes are cleared after the count is reset, so a late vote of the previous round that
  arrives in between is counted, cleared and counted again: one TokenGen of two elects a primary.
\<close>

lemma late_vote_is_counted_twice:
  "\<exists>s. ct_run late_vote_run (Wait, ct_backup) = Inr (Announce 0, s) \<and> ct_id s = ct_myId s \<and>
     senders_of (CHR ''p'') late_vote_run = {0} \<and> ct_n s = 2"
proof -
  have v: "wrap32 1 = 1" "wrap32 2 = 2" by (simp_all add: wrap32_id int32_def)
  have "senders_of (CHR ''p'') late_vote_run = {0}"
    by (simp add: late_vote_run_def int32_def eval_nat_numeral)
  moreover have "\<exists>s. ct_run late_vote_run (Wait, ct_backup) = Inr (Announce 0, s) \<and> ct_id s = ct_myId s \<and> ct_n s = 2"
    by (simp add: late_vote_run_def eval_nat_numeral th_wait_def th_clear_def th_ask_def th_elect_def
        ct_backup_def ct_globals_def cfg_init_def get_at_def set_at_def ct_msg_def ct_msg_p_def int32_def
        ct_vote_def change_values_def set_value_def change_time_def v env_at_def PEERS_def)
  ultimately show ?thesis by blast
qed

end
