(* ===== verification/Protocol.thy ===== *)
theory Protocol
  imports Takeover
begin

text \<open>
  The conversations between TokenGens and Controllers, each message followed from the
  code that writes it to the handler that reads it: the report of a rate and the shares computed
  from it, the share and the TokenGen that adopts it, the vote, the change of controller and its
  acknowledgement, and the failover made of them.
\<close>

section \<open>One message read by its receiver\<close>

lemma tg_read_one:
  assumes "tg_msg (env k) cd b r s = Inr (out, [], s')"
  shows "tg_readFromClient env k cd ([b] # r) s = Inr (out, s')"
  using assms by (simp add: tg_readFromClient.simps [of _ _ _ "[b] # r"] tg_readFromClient.simps [of _ _ _ "[]"])

lemma ct_read_one:
  assumes "ct_msg (env k) b r s = Inr (out, [], s')"
  shows "ct_readFromClient env k ([b] # r) s = Inr (out, s')"
  using assms by (simp add: ct_readFromClient.simps [of _ _ "[b] # r"] ct_readFromClient.simps [of _ _ "[]"])

section \<open>Rates\<close>

text \<open>A TokenGen's report, as one turn of its sender writes it.\<close>

definition report :: "tokengen \<Rightarrow> segs" where
  "report s = [[char_byte (CHR ''i'')], int_bytes (tg_myId s), int_bytes (tg_incoming s)]"

lemma tg_write_iter_report:
  assumes "\<And>j. w j"
  shows "tg_write_iter w s = (True, report s, s\<lparr>tg_numbytes := wrap32 (tg_numbytes s + 4)\<rparr>)"
  using assms by (simp add: tg_write_iter_def report_def Let_def)

text \<open>The Controller stores it under the sender's id; a primary also renews all shares.\<close>

definition ct_take_rate :: "int \<Rightarrow> int \<Rightarrow> controller \<Rightarrow> controller" where
  "ct_take_rate i x s =
     (let s = s\<lparr>ct_incomingR := (ct_incomingR s)[nat i := x]\<rparr>; n = nat (ct_n s);
          rs = take n (ct_incomingR s)
      in if ct_id s = ct_myId s
         then s\<lparr>ct_sum_incoming_rate := soc_sum (soc_rates rs),
                ct_incomingRate := soc_rates rs @ drop n (ct_incomingRate s),
                ct_soc := soc_list (ct_capacity s) rs @ drop n (ct_soc s)\<rparr>
         else s)"

lemma ct_msg_i_rate:
  assumes "ct_inv s" "0 \<le> i" "i < int PEERS" "int32 x"
  shows "ct_msg_i [int_bytes i, int_bytes x] s = Inr ([], [], ct_take_rate i x s)"
proof -
  have "int32 i" using assms by (simp add: int32_def PEERS_def)
  moreover have "set_at (ct_incomingR s) i x = Inr ((ct_incomingR s)[nat i := x])"
    using assms by (simp add: set_at_def ct_inv_lengths)
  moreover have "nat (ct_n s) \<le> PEERS" using assms(1) by (auto simp: ct_inv_def)
  ultimately show ?thesis using assms(4)
    by (simp add: ct_msg_i_def calcSoc_def ct_take_rate_def Let_def)
qed

lemma report_read:
  assumes "ct_inv s" "0 \<le> tg_myId t" "tg_myId t < int PEERS" "int32 (tg_incoming t)"
  shows "ct_readFromClient env k (report t) s = Inr ([], ct_take_rate (tg_myId t) (tg_incoming t) s)"
proof -
  have "ct_msg (env k) (char_byte (CHR ''i'')) [int_bytes (tg_myId t), int_bytes (tg_incoming t)] s =
      Inr ([], [], ct_take_rate (tg_myId t) (tg_incoming t) s)"
    using ct_msg_i_rate [OF assms] by (simp add: ct_msg_def)
  from ct_read_one [of env k, OF this] show ?thesis by (simp add: report_def)
qed

section \<open>Shares\<close>

text \<open>A TokenGen listens to the controller it follows, or last followed.\<close>

definition tg_follows :: "int \<Rightarrow> tokengen \<Rightarrow> bool" where
  "tg_follows i s \<longleftrightarrow> tg_id s = -1 \<and> i = tg_prevId s \<or> i = tg_id s"

definition tg_take_share :: "int \<Rightarrow> int \<Rightarrow> int \<Rightarrow> tokengen \<Rightarrow> tokengen" where
  "tg_take_share now i sh s =
     (if tg_follows i s
      then s\<lparr>tg_share := (if sh \<noteq> 0 then sh else tg_share s), tg_startTime := now,
             tg_id := (if tg_id s = -1 then tg_prevId s else tg_id s)\<rparr>
      else s)"

lemma share_read:
  assumes "ct_write_turn counter w c = Inr (True, out)" "\<And>j. w j" "int32 (ct_myId c)"
    and "\<forall>v \<in> set (ct_soc c). int32 v"
  shows "tg_readFromClient env k cd out s =
    Inr ([], tg_take_share (te_now (env k)) (ct_myId c) (ct_soc c ! nat counter) s)"
proof -
  let ?sh = "ct_soc c ! nat counter"
  have o: "out = [char_byte (CHR ''s'')] # [int_bytes (ct_myId c), int_bytes ?sh]"
    and i: "nat counter < length (ct_soc c)"
    using assms(1,2) by (auto simp: ct_write_turn_def res_simps split: if_splits)
  have "int32 ?sh" using assms(4) nth_mem [OF i] by blast
  then have "tg_msg (env k) cd (char_byte (CHR ''s'')) [int_bytes (ct_myId c), int_bytes ?sh] s =
      Inr ([], [], tg_take_share (te_now (env k)) (ct_myId c) ?sh s)"
    using assms(3)
    by (auto simp: tg_msg_def tg_msg_s_def tg_take_share_def tg_follows_def change_time_def set_value_def Let_def)
  from tg_read_one [of env k, OF this] show ?thesis unfolding o .
qed

section \<open>Votes\<close>

text \<open>The answer of a TokenGen to the request \<open>x\<close> of controller \<open>i\<close>.\<close>

definition tg_reply :: "tokengen \<Rightarrow> segs" where
  "tg_reply s = [[char_byte (if tg_id s = -1 then CHR ''p'' else CHR ''n'')], int_bytes (tg_myId s)]"

definition tg_knows :: "int \<Rightarrow> tokengen \<Rightarrow> bool" where
  "tg_knows i s \<longleftrightarrow> 0 \<le> i \<and> i < int (length (cf_ip_controller (tg_cfg s))) \<and>
     cf_ip_controller (tg_cfg s) ! nat i \<noteq> None"

lemma vote_read:
  assumes "changeController ne ip c = Inr out" "net_up ne" "int32 (ct_myId c)"
    and "net_up (te_net (env k))" "tg_knows (ct_myId c) s"
  shows "tg_readFromClient env k cd out s =
    Inr ([Sent (cf_ip_controller (tg_cfg s) ! nat (ct_myId c)) (tg_reply s)], s\<lparr>tg_localId := ct_myId c\<rparr>)"
proof -
  have o: "out = [char_byte (CHR ''x'')] # [int_bytes (ct_myId c)]"
    using assms(1,2) by (auto simp: changeController_def split: if_splits option.splits)
  obtain a where a: "cf_ip_controller (tg_cfg s) ! nat (ct_myId c) = Some a"
    using assms(5) by (auto simp: tg_knows_def)
  have "0 \<le> ne_socket (te_net (env k))" using assms(4) by (simp add: net_up_def)
  then have "tg_msg (env k) cd (char_byte (CHR ''x'')) [int_bytes (ct_myId c)] s =
      Inr ([Sent (cf_ip_controller (tg_cfg s) ! nat (ct_myId c)) (tg_reply s)], [], s\<lparr>tg_localId := ct_myId c\<rparr>)"
    using assms(3-5) a
    by (simp add: tg_msg_def tg_msg_x_def tg_knows_def get_at_def tg_sendResponse_def tg_reply_def Let_def)
  from tg_read_one [of env k, OF this] show ?thesis unfolding o .
qed

section \<open>Change of controller\<close>

definition tg_adopt :: "bool \<Rightarrow> int \<Rightarrow> int \<Rightarrow> tokengen \<Rightarrow> tokengen" where
  "tg_adopt ok now i s =
     s\<lparr>tg_id := i, tg_flag := 1, tg_startTime := now,
       tg_idstore := (if ok then Some (show_int i) else tg_idstore s)\<rparr>"

lemma change_read:
  assumes "sendID ne ip (CHR ''t'') c = Inr out" "net_up ne" "int32 (ct_myId c)"
    and "net_up (te_net (env k))" "tg_knows (ct_myId c) s"
  shows "tg_readFromClient env k cd out s =
    Inr ([Sent (cf_ip_controller (tg_cfg s) ! nat (ct_myId c)) [[char_byte (CHR ''y'')], int_bytes (tg_myId s)],
          SpawnSender], tg_adopt (te_fopen (env k)) (te_now (env k)) (ct_myId c) s)"
proof -
  have o: "out = [char_byte (CHR ''t'')] # [int_bytes (ct_myId c)]"
    using assms(1,2) by (auto simp: sendID_def split: if_splits option.splits)
  obtain a where a: "cf_ip_controller (tg_cfg s) ! nat (ct_myId c) = Some a"
    using assms(5) by (auto simp: tg_knows_def)
  have "0 \<le> ne_socket (te_net (env k))" using assms(4) by (simp add: net_up_def)
  then have "tg_msg (env k) cd (char_byte (CHR ''t'')) [int_bytes (ct_myId c)] s =
      Inr ([Sent (cf_ip_controller (tg_cfg s) ! nat (ct_myId c)) [[char_byte (CHR ''y'')], int_bytes (tg_myId s)],
          SpawnSender], [], tg_adopt (te_fopen (env k)) (te_now (env k)) (ct_myId c) s)"
    using assms(3-5) a
    by (simp add: tg_msg_def tg_msg_t_def tg_knows_def get_at_def tg_sendResponse_def tg_adopt_def
        tg_writeID_def set_value_def change_time_def Let_def)
  from tg_read_one [of env k, OF this] show ?thesis unfolding o .
qed

lemma ack_read:
  assumes "ct_inv c" "ct_id c = ct_myId c" "0 \<le> i" "i < int PEERS"
  shows "ct_readFromClient env k [[char_byte (CHR ''y'')], int_bytes i] c =
    Inr ([], c\<lparr>ct_flagTG := (ct_flagTG c)[nat i := 0]\<rparr>)"
proof -
  have "int32 i" using assms by (simp add: int32_def PEERS_def)
  then have "ct_msg (env k) (char_byte (CHR ''y'')) [int_bytes i] c =
      Inr ([], [], c\<lparr>ct_flagTG := (ct_flagTG c)[nat i := 0]\<rparr>)"
    using assms by (simp add: ct_msg_def ct_msg_y_def set_at_def ct_inv_lengths)
  from ct_read_one [of env k, OF this] show ?thesis .
qed

end
