(* ===== verification/Token_Check.thy ===== *)
theory Token_Check
  imports Token_Gen
begin

text \<open>
  TokenCheck, WebQ's part of the web server in front of the application: \<open>btp.h\<close> and the hooks
  of \<open>mod_status.c\<close> that report arrivals and departures and check tokens. \<open>verify_token\<close> returns 1
  before it looks at anything; the statements behind that return are modelled too, as
  \<open>verify_token_body\<close>, and what they would accept is compared with what TokenGen issues. The counters
  of \<open>mod_status\<close> are doubles that only ever hold whole numbers and are integers here.
\<close>

section \<open>btp.h: strings\<close>

text \<open>
  \<open>explode\<close>: the first loop counts the pieces, the second copies them. The delimiter is a character
  other than NUL.
\<close>

function explode_count :: "string \<Rightarrow> char \<Rightarrow> nat" where
  "explode_count src d = (case strchr src d of None \<Rightarrow> 1 | Some e \<Rightarrow> Suc (explode_count (tl e) d))"
  by pat_completeness auto

lemma strchr_split: "strchr s d = Some e \<Longrightarrow> s = takeWhile (\<lambda>c. c \<noteq> d) s @ d # tl e"
  by (induction s) (auto split: if_splits)

lemma strchr_shorter: "strchr s d = Some e \<Longrightarrow> length (tl e) < length s"
  by (induction s) (auto split: if_splits)

termination explode_count
  by (relation "measure (\<lambda>(s, d). length s)") (auto dest!: strchr_shorter)

declare explode_count.simps [simp del]

fun explode_loop :: "nat \<Rightarrow> string \<Rightarrow> char \<Rightarrow> string list" where
  "explode_loop 0 src d = []"
| "explode_loop (Suc n) src d =
     (case strchr src d of
        None \<Rightarrow> src # explode_loop n [] d
      | Some e \<Rightarrow> takeWhile (\<lambda>c. c \<noteq> d) src # explode_loop n (tl e) d)"

definition explode :: "string \<Rightarrow> char \<Rightarrow> string list" where
  "explode str d = explode_loop (explode_count str d) str d"

section \<open>btp.h: the check of a token\<close>

definition verify_token :: "string option \<Rightarrow> int" where
  "verify_token query = 1"

text \<open>
  The loop over the query behind the \<open>return\<close>: \<open>tok\<close> and \<open>want\<close> are the two local buffers of 100 bytes,
  \<open>None\<close> while nothing was copied into them.
\<close>

function verify_loop ::
  "(string \<times> string) option \<Rightarrow> string option \<Rightarrow> string option \<Rightarrow> (string option \<times> string option) res" where
  "verify_loop pch tok want =
     (case pch of
        None \<Rightarrow> Inr (tok, want)
      | Some (t, r) \<Rightarrow>
          if t = ''token'' \<or> t = ''hash''
          then (case strtok ''&='' r of
                  None \<Rightarrow> Inl NullDeref
                | Some (v, r') \<Rightarrow>
                    if length v + 1 \<le> 100
                    then (if t = ''token'' then verify_loop (strtok ''&='' r') (Some v) want
                          else verify_loop (strtok ''&='' r') tok (Some v))
                    else Inl BufferOverflow)
          else verify_loop (strtok ''&='' r) tok want)"
  by pat_completeness auto
termination
proof (relation "measure (\<lambda>(pch, tok, want). case pch of None \<Rightarrow> 0 | Some (t, r) \<Rightarrow> Suc (length r))", goal_cases)
  case (2 pch tok want x t r y v r')
  then have "length r' < length r" using strtok_token by fastforce
  then show ?case using 2 strtok_token by (fastforce split: option.splits)
next
  case (3 pch tok want x t r y v r')
  then have "length r' < length r" using strtok_token by fastforce
  then show ?case using 3 strtok_token by (fastforce split: option.splits)
next
  case (4 pch tok want x t r)
  then show ?case using strtok_token by (fastforce split: option.splits)
qed simp

declare verify_loop.simps [simp del]

definition verify_token_body :: "(string \<Rightarrow> string \<Rightarrow> byte list) \<Rightarrow> string \<Rightarrow> char list \<Rightarrow> int res" where
  "verify_token_body hmac query mem =
     bindR (checkR (length query + 1 \<le> 300) BufferOverflow) (\<lambda>_.
       bindR (verify_loop (strtok ''&='' query) None None) (\<lambda>(tok, want).
         case (tok, want) of
           (Some t, Some h) \<Rightarrow>
             let mem = hash_loop 0 (take 16 (hmac SECRET_KEY t)) mem
             in Inr (if c_string mem = h then 1 else 0)
         | _ \<Rightarrow> Inl UninitRead))"

section \<open>btp.h: reports to the capacity estimator\<close>

record btp =
  bt_sockfd :: int
  bt_buffr :: string
  bt_url :: string

text \<open>
  \<open>connect_proxy1\<close>: what \<open>socket\<close>, \<open>gethostbyname\<close> and \<open>connect\<close> answer; the descriptor is stored
  even if a later call fails.
\<close>

definition connect_proxy1 :: "int \<Rightarrow> bool \<Rightarrow> bool \<Rightarrow> btp \<Rightarrow> bool \<times> btp" where
  "connect_proxy1 fd host conn b =
     (let b = b\<lparr>bt_sockfd := fd\<rparr> in (\<not> fd < 0 \<and> host \<and> conn, b))"

definition disconnect_proxy1 :: "btp \<Rightarrow> btp" where
  "disconnect_proxy1 b = b"

text \<open>The fourth token of the path, a null pointer if it has fewer; \<open>temp_query\<close> holds 300 bytes.\<close>

fun strtok_nth :: "nat \<Rightarrow> string \<Rightarrow> string \<Rightarrow> string option" where
  "strtok_nth n delims s =
     (case strtok delims s of
        None \<Rightarrow> None
      | Some (t, r) \<Rightarrow> (case n of 0 \<Rightarrow> Some t | Suc m \<Rightarrow> strtok_nth m delims r))"

definition url_class :: "string \<Rightarrow> string res" where
  "url_class query =
     bindR (checkR (length query + 1 \<le> 300) BufferOverflow) (\<lambda>_.
       case strtok_nth 3 ''/'' query of
         None \<Rightarrow> Inl NullDeref
       | Some q \<Rightarrow> Inr (if q = ''req1.php'' then ''0'' else ''1''))"

definition inform_proxy1_arrival :: "string \<Rightarrow> btp \<Rightarrow> (string \<times> btp) res" where
  "inform_proxy1_arrival query b =
     bindR (url_class query) (\<lambda>u.
       let m = ''A_'' @ u @ [newline] in Inr (m, b\<lparr>bt_buffr := m, bt_url := u\<rparr>))"

definition inform_proxy1_departure :: "64 word \<Rightarrow> int \<Rightarrow> string \<Rightarrow> btp \<Rightarrow> (string \<times> btp) res" where
  "inform_proxy1_departure service_time http_status query b =
     bindR (url_class query) (\<lambda>u.
       let m = (if http_status \<noteq> 200 then ''F'' else show_int (sint service_time)) @ ''_'' @ u @ [newline]
       in Inr (m, b\<lparr>bt_buffr := m, bt_url := u\<rparr>))"

section \<open>mod_status\<close>

fun contains :: "string \<Rightarrow> string \<Rightarrow> bool" where
  "contains [] p = (p = [])"
| "contains (c # s) p = (take (length p) (c # s) = p \<or> contains s p)"

record plugin_conf =
  pc_config_url :: string
  pc_status_url :: string
  pc_statistics_url :: string

record plugin_data =
  pd_traffic_out :: int
  pd_requests :: int
  pd_mod_5s_traffic_out :: "int list"
  pd_mod_5s_requests :: "int list"
  pd_mod_5s_ndx :: nat
  pd_rel_traffic_out :: int
  pd_rel_requests :: int
  pd_abs_traffic_out :: int
  pd_abs_requests :: int
  pd_bytes_written :: int

record tc_con =
  tc_path :: string
  tc_path_raw :: string
  tc_query :: "string option"
  tc_http_status :: int
  tc_file_finished :: int
  tc_start_time :: "64 word"
  tc_bytes_written_cur_second :: int

datatype status_answer = HANDLER_GO_ON | HANDLER_FINISHED | ServerStatus | ServerConfig | ServerStatistics

definition mod_status_init :: "int \<Rightarrow> bool \<Rightarrow> bool \<Rightarrow> btp \<Rightarrow> plugin_data \<times> btp" where
  "mod_status_init fd host conn b =
     (\<lparr>pd_traffic_out = 0, pd_requests = 0, pd_mod_5s_traffic_out = replicate 5 0,
       pd_mod_5s_requests = replicate 5 0, pd_mod_5s_ndx = 0, pd_rel_traffic_out = 0,
       pd_rel_requests = 0, pd_abs_traffic_out = 0, pd_abs_requests = 0, pd_bytes_written = 0\<rparr>,
      snd (connect_proxy1 fd host conn b))"

definition time_us :: "int \<Rightarrow> int \<Rightarrow> 64 word" where
  "time_us tv_sec tv_usec = word_of_int (tv_sec * 1000000 + tv_usec)"

text \<open>
  \<open>mod_status_handler\<close>: \<open>conf\<close> is the configuration in force for the connection; the last three results
  name the page function that answers.
\<close>

definition mod_status_handler ::
  "int \<times> int \<Rightarrow> plugin_conf \<Rightarrow> tc_con \<Rightarrow> btp \<Rightarrow> (status_answer \<times> string \<times> tc_con \<times> btp) res" where
  "mod_status_handler tv conf con b =
     bindR (if contains (tc_path con) ''favicon'' then Inr ([], b)
            else inform_proxy1_arrival (tc_path_raw con) b) (\<lambda>(sent, b).
       if verify_token (tc_query con) = 0
       then Inr (HANDLER_FINISHED, sent, con\<lparr>tc_http_status := 404, tc_file_finished := 1\<rparr>, b)
       else
         let con = con\<lparr>tc_start_time := time_us (fst tv) (snd tv)\<rparr>;
             r = (if pc_status_url conf \<noteq> [] \<and> pc_status_url conf = tc_path con then ServerStatus
                  else if pc_config_url conf \<noteq> [] \<and> pc_config_url conf = tc_path con then ServerConfig
                  else if pc_statistics_url conf \<noteq> [] \<and> pc_statistics_url conf = tc_path con
                  then ServerStatistics else HANDLER_GO_ON)
         in Inr (r, sent, con, b))"

definition mod_status_trigger :: "tc_con list \<Rightarrow> plugin_data \<Rightarrow> plugin_data" where
  "mod_status_trigger conns p =
     (let p = p\<lparr>pd_bytes_written := pd_bytes_written p + sum_list (map tc_bytes_written_cur_second conns)\<rparr>
      in p\<lparr>pd_mod_5s_traffic_out := (pd_mod_5s_traffic_out p)[pd_mod_5s_ndx p := pd_bytes_written p],
           pd_mod_5s_requests := (pd_mod_5s_requests p)[pd_mod_5s_ndx p := pd_requests p],
           pd_mod_5s_ndx := (pd_mod_5s_ndx p + 1) mod 5,
           pd_abs_traffic_out := pd_abs_traffic_out p + pd_bytes_written p,
           pd_rel_traffic_out := pd_rel_traffic_out p + pd_bytes_written p,
           pd_bytes_written := 0, pd_traffic_out := 0, pd_requests := 0\<rparr>)"

definition mod_status_account ::
  "int \<times> int \<Rightarrow> tc_con \<Rightarrow> plugin_data \<Rightarrow> btp \<Rightarrow> (string \<times> plugin_data \<times> btp) res" where
  "mod_status_account tv con p b =
     bindR (if contains (tc_path con) ''favicon'' then Inr ([], b)
            else inform_proxy1_departure (time_us (fst tv) (snd tv) - tc_start_time con)
                   (tc_http_status con) (tc_path_raw con) b) (\<lambda>(sent, b).
       Inr (sent, p\<lparr>pd_requests := pd_requests p + 1, pd_rel_requests := pd_rel_requests p + 1,
                    pd_abs_requests := pd_abs_requests p + 1,
                    pd_bytes_written := pd_bytes_written p + tc_bytes_written_cur_second con\<rparr>, b))"

section \<open>Facts about the pieces\<close>

fun join :: "char \<Rightarrow> string list \<Rightarrow> string" where
  "join d [] = []"
| "join d [s] = s"
| "join d (s # t # ss) = s @ d # join d (t # ss)"

lemma explode_loop_length [simp]: "length (explode_loop n s d) = n"
  by (induction n s d rule: explode_loop.induct) (auto split: option.splits)

lemma join_Cons: "ss \<noteq> [] \<Longrightarrow> join d (s # ss) = s @ d # join d ss"
  by (cases ss) auto

lemma explode_count_pos [simp]: "0 < explode_count s d"
  by (subst explode_count.simps) (auto split: option.splits)

lemma explode_pieces:
  "join d (explode s d) = s \<and> (\<forall>p \<in> set (explode s d). d \<notin> set p)"
proof (induction s d rule: explode_count.induct)
  case (1 s d)
  show ?case
  proof (cases "strchr s d")
    case None
    then have "explode s d = [s]"
      by (simp add: explode_def explode_count.simps [of s] del: strchr_None_iff)
    with None show ?thesis by simp
  next
    case (Some e)
    let ?p = "takeWhile (\<lambda>c. c \<noteq> d) s"
    have ex: "explode s d = ?p # explode (tl e) d"
      using Some by (simp add: explode_def explode_count.simps [of s])
    have "explode (tl e) d \<noteq> []"
      using explode_loop_length [of "explode_count (tl e) d" "tl e" d] explode_count_pos [of "tl e" d]
      unfolding explode_def by (metis length_greater_0_conv)
    then have "join d (explode s d) = ?p @ d # tl e" using 1 [OF Some] ex by (simp add: join_Cons)
    moreover have "d \<notin> set ?p" by (auto dest: set_takeWhileD)
    ultimately show ?thesis using 1 [OF Some] ex strchr_split [OF Some] by simp
  qed
qed

text \<open>The loop over a query of the form TokenGen produces.\<close>

definition plain :: "string \<Rightarrow> bool" where
  "plain s \<longleftrightarrow> s \<noteq> [] \<and> CHR ''&'' \<notin> set s \<and> CHR ''='' \<notin> set s"

lemma strtok_plain: "plain t \<Longrightarrow> d \<in> {CHR ''&'', CHR ''=''} \<Longrightarrow> strtok ''&='' (t @ d # r) = Some (t, r)"
  by (rule strtok_clean) (auto simp: plain_def)

lemma strtok_plain_end: "plain t \<Longrightarrow> strtok ''&='' t = Some (t, [])"
  by (rule strtok_last) (auto simp: plain_def)

definition signed_query :: "string \<Rightarrow> string \<Rightarrow> string \<Rightarrow> string" where
  "signed_query qlim h t = ''limit='' @ qlim @ ''&hash='' @ h @ ''&token='' @ t"

lemma verify_loop_signed:
  assumes "plain qlim" "qlim \<noteq> ''token''" "qlim \<noteq> ''hash''" "plain h" "plain t" "length h < 100" "length t < 100"
  shows "verify_loop (strtok ''&='' (signed_query qlim h t)) None None = Inr (Some t, Some h)"
proof -
  let ?q3 = "''token'' @ CHR ''='' # t"
  let ?q2 = "''hash'' @ CHR ''='' # h @ CHR ''&'' # ?q3"
  have q: "signed_query qlim h t = ''limit'' @ CHR ''='' # qlim @ CHR ''&'' # ?q2"
    by (simp add: signed_query_def)
  have kw: "plain ''limit''" "plain ''hash''" "plain ''token''" by (simp_all add: plain_def)
  have s1: "strtok ''&='' (signed_query qlim h t) = Some (''limit'', qlim @ CHR ''&'' # ?q2)"
    unfolding q by (rule strtok_plain [OF kw(1)]) simp
  have s2: "strtok ''&='' (qlim @ CHR ''&'' # ?q2) = Some (qlim, ?q2)"
    by (rule strtok_plain [OF assms(1)]) simp
  have s3: "strtok ''&='' ?q2 = Some (''hash'', h @ CHR ''&'' # ?q3)"
    by (rule strtok_plain [OF kw(2)]) simp
  have s4: "strtok ''&='' (h @ CHR ''&'' # ?q3) = Some (h, ?q3)"
    by (rule strtok_plain [OF assms(4)]) simp
  have s5: "strtok ''&='' ?q3 = Some (''token'', t)"
    by (rule strtok_plain [OF kw(3)]) simp
  have s6: "strtok ''&='' t = Some (t, [])" by (rule strtok_plain_end [OF assms(5)])
  have "verify_loop (strtok ''&='' (signed_query qlim h t)) None None = verify_loop (Some (qlim, ?q2)) None None"
    unfolding s1 by (subst verify_loop.simps) (simp only: option.case prod.case s2, simp)
  also have "\<dots> = verify_loop (Some (''hash'', h @ CHR ''&'' # ?q3)) None None"
    using assms(2,3) by (subst verify_loop.simps) (simp only: option.case prod.case s3 simp_thms if_False)
  also have "\<dots> = verify_loop (Some (''token'', t)) None (Some h)"
    using assms(6) by (subst verify_loop.simps) (simp only: option.case prod.case s4 s5, simp)
  also have "\<dots> = verify_loop None (Some t) (Some h)"
    using assms(7) by (subst verify_loop.simps) (simp only: option.case prod.case s6, simp)
  finally show ?thesis by (simp add: verify_loop.simps)
qed

lemma hash_loop_string:
  fixes t :: string
  assumes "length (hmac SECRET_KEY t) = 16"
  shows "c_string (hash_loop 0 (take 16 (hmac SECRET_KEY t)) mem) = hex_string (hmac SECRET_KEY t)"
  using arg_cong [OF getHash_eq [of hmac t mem], of fst] assms by (simp add: getHash_def Let_def)

lemma verify_token_body_signed:
  assumes "plain qlim" "qlim \<noteq> ''token''" "qlim \<noteq> ''hash''" "plain h" "plain t"
    "length h < 100" "length t < 100" "length (signed_query qlim h t) < 300" "length (hmac SECRET_KEY t) = 16"
  shows "verify_token_body hmac (signed_query qlim h t) mem =
    Inr (if h = hex_string (hmac SECRET_KEY t) then 1 else 0)"
  using assms(8) verify_loop_signed [OF assms(1-7)] hash_loop_string [of hmac t mem] assms(9)
  by (auto simp: verify_token_body_def Let_def)

text \<open>The reports, for a path with at least four segments.\<close>

definition path4 :: "string list \<Rightarrow> string" where
  "path4 ps = concat (map (\<lambda>p. CHR ''/'' # p) ps)"

lemma strtok_slash:
  "p \<noteq> [] \<Longrightarrow> CHR ''/'' \<notin> set p \<Longrightarrow> strtok ''/'' (CHR ''/'' # p @ CHR ''/'' # r) = Some (p, r)"
  by (subst strtok_skip) (auto intro: strtok_clean)

lemma strtok_noslash:
  "p \<noteq> [] \<Longrightarrow> CHR ''/'' \<notin> set p \<Longrightarrow> strtok ''/'' (p @ CHR ''/'' # r) = Some (p, r)"
  by (auto intro: strtok_clean)

lemma url_class_path:
  assumes "\<forall>p \<in> {a, b, c, d}. p \<noteq> [] \<and> CHR ''/'' \<notin> set p" "length (path4 [a, b, c, d]) < 300"
  shows "url_class (path4 [a, b, c, d]) = Inr (if d = ''req1.php'' then ''0'' else ''1'')"
proof -
  let ?p2 = "c @ CHR ''/'' # d" let ?p1 = "b @ CHR ''/'' # ?p2"
  have q: "path4 [a, b, c, d] = CHR ''/'' # a @ CHR ''/'' # ?p1" by (simp add: path4_def)
  have s: "strtok ''/'' (CHR ''/'' # a @ CHR ''/'' # ?p1) = Some (a, ?p1)" "strtok ''/'' ?p1 = Some (b, ?p2)"
    "strtok ''/'' ?p2 = Some (c, d)" "strtok ''/'' d = Some (d, [])"
    using assms(1) by (auto intro: strtok_slash strtok_noslash strtok_last)
  have "strtok_nth 3 ''/'' (path4 [a, b, c, d]) = Some d"
    unfolding q using s by (simp add: eval_nat_numeral)
  with assms(2) show ?thesis by (simp add: url_class_def)
qed

lemma service_time:
  assumes "s1 * 1000000 + u1 \<le> s2 * 1000000 + u2" "s2 * 1000000 + u2 - (s1 * 1000000 + u1) < 2 ^ 63"
  shows "sint (time_us s2 u2 - time_us s1 u1) = s2 * 1000000 + u2 - (s1 * 1000000 + u1)"
proof -
  let ?d = "s2 * 1000000 + u2 - (s1 * 1000000 + u1)"
  have w: "time_us s2 u2 - time_us s1 u1 = (word_of_int ?d :: 64 word)"
    by (simp add: time_us_def)
  have "sint (word_of_int ?d :: 64 word) = ?d"
    using assms by (subst signed_of_int) (simp add: signed_take_bit_int_eq_self)
  with w show ?thesis by simp
qed

section \<open>Properties\<close>


definition con_sample :: tc_con where
  "con_sample = \<lparr>tc_path = ''/favicon.ico'', tc_path_raw = ''/favicon.ico'', tc_query = Some ''token=a'',
     tc_http_status = 0, tc_file_finished = 0, tc_start_time = 0, tc_bytes_written_cur_second = 0\<rparr>"

definition btp_sample :: btp where
  "btp_sample = \<lparr>bt_sockfd = 3, bt_buffr = [], bt_url = []\<rparr>"


text \<open>
  The check behind the \<open>return\<close>, were it reached, would do what tokens are for: a link of the form
  TokenGen issues is accepted exactly if its hash is the keyed digest of its token.
\<close>

lemma dead_check_accepts_exactly_signed:
  assumes "plain qlim" "qlim \<noteq> ''token''" "qlim \<noteq> ''hash''" "plain h" "plain t"
    "length h < 100" "length t < 100" "length (signed_query qlim h t) < 300" "length (hmac SECRET_KEY t) = 16"
  shows "verify_token_body hmac (signed_query qlim h t) mem =
    Inr (if h = fst (getHash hmac t (replicate 33 NUL)) then 1 else 0)"
  using verify_token_body_signed [of qlim h t hmac mem] assms getHash_eq [of hmac t "replicate 33 NUL"] by simp

lemma dead_check_accepts_exactly_signed_example:
  "verify_token_body (\<lambda>k d. replicate 16 0) (signed_query ''5'' ''0'' ''10.0.0.1'') (replicate 33 NUL) = Inr 0"
proof -
  have "''0'' \<noteq> hex_string (replicate 16 0)"
  proof
    assume "''0'' = hex_string (replicate 16 0)"
    then have "length ''0'' = length (hex_string (replicate 16 0))" by (rule arg_cong)
    then show False by (simp only: hex_string_length length_replicate) simp
  qed
  then show ?thesis
    using dead_check_accepts_exactly_signed [of "''5''" "''0''" "''10.0.0.1''" "\<lambda>k d. replicate 16 0" "replicate 33 NUL"]
      getHash_eq [of "\<lambda>k d. replicate 16 0" "''10.0.0.1''" "replicate 33 NUL"]
    by (simp add: plain_def signed_query_def)
qed

text \<open>
  \<open>explode\<close> cuts a string at every delimiter and loses nothing: its pieces, none of which contains
  the delimiter, joined again give the string.
\<close>

lemma explode_round_trip:
  "join d (explode s d) = s \<and> (\<forall>p \<in> set (explode s d). d \<notin> set p) \<and> length (explode s d) = explode_count s d"
  using explode_pieces by (simp add: explode_def)

lemma explode_round_trip_example:
  "join (CHR ''|'') (explode ''a|b|'' (CHR ''|'')) = ''a|b|''"
  using explode_round_trip [of "CHR ''|''" "''a|b|''"] by simp

text \<open>
  C16. The capacity estimator learns of every request: for a path of four segments the arrival and the
  departure carry the same class of URL, the departure the time between both in microseconds, or \<open>F\<close>
  for a request that failed.
\<close>

theorem arrival_and_departure_reports:
  assumes "\<forall>p \<in> {a, b, c, d}. p \<noteq> [] \<and> CHR ''/'' \<notin> set p" "length (path4 [a, b, c, d]) < 300"
    and "tc_path_raw con = path4 [a, b, c, d]" "\<not> contains (tc_path con) ''favicon''"
    and "u = (if d = ''req1.php'' then ''0'' else ''1'')"
    and "s1 * 1000000 + u1 \<le> s2 * 1000000 + u2" "s2 * 1000000 + u2 - (s1 * 1000000 + u1) < 2 ^ 63"
    and "mod_status_handler (s1, u1) conf con bt = Inr (r, sent, con', bt')"
  shows "sent = ''A_'' @ u @ [newline] \<and>
    (\<exists>p' bt''. mod_status_account (s2, u2) (con'\<lparr>tc_http_status := st\<rparr>) p bt' =
       Inr ((if st = 200 then show_int (s2 * 1000000 + u2 - (s1 * 1000000 + u1)) else ''F'') @ ''_'' @ u @ [newline], p', bt'') \<and>
       pd_abs_requests p' = pd_abs_requests p + 1)"
proof -
  have u: "url_class (tc_path_raw con) = Inr u" using url_class_path [OF assms(1,2)] assms(3,5) by simp
  have h: "sent = ''A_'' @ u @ [newline]" "con' = con\<lparr>tc_start_time := time_us s1 u1\<rparr>"
    using assms(4,8) u by (auto simp: mod_status_handler_def verify_token_def inform_proxy1_arrival_def Let_def)
  have "sint (time_us s2 u2 - time_us s1 u1) = s2 * 1000000 + u2 - (s1 * 1000000 + u1)"
    using assms(6,7) by (rule service_time)
  with h assms(4) u show ?thesis
    by (simp add: mod_status_account_def inform_proxy1_departure_def Let_def)
qed

theorem arrival_and_departure_reports_witness:
  "\<exists>p' bt''. mod_status_account (3, 5) (con_sample\<lparr>tc_path := ''/a'', tc_path_raw := path4 [''a'', ''b'', ''c'', ''req1.php''],
      tc_start_time := time_us 1 0, tc_http_status := 200\<rparr>) (fst (mod_status_init 3 True True btp_sample)) (btp_sample\<lparr>bt_buffr := ''A_0'' @ [newline], bt_url := ''0''\<rparr>) =
     Inr (show_int 2000005 @ ''_0'' @ [newline], p', bt'') \<and> pd_abs_requests p' = 1"
proof -
  let ?con = "con_sample\<lparr>tc_path := ''/a'', tc_path_raw := path4 [''a'', ''b'', ''c'', ''req1.php'']\<rparr>"
  have len: "length (path4 [''a'', ''b'', ''c'', ''req1.php'']) < 300" by (simp add: path4_def)
  have ok: "\<forall>p \<in> {''a'', ''b'', ''c'', ''req1.php''}. p \<noteq> [] \<and> CHR ''/'' \<notin> set p" by simp
  have u: "url_class (path4 [''a'', ''b'', ''c'', ''req1.php'']) = Inr ''0''"
    using url_class_path [OF ok len] by simp
  have h: "mod_status_handler (1, 0) \<lparr>pc_config_url = [], pc_status_url = [], pc_statistics_url = []\<rparr> ?con btp_sample =
      Inr (HANDLER_GO_ON, ''A_0'' @ [newline], ?con\<lparr>tc_start_time := time_us 1 0\<rparr>,
           btp_sample\<lparr>bt_buffr := ''A_0'' @ [newline], bt_url := ''0''\<rparr>)"
    by (simp add: mod_status_handler_def verify_token_def inform_proxy1_arrival_def u Let_def)
  have p0: "pd_abs_requests (fst (mod_status_init 3 True True btp_sample)) = 0" by (simp add: mod_status_init_def)
  show ?thesis
    using arrival_and_departure_reports [OF ok len _ _ refl _ _ h, of 3 5 200 "fst (mod_status_init 3 True True btp_sample)"]
    by (simp add: p0)
qed

end
