(* ===== verification/Lt_Buffer.thy ===== *)
theory Lt_Buffer
  imports Wire
begin

unbundle bit_operations_syntax

text \<open>
  The string buffers of the web server TokenCheck is built into (\<open>buffer.c\<close>): a block of memory, how
  many bytes of it are allocated and how many are in use, the terminating NUL included. Memory comes
  uninitialised from the allocator, so a cell is a byte or nothing; a write outside the block is the
  fault \<open>BufferOverflow\<close>, a read of an unwritten cell \<open>UninitRead\<close>. Sizes are natural numbers: a block
  of $2^{63}$ bytes cannot be allocated. The check for a null buffer, which returns -1, is left out;
  a null string is \<open>None\<close>.
\<close>

section \<open>Blocks of memory\<close>

type_synonym bytes = "byte list"
type_synonym cells = "byte option list"

record buffer =
  bf_ptr :: cells
  bf_used :: nat
  bf_size :: nat

definition blit :: "nat \<Rightarrow> bytes \<Rightarrow> cells \<Rightarrow> cells res" where
  "blit pos s mem =
     (if pos + length s \<le> length mem
      then Inr (take pos mem @ map Some s @ drop (pos + length s) mem) else Inl BufferOverflow)"

definition round_piece :: "nat \<Rightarrow> nat" where
  "round_piece n = n + (64 - n mod 64)"

text \<open>The C string at the start of a block.\<close>

fun cstr :: "cells \<Rightarrow> bytes res" where
  "cstr [] = Inl OutOfBounds"
| "cstr (None # m) = Inl UninitRead"
| "cstr (Some b # m) = (if b = 0 then Inr [] else bindR (cstr m) (\<lambda>s. Inr (b # s)))"

section \<open>Allocation\<close>

definition buffer_init :: buffer where
  "buffer_init = \<lparr>bf_ptr = [], bf_used = 0, bf_size = 0\<rparr>"

definition BUFFER_MAX_REUSE_SIZE :: nat where
  "BUFFER_MAX_REUSE_SIZE = 4 * 1024"

definition buffer_reset :: "buffer \<Rightarrow> buffer" where
  "buffer_reset b =
     (if bf_size b > BUFFER_MAX_REUSE_SIZE then b\<lparr>bf_ptr := [], bf_size := 0, bf_used := 0\<rparr>
      else b\<lparr>bf_used := 0\<rparr>)"

definition buffer_prepare_copy :: "buffer \<Rightarrow> nat \<Rightarrow> buffer" where
  "buffer_prepare_copy b n =
     (if bf_size b = 0 \<or> n > bf_size b
      then \<lparr>bf_ptr = replicate (round_piece n) None, bf_used = 0, bf_size = round_piece n\<rparr>
      else b\<lparr>bf_used := 0\<rparr>)"

definition buffer_prepare_append :: "buffer \<Rightarrow> nat \<Rightarrow> buffer" where
  "buffer_prepare_append b n =
     (if bf_size b = 0
      then \<lparr>bf_ptr = replicate (round_piece n) None, bf_used = 0, bf_size = round_piece n\<rparr>
      else if bf_used b + n > bf_size b
      then b\<lparr>bf_size := round_piece (bf_size b + n),
             bf_ptr := bf_ptr b @ replicate (round_piece (bf_size b + n) - bf_size b) None\<rparr>
      else b)"

section \<open>Copying and appending\<close>

definition buffer_copy_string_len :: "buffer \<Rightarrow> bytes option \<Rightarrow> nat \<Rightarrow> (int \<times> buffer) res" where
  "buffer_copy_string_len b s n =
     (case s of
        None \<Rightarrow> Inr (-1, b)
      | Some s \<Rightarrow>
          bindR (checkR (n \<le> length s) OutOfBounds) (\<lambda>_.
            let b = buffer_prepare_copy b (n + 1)
            in bindR (blit 0 (take n s) (bf_ptr b)) (\<lambda>m.
               bindR (blit n [0] m) (\<lambda>m. Inr (0, b\<lparr>bf_ptr := m, bf_used := n + 1\<rparr>)))))"

text \<open>A C string argument is its bytes before the NUL.\<close>

definition buffer_copy_string :: "buffer \<Rightarrow> bytes option \<Rightarrow> (int \<times> buffer) res" where
  "buffer_copy_string b s =
     (case s of
        None \<Rightarrow> Inr (-1, b)
      | Some s \<Rightarrow>
          let s_len = length s + 1; b = buffer_prepare_copy b s_len
          in bindR (blit 0 (s @ [0]) (bf_ptr b)) (\<lambda>m. Inr (0, b\<lparr>bf_ptr := m, bf_used := s_len\<rparr>)))"

text \<open>The first \<open>n\<close> bytes of a buffer's block.\<close>

definition read_cells :: "nat \<Rightarrow> cells \<Rightarrow> bytes res" where
  "read_cells n m =
     (if length m < n then Inl OutOfBounds
      else if None \<in> set (take n m) then Inl UninitRead else Inr (map the (take n m)))"

definition buffer_copy_string_buffer :: "buffer \<Rightarrow> buffer option \<Rightarrow> (int \<times> buffer) res" where
  "buffer_copy_string_buffer b src =
     (case src of
        None \<Rightarrow> Inr (-1, b)
      | Some src \<Rightarrow>
          if bf_used src = 0 then Inr (0, b\<lparr>bf_used := 0\<rparr>)
          else bindR (read_cells (bf_used src - 1) (bf_ptr src)) (\<lambda>s.
                 buffer_copy_string_len b (Some s) (bf_used src - 1)))"

definition buffer_init_buffer :: "buffer option \<Rightarrow> buffer res" where
  "buffer_init_buffer src = bindR (buffer_copy_string_buffer buffer_init src) (\<lambda>(_, b). Inr b)"

definition buffer_init_string :: "bytes option \<Rightarrow> buffer res" where
  "buffer_init_string s = bindR (buffer_copy_string buffer_init s) (\<lambda>(_, b). Inr b)"

definition bump :: "buffer \<Rightarrow> buffer" where
  "bump b = (if bf_used b = 0 then b\<lparr>bf_used := 1\<rparr> else b)"

definition buffer_append_string :: "buffer \<Rightarrow> bytes option \<Rightarrow> (int \<times> buffer) res" where
  "buffer_append_string b s =
     (case s of
        None \<Rightarrow> Inr (-1, b)
      | Some s \<Rightarrow>
          let s_len = length s; b = bump (buffer_prepare_append b (s_len + 1))
          in bindR (blit (bf_used b - 1) (s @ [0]) (bf_ptr b)) (\<lambda>m.
               Inr (0, b\<lparr>bf_ptr := m, bf_used := bf_used b + s_len\<rparr>)))"

definition buffer_append_string_rfill :: "buffer \<Rightarrow> bytes option \<Rightarrow> nat \<Rightarrow> (int \<times> buffer) res" where
  "buffer_append_string_rfill b s maxlen =
     (case s of
        None \<Rightarrow> Inr (-1, b)
      | Some s \<Rightarrow>
          let s_len = length s; b = bump (buffer_prepare_append b (maxlen + 1))
          in bindR (blit (bf_used b - 1) s (bf_ptr b)) (\<lambda>m.
             bindR (if maxlen > s_len
                    then blit (bf_used b - 1 + s_len) (replicate (maxlen - s_len) (char_byte (CHR '' ''))) m
                    else Inr m) (\<lambda>m.
             bindR (blit (bf_used b + maxlen - 1) [0] m) (\<lambda>m.
               Inr (0, b\<lparr>bf_ptr := m, bf_used := bf_used b + maxlen\<rparr>)))))"

definition buffer_append_string_len :: "buffer \<Rightarrow> bytes option \<Rightarrow> nat \<Rightarrow> (int \<times> buffer) res" where
  "buffer_append_string_len b s n =
     (case s of
        None \<Rightarrow> Inr (-1, b)
      | Some s \<Rightarrow>
          if n = 0 then Inr (0, b)
          else bindR (checkR (n \<le> length s) OutOfBounds) (\<lambda>_.
            let b = bump (buffer_prepare_append b (n + 1))
            in bindR (blit (bf_used b - 1) (take n s) (bf_ptr b)) (\<lambda>m.
               bindR (blit (bf_used b + n - 1) [0] m) (\<lambda>m.
                 Inr (0, b\<lparr>bf_ptr := m, bf_used := bf_used b + n\<rparr>)))))"

definition buffer_append_string_buffer :: "buffer \<Rightarrow> buffer option \<Rightarrow> (int \<times> buffer) res" where
  "buffer_append_string_buffer b src =
     (case src of
        None \<Rightarrow> Inr (-1, b)
      | Some src \<Rightarrow>
          if bf_used src = 0 then Inr (0, b)
          else bindR (read_cells (bf_used src - 1) (bf_ptr src)) (\<lambda>s.
                 buffer_append_string_len b (Some s) (bf_used src - 1)))"

definition buffer_append_memory :: "buffer \<Rightarrow> bytes option \<Rightarrow> nat \<Rightarrow> (int \<times> buffer) res" where
  "buffer_append_memory b s n =
     (case s of
        None \<Rightarrow> Inr (-1, b)
      | Some s \<Rightarrow>
          if n = 0 then Inr (0, b)
          else bindR (checkR (n \<le> length s) OutOfBounds) (\<lambda>_.
            let b = buffer_prepare_append b n
            in bindR (blit (bf_used b) (take n s) (bf_ptr b)) (\<lambda>m.
                 Inr (0, b\<lparr>bf_ptr := m, bf_used := bf_used b + n\<rparr>))))"

definition buffer_copy_memory :: "buffer \<Rightarrow> bytes option \<Rightarrow> nat \<Rightarrow> (int \<times> buffer) res" where
  "buffer_copy_memory b s n =
     (case s of None \<Rightarrow> Inr (-1, b) | Some _ \<Rightarrow> buffer_append_memory (b\<lparr>bf_used := 0\<rparr>) s n)"

section \<open>Comparing and searching\<close>

definition buffer_is_empty :: "buffer \<Rightarrow> int" where
  "buffer_is_empty b = (if bf_used b = 0 then 1 else 0)"

definition buffer_is_equal :: "buffer \<Rightarrow> buffer \<Rightarrow> int res" where
  "buffer_is_equal a b =
     (if bf_used a \<noteq> bf_used b then Inr 0
      else if bf_used a = 0 then Inr 1
      else bindR (cstr (bf_ptr a)) (\<lambda>s. bindR (cstr (bf_ptr b)) (\<lambda>t. Inr (if s = t then 1 else 0))))"

definition buffer_is_equal_string :: "buffer \<Rightarrow> bytes \<Rightarrow> nat \<Rightarrow> int res" where
  "buffer_is_equal_string a s b_len =
     buffer_is_equal a \<lparr>bf_ptr = map Some (s @ [0]), bf_used = b_len + 1, bf_size = 0\<rparr>"

fun search_loop :: "nat \<Rightarrow> cells \<Rightarrow> nat \<Rightarrow> bytes \<Rightarrow> nat option res" where
  "search_loop 0 m i needle = Inr None"
| "search_loop (Suc k) m i needle =
     bindR (read_cells (length needle) m) (\<lambda>w.
       if w = needle then Inr (Some i) else search_loop k (drop 1 m) (Suc i) needle)"

definition buffer_search_string_len :: "buffer \<Rightarrow> bytes option \<Rightarrow> nat \<Rightarrow> nat option res" where
  "buffer_search_string_len b needle len =
     (if len = 0 then Inr None
      else case needle of
        None \<Rightarrow> Inr None
      | Some s \<Rightarrow>
          if bf_used b < len then Inr None
          else bindR (checkR (len \<le> length s) OutOfBounds) (\<lambda>_.
                 search_loop (bf_used b - len) (bf_ptr b) 0 (take len s)))"

text \<open>
  \<open>strncmp\<close> of the last \<open>len\<close> bytes, which stops at a common NUL. The second length test repeats the first
  buffer, so a second buffer that is too short is read before its start.
\<close>

definition buffer_is_equal_right_len :: "buffer \<Rightarrow> buffer \<Rightarrow> nat \<Rightarrow> int res" where
  "buffer_is_equal_right_len b1 b2 len =
     (if len = 0 then Inr 1
      else if bf_used b1 = 0 \<or> bf_used b2 = 0 then Inr 0
      else if bf_used b1 - 1 < len \<or> bf_used b1 - 1 < len then Inr 0
      else if bf_used b2 - 1 < len then Inl OutOfBounds
      else bindR (read_cells len (drop (bf_used b1 - 1 - len) (bf_ptr b1))) (\<lambda>s.
           bindR (read_cells len (drop (bf_used b2 - 1 - len) (bf_ptr b2))) (\<lambda>t.
             Inr (if takeWhile (\<lambda>c. c \<noteq> 0) s = takeWhile (\<lambda>c. c \<noteq> 0) t then 1 else 0))))"

text \<open>
  \<open>buffer_caseless_compare\<close>: if both pointers are aligned, equal words of eight bytes are skipped
  first; then bytes are compared, as signed characters.
\<close>

definition fold_case :: "byte \<Rightarrow> byte \<Rightarrow> int" where
  "fold_case a1 b1 =
     (let up = (\<lambda>c :: byte. 65 \<le> sint c \<and> sint c \<le> 90); lo = (\<lambda>c :: byte. 97 \<le> sint c \<and> sint c \<le> 122)
      in if a1 \<noteq> b1
         then (if up a1 \<and> lo b1 then sint (a1 OR 32) - sint b1
               else if lo a1 \<and> up b1 then sint a1 - sint (b1 OR 32)
               else sint a1 - sint b1)
         else 0)"

fun caseless_bytes :: "bytes \<Rightarrow> bytes \<Rightarrow> int option" where
  "caseless_bytes (a # as) (b # bs) =
     (if fold_case a b \<noteq> 0 then Some (fold_case a b) else caseless_bytes as bs)"
| "caseless_bytes _ _ = None"

function skip_words :: "nat \<Rightarrow> bytes \<Rightarrow> bytes \<Rightarrow> bytes \<times> bytes" where
  "skip_words n a b =
     (if 8 \<le> n \<and> take 8 a = take 8 b then skip_words (n - 8) (drop 8 a) (drop 8 b) else (a, b))"
  by pat_completeness auto
termination by (relation "measure (\<lambda>(n, a, b). n)") auto

declare skip_words.simps [simp del]

definition buffer_caseless_compare :: "bool \<Rightarrow> bytes \<Rightarrow> bytes \<Rightarrow> int" where
  "buffer_caseless_compare aligned a b =
     (let (a', b') = (if aligned then skip_words (min (length a) (length b)) a b else (a, b))
      in case caseless_bytes a' b' of
           Some r \<Rightarrow> r
         | None \<Rightarrow> if length a = length b then 0 else wrap32 (int (length a) - int (length b)))"

section \<open>Arrays of buffers\<close>

record buffer_array =
  ba_ptr :: "buffer option list"
  ba_used :: nat
  ba_size :: nat

definition buffer_array_init :: buffer_array where
  "buffer_array_init = \<lparr>ba_ptr = [], ba_used = 0, ba_size = 0\<rparr>"

text \<open>A null entry below \<open>used\<close> is skipped by the null check of \<open>buffer_reset\<close>.\<close>

definition buffer_array_reset :: "buffer_array \<Rightarrow> buffer_array" where
  "buffer_array_reset a =
     a\<lparr>ba_ptr := map (map_option buffer_reset) (take (ba_used a) (ba_ptr a)) @ drop (ba_used a) (ba_ptr a),
       ba_used := 0\<rparr>"

text \<open>The position of the buffer it returns, and the array.\<close>

definition buffer_array_append_get_buffer :: "buffer_array \<Rightarrow> (nat \<times> buffer_array) res" where
  "buffer_array_append_get_buffer a =
     (let a = (if ba_size a = 0 then a\<lparr>ba_size := 16, ba_ptr := replicate 16 None\<rparr>
               else if ba_size a = ba_used a
               then a\<lparr>ba_size := ba_size a + 16, ba_ptr := take (ba_used a) (ba_ptr a) @ replicate 16 None\<rparr>
               else a);
          i = ba_used a
      in bindR (checkR (i < length (ba_ptr a)) OutOfBounds) (\<lambda>_.
           let b = (case ba_ptr a ! i of None \<Rightarrow> buffer_init | Some b \<Rightarrow> b)
           in Inr (i, a\<lparr>ba_ptr := (ba_ptr a)[i := Some (b\<lparr>bf_used := 0\<rparr>)], ba_used := i + 1\<rparr>)))"

section \<open>The string a buffer holds\<close>

definition buf_ok :: "buffer \<Rightarrow> bool" where
  "buf_ok b \<longleftrightarrow> bf_size b = length (bf_ptr b) \<and> bf_used b \<le> bf_size b"

definition holds :: "buffer \<Rightarrow> bytes \<Rightarrow> bool" where
  "holds b s \<longleftrightarrow> buf_ok b \<and>
     (bf_used b = 0 \<and> s = [] \<or>
      bf_used b = length s + 1 \<and> take (length s + 1) (bf_ptr b) = map Some (s @ [0]))"

lemma round_piece_ge: "n < round_piece n"
proof -
  have "n mod 64 < 64" by simp
  then show ?thesis unfolding round_piece_def by linarith
qed

lemma buffer_init_holds [simp]: "holds buffer_init []"
  by (simp add: holds_def buffer_init_def buf_ok_def)

lemma prepare_copy_spec:
  "buf_ok b \<Longrightarrow> buf_ok (buffer_prepare_copy b n) \<and> bf_used (buffer_prepare_copy b n) = 0 \<and>
     n \<le> bf_size (buffer_prepare_copy b n)"
  using round_piece_ge [of n] by (auto simp: buffer_prepare_copy_def buf_ok_def)

lemma prepare_append_spec:
  assumes "buf_ok b"
  shows "buf_ok (buffer_prepare_append b n) \<and> bf_used (buffer_prepare_append b n) = bf_used b \<and>
    bf_used b + n \<le> bf_size (buffer_prepare_append b n) \<and>
    take (bf_used b) (bf_ptr (buffer_prepare_append b n)) = take (bf_used b) (bf_ptr b)"
  using assms round_piece_ge [of n] round_piece_ge [of "bf_size b + n"]
  by (auto simp: buffer_prepare_append_def buf_ok_def)

lemma blit_ok: "pos + length s \<le> length m \<Longrightarrow>
    blit pos s m = Inr (take pos m @ map Some s @ drop (pos + length s) m)"
  by (simp add: blit_def)

lemma blit_length: "blit pos s m = Inr m' \<Longrightarrow> length m' = length m"
  by (auto simp: blit_def split: if_splits)

text \<open>Writing a string and its NUL in two steps.\<close>

lemma blit_string:
  assumes "pos + length s + 1 \<le> length m"
  shows "\<exists>m'. bindR (blit pos s m) (blit (pos + length s) [0]) = Inr m' \<and> length m' = length m \<and>
    take (pos + length s + 1) m' = take pos m @ map Some (s @ [0])"
  using assms by (simp add: blit_def)

lemma copy_string_len_spec:
  assumes "buf_ok b" "n \<le> length s"
  shows "\<exists>b'. buffer_copy_string_len b (Some s) n = Inr (0, b') \<and> holds b' (take n s)"
proof -
  let ?b = "buffer_prepare_copy b (n + 1)"
  have p: "buf_ok ?b" "n + 1 \<le> length (bf_ptr ?b)"
    using prepare_copy_spec [OF assms(1), of "n + 1"] by (auto simp: buf_ok_def)
  obtain m' where m': "bindR (blit 0 (take n s) (bf_ptr ?b)) (blit n [0]) = Inr m'"
    "length m' = length (bf_ptr ?b)" "take (n + 1) m' = map Some (take n s @ [0])"
    using blit_string [of 0 "take n s" "bf_ptr ?b"] p(2) assms(2) by auto
  then have "buffer_copy_string_len b (Some s) n = Inr (0, ?b\<lparr>bf_ptr := m', bf_used := n + 1\<rparr>)"
    using assms(2) by (auto simp: buffer_copy_string_len_def Let_def bindR_eq_Inr)
  moreover have "holds (?b\<lparr>bf_ptr := m', bf_used := n + 1\<rparr>) (take n s)"
    using p m' assms(2) by (simp add: holds_def buf_ok_def)
  ultimately show ?thesis by blast
qed

text \<open>The position at which an append starts, and what is in front of it.\<close>

lemma append_start:
  assumes "holds b s"
  shows "buf_ok (bump (buffer_prepare_append b (n + 1))) \<and>
    bf_used (bump (buffer_prepare_append b (n + 1))) = length s + 1 \<and>
    length s + n + 1 \<le> length (bf_ptr (bump (buffer_prepare_append b (n + 1)))) \<and>
    take (length s) (bf_ptr (bump (buffer_prepare_append b (n + 1)))) = map Some s"
proof -
  let ?b = "buffer_prepare_append b (n + 1)"
  have ok: "buf_ok b" using assms by (simp add: holds_def)
  note sp = prepare_append_spec [OF ok, of "n + 1"]
  from assms consider "bf_used b = 0" "s = []"
    | "bf_used b = length s + 1" "take (length s + 1) (bf_ptr b) = map Some (s @ [0])"
    by (auto simp: holds_def)
  then show ?thesis
  proof cases
    case 1
    then show ?thesis using sp by (auto simp: bump_def buf_ok_def)
  next
    case 2
    then have "take (length s) (take (length s + 1) (bf_ptr ?b)) = map Some s" using sp by simp
    then have "take (length s) (bf_ptr ?b) = map Some s" by simp
    with 2 sp show ?thesis by (auto simp: bump_def buf_ok_def)
  qed
qed

lemma append_string_len_spec:
  assumes "holds b s" "n \<le> length t"
  shows "\<exists>b'. buffer_append_string_len b (Some t) n = Inr (0, b') \<and> holds b' (s @ take n t)"
proof (cases "n = 0")
  case True
  with assms show ?thesis by (simp add: buffer_append_string_len_def)
next
  case False
  let ?b = "bump (buffer_prepare_append b (n + 1))"
  note st = append_start [OF assms(1), of n]
  obtain m' where m': "bindR (blit (length s) (take n t) (bf_ptr ?b)) (blit (length s + n) [0]) = Inr m'"
    "length m' = length (bf_ptr ?b)" "take (length s + n + 1) m' = map Some (s @ take n t @ [0])"
    using blit_string [of "length s" "take n t" "bf_ptr ?b"] st assms(2) by auto
  have u: "bf_used ?b = length s + 1" using st by simp
  have "buffer_append_string_len b (Some t) n = Inr (0, ?b\<lparr>bf_ptr := m', bf_used := bf_used ?b + n\<rparr>)"
    using m'(1) False assms(2) u by (auto simp: buffer_append_string_len_def Let_def bindR_eq_Inr)
  moreover have "holds (?b\<lparr>bf_ptr := m', bf_used := bf_used ?b + n\<rparr>) (s @ take n t)"
    using st m' assms(2) by (simp add: holds_def buf_ok_def)
  ultimately show ?thesis by blast
qed

lemma append_string_spec:
  assumes "holds b s"
  shows "\<exists>b'. buffer_append_string b (Some t) = Inr (0, b') \<and> holds b' (s @ t)"
proof -
  let ?b = "bump (buffer_prepare_append b (length t + 1))"
  let ?m = "take (length s) (bf_ptr ?b) @ map Some (t @ [0]) @ drop (length s + length (t @ [0])) (bf_ptr ?b)"
  note st = append_start [OF assms, of "length t"]
  then have bl: "blit (bf_used ?b - 1) (t @ [0]) (bf_ptr ?b) = Inr ?m" by (simp add: blit_def)
  have "buffer_append_string b (Some t) = Inr (0, ?b\<lparr>bf_ptr := ?m, bf_used := bf_used ?b + length t\<rparr>)"
    using bl by (simp add: buffer_append_string_def Let_def)
  moreover have "holds (?b\<lparr>bf_ptr := ?m, bf_used := bf_used ?b + length t\<rparr>) (s @ t)"
    using st by (simp add: holds_def buf_ok_def) linarith
  ultimately show ?thesis by blast
qed

section \<open>The interface of a text buffer\<close>

text \<open>
  Something that represents a text and to which pieces of a certain kind can be appended; any
  sequence of such pieces then arrives in full and in order.
\<close>

locale text_buffer =
  fixes repr :: "'b \<Rightarrow> bytes \<Rightarrow> bool" and app :: "bytes \<Rightarrow> 'b \<Rightarrow> 'b res" and piece :: "bytes \<Rightarrow> bool"
  assumes app_ok: "repr b s \<Longrightarrow> piece t \<Longrightarrow> \<exists>b'. app t b = Inr b' \<and> repr b' (s @ t)"
begin

fun apps :: "bytes list \<Rightarrow> 'b \<Rightarrow> 'b res" where
  "apps [] b = Inr b"
| "apps (t # ts) b = bindR (app t b) (apps ts)"

lemma apps_ok: "repr b s \<Longrightarrow> \<forall>t \<in> set ts. piece t \<Longrightarrow> \<exists>b'. apps ts b = Inr b' \<and> repr b' (s @ concat ts)"
proof (induction ts arbitrary: b s)
  case (Cons t ts)
  obtain b1 where "app t b = Inr b1" "repr b1 (s @ t)" using app_ok [OF Cons.prems(1), of t] Cons.prems(2) by auto
  with Cons.IH [of b1 "s @ t"] Cons.prems(2) show ?case by auto
qed auto

end

definition append_len :: "bytes \<Rightarrow> buffer \<Rightarrow> buffer res" where
  "append_len t b = bindR (buffer_append_string_len b (Some t) (length t)) (\<lambda>(_, b). Inr b)"

definition append_str :: "bytes \<Rightarrow> buffer \<Rightarrow> buffer res" where
  "append_str t b = bindR (buffer_append_string b (Some t)) (\<lambda>(_, b). Inr b)"

interpretation lenbuf: text_buffer holds append_len "\<lambda>_. True"
proof
  fix b s t
  assume "holds b s"
  from append_string_len_spec [OF this, of "length t" t] show "\<exists>b'. append_len t b = Inr b' \<and> holds b' (s @ t)"
    by (auto simp: append_len_def)
qed

interpretation strbuf: text_buffer holds append_str "\<lambda>_. True"
proof
  fix b s t
  assume "holds b s"
  from append_string_spec [OF this, of t] show "\<exists>b'. append_str t b = Inr b' \<and> holds b' (s @ t)"
    by (auto simp: append_str_def)
qed

end
