(* ===== verification/Lt_Codec.thy ===== *)
theory Lt_Codec
  imports Lt_Buffer
begin

unbundle bit_operations_syntax

text \<open>
  Text conversions of \<open>buffer.c\<close>: numbers, hexadecimal digits, the encodings of a string for URIs,
  HTML and headers, the decoding of URLs, the simplification of paths and the case of letters. Loops
  that read a C string and write it back in place never write ahead of what they read, and are
  functions on the bytes before the NUL.
\<close>

section \<open>Numbers\<close>

definition hex_chars :: bytes where
  "hex_chars = map char_byte ''0123456789abcdef''"

text \<open>
  \<open>LI_ltostr\<close>: the digits of \<open>val\<close>, least significant first, then swapped into place; the NUL it
  writes behind them is left to its callers here. The negation wraps at the smallest \<open>long\<close>.
\<close>

fun ltostr_digits :: "nat \<Rightarrow> bytes" where
  "ltostr_digits v = (if v > 9 then word_of_nat (48 + v mod 10) # ltostr_digits (v div 10) else [word_of_nat (48 + v)])"

declare ltostr_digits.simps [simp del]

function swap_loop :: "nat \<Rightarrow> nat \<Rightarrow> 'a list \<Rightarrow> 'a list" where
  "swap_loop i j m = (if i < j then swap_loop (Suc i) (j - 1) (m[j := m ! i, i := m ! j]) else m)"
  by pat_completeness auto
termination by (relation "measure (\<lambda>(i, j, m). j - i)") auto

declare swap_loop.simps [simp del]

definition LI_ltostr :: "int \<Rightarrow> bytes" where
  "LI_ltostr val =
     (let neg = val < 0; v = (if neg then wrap64 (- val) else val);
          ds = (if v > 9 then ltostr_digits (nat v) else [word_of_int (48 + v)])
      in (if neg then [char_byte (CHR ''-'')] else []) @ swap_loop 0 (length ds - 1) ds)"

definition buffer_append_long :: "buffer \<Rightarrow> int \<Rightarrow> (int \<times> buffer) res" where
  "buffer_append_long b val =
     (let b = bump (buffer_prepare_append b 32); s = LI_ltostr val
      in bindR (blit (bf_used b - 1) (s @ [0]) (bf_ptr b)) (\<lambda>m.
           Inr (0, b\<lparr>bf_ptr := m, bf_used := bf_used b + length s\<rparr>)))"

definition buffer_copy_long :: "buffer \<Rightarrow> int \<Rightarrow> (int \<times> buffer) res" where
  "buffer_copy_long b val = buffer_append_long (b\<lparr>bf_used := 0\<rparr>) val"

text \<open>Where \<open>off_t\<close> is wider than \<open>long\<close>, the same code again inside the buffer.\<close>

definition buffer_append_off_t :: "buffer \<Rightarrow> int \<Rightarrow> (int \<times> buffer) res" where
  "buffer_append_off_t b val =
     (let b = bump (buffer_prepare_append b 32); neg = val < 0; v = (if neg then wrap64 (- val) else val);
          ds = (if v > 9 then ltostr_digits (nat v) else [word_of_int (48 + v)]);
          s = (if neg then [char_byte (CHR ''-'')] else []) @ swap_loop 0 (length ds - 1) ds
      in bindR (blit (bf_used b - 1) (s @ [0]) (bf_ptr b)) (\<lambda>m.
           Inr (0, b\<lparr>bf_ptr := m, bf_used := bf_used b + length s\<rparr>)))"

definition buffer_copy_off_t :: "buffer \<Rightarrow> int \<Rightarrow> (int \<times> buffer) res" where
  "buffer_copy_off_t b val = buffer_append_off_t (b\<lparr>bf_used := 0\<rparr>) val"

text \<open>The number of hexadecimal digits, made even, and the digits from the most significant on.\<close>

fun nibbles :: "nat \<Rightarrow> nat" where
  "nibbles v = (if v = 0 then 0 else Suc (nibbles (v div 16)))"

declare nibbles.simps [simp del]

definition hex_shift :: "nat \<Rightarrow> nat" where
  "hex_shift v = (let s = nibbles v; s = (if s = 0 then 1 else s) in if odd s then s + 1 else s)"

definition long_hex :: "64 word \<Rightarrow> bytes" where
  "long_hex v = map (\<lambda>k. hex_chars ! unat (drop_bit (4 * k) v AND 0x0F)) (rev [0..<hex_shift (unat v)])"

definition buffer_append_long_hex :: "buffer \<Rightarrow> 64 word \<Rightarrow> (int \<times> buffer) res" where
  "buffer_append_long_hex b v =
     (let s = long_hex v; b = bump (buffer_prepare_append b (length s + 1))
      in bindR (blit (bf_used b - 1) (s @ [0]) (bf_ptr b)) (\<lambda>m.
           Inr (0, b\<lparr>bf_ptr := m, bf_used := bf_used b + length s\<rparr>)))"

section \<open>Hexadecimal digits\<close>

definition int2hex :: "byte \<Rightarrow> byte" where
  "int2hex c = hex_chars ! unat (c AND 0x0F)"

definition hex2int :: "byte \<Rightarrow> byte" where
  "hex2int h =
     (let h = h - 48; h = (if h > 9 then ((h + 48 - 1) OR 0x20) - 97 + 11 else h)
      in if h > 15 then 0xFF else h)"

definition hex_pair :: "byte \<Rightarrow> bytes" where
  "hex_pair c = [hex_chars ! unat (drop_bit 4 c AND 0x0F), hex_chars ! unat (c AND 0x0F)]"

definition buffer_copy_string_hex :: "buffer \<Rightarrow> bytes \<Rightarrow> nat \<Rightarrow> (int \<times> buffer) res" where
  "buffer_copy_string_hex b s n =
     (if n * 2 mod 2 ^ 64 < n then Inr (-1, b)
      else bindR (checkR (n \<le> length s) OutOfBounds) (\<lambda>_.
        let b = buffer_prepare_copy b (n * 2 + 1); h = concat (map hex_pair (take n s)) @ [0]
        in bindR (blit 0 h (bf_ptr b)) (\<lambda>m. Inr (0, b\<lparr>bf_ptr := m, bf_used := length h\<rparr>))))"

section \<open>Encodings\<close>

datatype buffer_encoding_t =
    ENCODING_UNSET
  | ENCODING_REL_URI
  | ENCODING_REL_URI_PART
  | ENCODING_HTML
  | ENCODING_MINIMAL_XML
  | ENCODING_HEX
  | ENCODING_HTTP_HEADER

definition rows :: "nat \<Rightarrow> int \<Rightarrow> int list" where
  "rows n v = replicate (16 * n) v"

definition encoded_chars_rel_uri_part :: "int list" where
  "encoded_chars_rel_uri_part = rows 2 1 @
     [1, 0, 1, 1, 1, 1, 1, 1, 0, 0, 0, 1, 1, 0, 0, 1] @
     [0, 0, 0, 0, 0, 0, 0, 0, 0, 0, 1, 1, 1, 1, 1, 1] @ rows 3 0 @
     [0, 0, 0, 0, 0, 0, 0, 0, 0, 0, 0, 0, 0, 0, 0, 1] @ rows 8 1"

definition encoded_chars_rel_uri :: "int list" where
  "encoded_chars_rel_uri = rows 2 1 @
     [1, 0, 1, 1, 1, 1, 1, 1, 0, 0, 0, 1, 1, 0, 0, 0] @
     [0, 0, 0, 0, 0, 0, 0, 0, 0, 0, 1, 1, 1, 1, 1, 1] @ rows 3 0 @
     [0, 0, 0, 0, 0, 0, 0, 0, 0, 0, 0, 0, 0, 0, 0, 1] @ rows 8 1"

definition encoded_chars_html :: "int list" where
  "encoded_chars_html = rows 2 1 @
     [0, 0, 0, 0, 0, 0, 1, 0, 0, 0, 0, 0, 0, 0, 0, 0] @
     [0, 0, 0, 0, 0, 0, 0, 0, 0, 0, 0, 0, 1, 0, 1, 0] @ rows 3 0 @
     [0, 0, 0, 0, 0, 0, 0, 0, 0, 0, 0, 0, 0, 0, 0, 1] @ rows 8 1"

definition encoded_chars_minimal_xml :: "int list" where
  "encoded_chars_minimal_xml = rows 2 1 @
     [0, 0, 0, 0, 0, 0, 1, 0, 0, 0, 0, 0, 0, 0, 0, 0] @
     [0, 0, 0, 0, 0, 0, 0, 0, 0, 0, 0, 0, 1, 0, 1, 0] @ rows 3 0 @
     [0, 0, 0, 0, 0, 0, 0, 0, 0, 0, 0, 0, 0, 0, 0, 1] @ rows 8 0"

definition encoded_chars_hex :: "int list" where
  "encoded_chars_hex = rows 16 1"

definition encoded_chars_http_header :: "int list" where
  "encoded_chars_http_header = [0, 0, 0, 0, 0, 0, 0, 0, 0, 0, 1, 0, 0, 0, 0, 0] @ rows 15 0"

definition enc_map :: "buffer_encoding_t \<Rightarrow> int list option" where
  "enc_map e = (case e of
       ENCODING_UNSET \<Rightarrow> None
     | ENCODING_REL_URI \<Rightarrow> Some encoded_chars_rel_uri
     | ENCODING_REL_URI_PART \<Rightarrow> Some encoded_chars_rel_uri_part
     | ENCODING_HTML \<Rightarrow> Some encoded_chars_html
     | ENCODING_MINIMAL_XML \<Rightarrow> Some encoded_chars_minimal_xml
     | ENCODING_HEX \<Rightarrow> Some encoded_chars_hex
     | ENCODING_HTTP_HEADER \<Rightarrow> Some encoded_chars_http_header)"

text \<open>The first loop counts, the second writes.\<close>

definition enc_len :: "buffer_encoding_t \<Rightarrow> int list \<Rightarrow> byte \<Rightarrow> nat" where
  "enc_len e t c =
     (if t ! unat c \<noteq> 0
      then (case e of
              ENCODING_REL_URI \<Rightarrow> 3 | ENCODING_REL_URI_PART \<Rightarrow> 3
            | ENCODING_HTML \<Rightarrow> 6 | ENCODING_MINIMAL_XML \<Rightarrow> 6
            | ENCODING_HTTP_HEADER \<Rightarrow> 2 | ENCODING_HEX \<Rightarrow> 2 | ENCODING_UNSET \<Rightarrow> 0)
      else 1)"

definition enc_char :: "buffer_encoding_t \<Rightarrow> int list \<Rightarrow> byte \<Rightarrow> bytes" where
  "enc_char e t c =
     (if t ! unat c \<noteq> 0
      then (case e of
              ENCODING_REL_URI \<Rightarrow> char_byte (CHR ''%'') # hex_pair c
            | ENCODING_REL_URI_PART \<Rightarrow> char_byte (CHR ''%'') # hex_pair c
            | ENCODING_HTML \<Rightarrow> map char_byte ''&#x'' @ hex_pair c @ [char_byte (CHR '';'')]
            | ENCODING_MINIMAL_XML \<Rightarrow> map char_byte ''&#x'' @ hex_pair c @ [char_byte (CHR '';'')]
            | ENCODING_HEX \<Rightarrow> hex_pair c
            | ENCODING_HTTP_HEADER \<Rightarrow> [c, 9]
            | ENCODING_UNSET \<Rightarrow> [])
      else [c])"

definition buffer_append_string_encoded ::
  "buffer \<Rightarrow> bytes option \<Rightarrow> nat \<Rightarrow> buffer_encoding_t \<Rightarrow> (int \<times> buffer) res" where
  "buffer_append_string_encoded b s n e =
     (case s of
        None \<Rightarrow> Inr (-1, b)
      | Some s \<Rightarrow>
          if bf_used b = 0 then Inl OutOfBounds
          else bindR (get_at (bf_ptr b) (int (bf_used b) - 1)) (\<lambda>last.
            case last of
              None \<Rightarrow> Inl UninitRead
            | Some c \<Rightarrow>
                if c \<noteq> 0 then Inl Abort
                else if n = 0 then Inr (0, b)
                else case enc_map e of
                  None \<Rightarrow> Inl Abort
                | Some t \<Rightarrow>
                    bindR (checkR (n \<le> length s) OutOfBounds) (\<lambda>_.
                      let d_len = sum_list (map (enc_len e t) (take n s));
                          b = buffer_prepare_append b d_len;
                          d = concat (map (enc_char e t) (take n s))
                      in bindR (blit (bf_used b - 1) d (bf_ptr b)) (\<lambda>m.
                         bindR (blit (bf_used b + length d - 1) [0] m) (\<lambda>m.
                           Inr (0, b\<lparr>bf_ptr := m, bf_used := bf_used b + length d\<rparr>))))))"

section \<open>Decoding\<close>

definition peek :: "bytes \<Rightarrow> byte" where
  "peek s = (case s of [] \<Rightarrow> 0 | c # _ \<Rightarrow> c)"

function urldecode :: "bool \<Rightarrow> bytes \<Rightarrow> bytes" where
  "urldecode is_query [] = []"
| "urldecode is_query (c # cs) =
     (if is_query \<and> c = char_byte (CHR ''+'') then char_byte (CHR '' '') # urldecode is_query cs
      else if c = char_byte (CHR ''%'')
      then let high = hex2int (peek cs)
           in if high \<noteq> 0xFF
              then let low = hex2int (peek (drop 1 cs))
                   in if low \<noteq> 0xFF
                      then let v = push_bit 4 high OR low
                           in (if v < 32 \<or> v = 127 then char_byte (CHR ''_'') else v) # urldecode is_query (drop 2 cs)
                      else c # urldecode is_query cs
              else c # urldecode is_query cs
      else c # urldecode is_query cs)"
  by pat_completeness auto
termination by (relation "measure (\<lambda>(q, s). length s)") auto

definition buffer_urldecode_internal :: "buffer \<Rightarrow> bool \<Rightarrow> (int \<times> buffer) res" where
  "buffer_urldecode_internal url is_query =
     (if bf_ptr url = [] then Inr (-1, url)
      else bindR (cstr (bf_ptr url)) (\<lambda>s.
        let d = urldecode is_query s
        in bindR (blit 0 (d @ [0]) (bf_ptr url)) (\<lambda>m.
             Inr (0, url\<lparr>bf_ptr := m, bf_used := length d + 1\<rparr>))))"

definition buffer_urldecode_path :: "buffer \<Rightarrow> (int \<times> buffer) res" where
  "buffer_urldecode_path url = buffer_urldecode_internal url False"

definition buffer_urldecode_query :: "buffer \<Rightarrow> (int \<times> buffer) res" where
  "buffer_urldecode_query url = buffer_urldecode_internal url True"

section \<open>Paths\<close>

text \<open>
  \<open>buffer_path_simplify\<close>: \<open>m\<close> is the output so far with whatever older bytes lie behind \<open>out\<close>,
  \<open>slash\<close> the position where the current segment starts, \<open>pre\<close> the last two characters.
\<close>

fun back_to_slash :: "nat \<Rightarrow> bytes \<Rightarrow> nat" where
  "back_to_slash 0 m = 0"
| "back_to_slash (Suc k) m = (if m ! Suc k \<noteq> char_byte (CHR ''/'') then back_to_slash k m else Suc k)"

definition ps_segment :: "byte \<Rightarrow> 16 word \<Rightarrow> bytes \<Rightarrow> nat \<Rightarrow> nat \<Rightarrow> nat" where
  "ps_segment c pre m slash out =
     (if out - slash = 3 \<and> pre = 0x2E2E
      then (let p = (if slash > 0 then back_to_slash (slash - 1) m else slash)
            in if c = 0 then Suc p else p)
      else if out - slash = 1 \<or> pre = 0x2F2E
      then (if c = 0 then Suc slash else slash)
      else out)"

function ps_loop :: "byte \<Rightarrow> 16 word \<Rightarrow> bytes \<Rightarrow> nat \<Rightarrow> nat \<Rightarrow> bytes \<Rightarrow> bytes" where
  "ps_loop c pre m slash out walk =
     (let brk = (c = char_byte (CHR ''/'') \<or> c = 0);
          out = (if brk then ps_segment c pre m slash out else out);
          slash = (if brk then out else slash)
      in if c = 0 then take out m
         else ps_loop (peek walk) (push_bit 8 pre OR scast c) (take out m @ c # drop (Suc out) m)
                slash (Suc out) (tl walk))"
  by pat_completeness auto
termination
  by (relation "measure (\<lambda>(c, pre, m, slash, out, walk). if c = 0 then 0 else Suc (length walk))")
     (auto simp: peek_def split: list.splits)

declare ps_loop.simps [simp del]

text \<open>
  The bytes of the simplified path and the value of \<open>used\<close>. On an empty path the final NUL is counted
  twice.
\<close>

definition path_simplify :: "bytes \<Rightarrow> bytes \<times> nat" where
  "path_simplify w =
     (let w = dropWhile (\<lambda>c. c = char_byte (CHR '' '')) w;
          pre1 = peek w; c = peek (tl w);
          sl = char_byte (CHR ''/'');
          pre = (if pre1 \<noteq> sl then 0x2F00 OR scast pre1 else scast pre1) :: 16 word;
          m = (if pre1 \<noteq> sl then [sl, pre1] else [pre1])
      in if pre1 = 0 then ([sl], length m + 1)
         else let r = ps_loop c pre m 0 (length m) (tl (tl w)) in (r, length r + 1))"

definition buffer_path_simplify :: "buffer option \<Rightarrow> buffer \<Rightarrow> (int \<times> buffer) res" where
  "buffer_path_simplify dest src =
     (if bf_ptr src = [] then Inr (-1, case dest of None \<Rightarrow> src | Some d \<Rightarrow> d)
      else bindR (cstr (bf_ptr src)) (\<lambda>w.
        let d = (case dest of None \<Rightarrow> buffer_prepare_append src 1
                 | Some d \<Rightarrow> buffer_prepare_copy d (bf_used src + 1));
            (r, u) = path_simplify w
        in bindR (blit 0 (r @ [0]) (bf_ptr d)) (\<lambda>m. Inr (0, d\<lparr>bf_ptr := m, bf_used := u\<rparr>))))"

section \<open>Characters\<close>

definition light_isdigit :: "int \<Rightarrow> bool" where
  "light_isdigit c \<longleftrightarrow> 48 \<le> c \<and> c \<le> 57"

definition light_isxdigit :: "int \<Rightarrow> bool" where
  "light_isxdigit c \<longleftrightarrow> light_isdigit c \<or> (let c = c OR 32 in 97 \<le> c \<and> c \<le> 102)"

definition light_isalpha :: "int \<Rightarrow> bool" where
  "light_isalpha c \<longleftrightarrow> (let c = c OR 32 in 97 \<le> c \<and> c \<le> 122)"

definition light_isalnum :: "int \<Rightarrow> bool" where
  "light_isalnum c \<longleftrightarrow> light_isdigit c \<or> light_isalpha c"

definition to_lower_byte :: "byte \<Rightarrow> byte" where
  "to_lower_byte c = (if 65 \<le> sint c \<and> sint c \<le> 90 then c OR 32 else c)"

definition to_upper_byte :: "byte \<Rightarrow> byte" where
  "to_upper_byte c = (if 97 \<le> sint c \<and> sint c \<le> 122 then c AND NOT 32 else c)"

definition buffer_map :: "(byte \<Rightarrow> byte) \<Rightarrow> buffer \<Rightarrow> (int \<times> buffer) res" where
  "buffer_map f b =
     (if bf_used b = 0 then Inr (0, b)
      else bindR (cstr (bf_ptr b)) (\<lambda>s.
             bindR (blit 0 (map f s) (bf_ptr b)) (\<lambda>m. Inr (0, b\<lparr>bf_ptr := m\<rparr>))))"

definition buffer_to_lower :: "buffer \<Rightarrow> (int \<times> buffer) res" where
  "buffer_to_lower b = buffer_map to_lower_byte b"

definition buffer_to_upper :: "buffer \<Rightarrow> (int \<times> buffer) res" where
  "buffer_to_upper b = buffer_map to_upper_byte b"

end
