(* ===== verification/Lt_Path.thy ===== *)
theory Lt_Path
  imports Lt_Codec
begin

unbundle bit_operations_syntax

text \<open>
  The simplification of paths is safe: what it returns consists of proper segments only, so a request
  cannot climb out of the document root by \<open>..\<close>. The two last characters, kept in 16 bits, are compared
  by their bytes.
\<close>

section \<open>Two characters in a short\<close>

abbreviation SL :: byte where "SL \<equiv> 0x2F"
abbreviation DOT :: byte where "DOT \<equiv> 0x2E"

definition lo8 :: "16 word \<Rightarrow> byte" where "lo8 w = ucast w"
definition hi8 :: "16 word \<Rightarrow> byte" where "hi8 w = ucast (drop_bit 8 w)"

lemma lo_hi_eq: "w = v \<longleftrightarrow> lo8 w = lo8 v \<and> hi8 w = hi8 v"
proof
  assume eq: "lo8 w = lo8 v \<and> hi8 w = hi8 v"
  show "w = v"
  proof (rule bit_word_eqI)
    fix n assume n: "n < LENGTH(16)"
    show "bit w n = bit v n"
    proof (cases "n < 8")
      case True
      have "bit (lo8 w) n = bit (lo8 v) n" using eq by simp
      with True show ?thesis by (simp add: lo8_def bit_ucast_iff)
    next
      case False
      have "bit (hi8 w) (n - 8) = bit (hi8 v) (n - 8)" using eq by simp
      with False n show ?thesis by (auto simp: hi8_def bit_ucast_iff bit_drop_bit_eq)
    qed
  qed
qed simp

lemma lo8_shift [simp]: "lo8 (push_bit 8 w OR scast c) = c"
proof (rule bit_word_eqI)
  fix n assume "n < LENGTH(8)"
  then show "bit (lo8 (push_bit 8 w OR scast c)) n = bit c n"
    by (auto simp: lo8_def bit_ucast_iff bit_or_iff bit_push_bit_iff bit_signed_iff)
qed

lemma hi8_shift:
  fixes c :: byte
  shows "\<not> bit c 7 \<Longrightarrow> hi8 (push_bit 8 w OR scast c) = lo8 w"
proof (rule bit_word_eqI)
  fix n assume c: "\<not> bit c 7" and n: "n < LENGTH(8)"
  have "\<not> bit (scast c :: 16 word) (8 + n)" using c n by (auto simp: bit_signed_iff)
  then show "bit (hi8 (push_bit 8 w OR scast c)) n = bit (lo8 w) n" using n
    by (auto simp: hi8_def lo8_def bit_ucast_iff bit_or_iff bit_push_bit_iff bit_drop_bit_eq add.commute)
qed

lemma dot_not_neg: "\<not> bit DOT 7"
  by (simp add: bit_iff_odd_drop_bit drop_bit_eq_div)

lemma lo_hi_numerals: "lo8 0x2E2E = DOT" "hi8 0x2E2E = DOT" "lo8 0x2F2E = DOT" "hi8 0x2F2E = SL"
  by (simp_all add: lo8_def hi8_def drop_bit_eq_div)

section \<open>Normal paths\<close>

definition good :: "bytes \<Rightarrow> bool" where
  "good t \<longleftrightarrow> t \<noteq> [] \<and> SL \<notin> set t \<and> t \<noteq> [DOT] \<and> t \<noteq> [DOT, DOT]"

definition npath :: "bytes list \<Rightarrow> bytes" where
  "npath ss = concat (map (\<lambda>s. SL # s) ss)"

lemma npath_simps [simp]: "npath [] = []" "npath (ss @ [s]) = npath ss @ SL # s"
  by (simp_all add: npath_def)

text \<open>\<open>pre\<close> agrees with the last characters of the current segment.\<close>

definition pre_ok :: "16 word \<Rightarrow> bytes \<Rightarrow> bool" where
  "pre_ok pre w \<longleftrightarrow> lo8 pre = last w \<and> (last w = DOT \<and> 2 \<le> length w \<longrightarrow> hi8 pre = w ! (length w - 2))"

definition ps_inv :: "bytes list \<Rightarrow> bytes \<Rightarrow> 16 word \<Rightarrow> bytes \<Rightarrow> nat \<Rightarrow> nat \<Rightarrow> bool" where
  "ps_inv ss t pre m slash out \<longleftrightarrow>
     (\<forall>s \<in> set ss. good s) \<and> SL \<notin> set t \<and> slash = length (npath ss) \<and> out = slash + 1 + length t \<and>
     out \<le> length m \<and> take out m = npath ss @ SL # t \<and> pre_ok pre (SL # t)"

lemma pre_ok_shift:
  assumes "pre_ok pre w" "w \<noteq> []"
  shows "pre_ok (push_bit 8 pre OR scast c) (w @ [c])"
proof -
  have "hi8 (push_bit 8 pre OR scast c) = (w @ [c]) ! (length (w @ [c]) - 2)" if "c = DOT"
  proof -
    have "hi8 (push_bit 8 pre OR scast c) = lo8 pre" using hi8_shift dot_not_neg that by blast
    moreover have "(w @ [c]) ! (length (w @ [c]) - 2) = last w"
      using assms(2) by (simp add: nth_append last_conv_nth)
    ultimately show ?thesis using assms(1) by (simp add: pre_ok_def)
  qed
  then show ?thesis by (simp add: pre_ok_def)
qed

lemma pre_dotdot:
  assumes "pre_ok pre (SL # t)"
  shows "length (SL # t) = 3 \<and> pre = 0x2E2E \<longleftrightarrow> t = [DOT, DOT]"
proof
  assume l: "length (SL # t) = 3 \<and> pre = 0x2E2E"
  then obtain a b where t: "t = [a, b]" by (auto simp: length_Suc_conv eval_nat_numeral)
  from l have "b = DOT" "a = DOT" using assms t by (auto simp: pre_ok_def lo_hi_numerals)
  with t show "t = [DOT, DOT]" by simp
qed (use assms in \<open>auto simp: pre_ok_def lo_hi_eq [of pre] lo_hi_numerals\<close>)

lemma pre_dot:
  assumes "pre_ok pre (SL # t)" "SL \<notin> set t" "t \<noteq> []"
  shows "pre = 0x2F2E \<longleftrightarrow> t = [DOT]"
proof
  assume p: "pre = 0x2F2E"
  have "last t = DOT" using assms(1,3) p by (simp add: pre_ok_def lo_hi_numerals)
  then have "(SL # t) ! (length (SL # t) - 2) = SL"
    using assms(1,3) p by (cases t) (auto simp: pre_ok_def lo_hi_numerals)
  have "length t = 1"
  proof (rule ccontr)
    assume "length t \<noteq> 1"
    then have l: "2 \<le> length t" using assms(3) by (cases t) (auto simp: Suc_le_eq)
    have "(SL # t) ! (length (SL # t) - 2) = t ! (length t - 2)"
      using l by (simp add: nth_Cons' numeral_2_eq_2)
    moreover have "t ! (length t - 2) \<in> set t" using l by (intro nth_mem) linarith
    ultimately show False using assms(2) \<open>(SL # t) ! (length (SL # t) - 2) = SL\<close> by simp
  qed
  then show "t = [DOT]" using \<open>last t = DOT\<close> by (auto simp: length_Suc_conv)
qed (use assms in \<open>auto simp: pre_ok_def lo_hi_eq [of pre] lo_hi_numerals\<close>)

lemma back_to_slash_eq:
  assumes "SL \<notin> set s" "take n m = p @ SL # s" "n = length p + 1 + length s" "n \<le> length m"
  shows "back_to_slash (n - 1) m = length p"
proof -
  have nth: "m ! (length p + j) = (SL # s) ! j" if "j \<le> length s" for j
  proof -
    have "m ! (length p + j) = take n m ! (length p + j)" using that assms(3) by simp
    then show ?thesis using assms(2) by (simp add: nth_append)
  qed
  have "back_to_slash (length p + j) m = length p" if "j \<le> length s" for j
    using that
  proof (induction j)
    case 0
    then show ?case using nth [of 0] by (cases "length p") (auto simp: char_byte_def)
  next
    case (Suc j)
    have "m ! (length p + Suc j) = s ! j" using nth [OF Suc.prems] by simp
    moreover have "s ! j \<noteq> SL" using assms(1) Suc.prems nth_mem [of j s] by fastforce
    ultimately show ?case using Suc by (simp add: char_byte_def)
  qed
  from this [of "length s"] assms(3) show ?thesis by simp
qed

section \<open>The loop\<close>

text \<open>
  At the end of a segment the output either falls back to an earlier slash or keeps a good segment.
\<close>

lemma segment_cases:
  assumes inv: "ps_inv ss t pre m slash out"
  obtains (fallback) ss' p where "\<forall>s \<in> set ss'. good s" "p = length (npath ss')" "p < length m"
      "take p m = npath ss'" "m ! p = SL" "\<And>c. ps_segment c pre m slash out = (if c = 0 then Suc p else p)"
  | (keep) "good t" "\<And>c. ps_segment c pre m slash out = out"
proof -
  have g: "\<forall>s \<in> set ss. good s" and t: "SL \<notin> set t" and sl: "slash = length (npath ss)"
    and out: "out = slash + 1 + length t" "out \<le> length m" and tk: "take out m = npath ss @ SL # t"
    and pre: "pre_ok pre (SL # t)" using inv by (auto simp: ps_inv_def)
  have d3: "out - slash = 3 \<and> pre = 0x2E2E \<longleftrightarrow> t = [DOT, DOT]" using pre_dotdot [OF pre] out by auto
  have d1: "out - slash = 1 \<or> pre = 0x2F2E \<longleftrightarrow> t = [] \<or> t = [DOT]" if "t \<noteq> [DOT, DOT]"
    using pre_dot [OF pre t] out(1) pre by (cases "t = []") (auto simp: pre_ok_def lo_hi_numerals)
  have here: "take slash m = npath ss" "m ! slash = SL" "slash < length m"
  proof -
    have "take slash (take out m) = npath ss" using tk sl by simp
    then show "take slash m = npath ss" using out by simp
    have "take out m ! slash = SL" using tk sl by simp
    then show "m ! slash = SL" using out(1) by simp
  qed (use out in simp)
  show thesis
  proof (cases "t = [DOT, DOT]")
    case dd: True
    show ?thesis
    proof (cases ss rule: rev_cases)
      case Nil
      show ?thesis
        by (rule fallback [of "[]" 0]) (use Nil here sl dd d3 in \<open>auto simp: ps_segment_def\<close>)
    next
      case (snoc ss' s)
      have sn: "SL \<notin> set s" using g snoc by (auto simp: good_def)
      have len: "slash = length (npath ss') + 1 + length s" using sl snoc by simp
      have tks: "take slash m = npath ss' @ SL # s" using here(1) snoc by simp
      have b: "back_to_slash (slash - 1) m = length (npath ss')"
        by (rule back_to_slash_eq [OF sn tks len]) (use here in simp)
      show ?thesis
      proof (rule fallback [of ss' "length (npath ss')"])
        show "take (length (npath ss')) m = npath ss'"
          using arg_cong [OF tks, of "take (length (npath ss'))"] len by simp
        show "m ! length (npath ss') = SL"
          using arg_cong [OF tks, of "\<lambda>l. l ! length (npath ss')"] len by simp
        show "length (npath ss') < length m" using here(3) len by simp
        show "ps_segment c pre m slash out = (if c = 0 then Suc (length (npath ss')) else length (npath ss'))" for c
          using dd d3 b len by (simp add: ps_segment_def)
      qed (use g snoc in auto)
    qed
  next
    case nd: False
    show ?thesis
    proof (cases "t = [] \<or> t = [DOT]")
      case True
      show ?thesis
        by (rule fallback [of ss slash]) (use True nd g sl here d1 d3 in \<open>auto simp: ps_segment_def\<close>)
    next
      case False
      show ?thesis
      proof (rule keep)
        show "good t" using False nd t by (auto simp: good_def)
        show "ps_segment c pre m slash out = out" for c using False nd d1 d3 by (auto simp: ps_segment_def)
      qed
    qed
  qed
qed

lemma take_write: "o' \<le> length m \<Longrightarrow> take (Suc o') (take o' m @ c # drop (Suc o') m) = take o' m @ [c]"
  by (simp add: min_absorb1)

lemma write_length: "o' \<le> length m \<Longrightarrow> Suc o' \<le> length (take o' m @ c # drop (Suc o') m)"
  by simp

lemma pre_ok_single: "pre_ok (push_bit 8 pre OR scast SL) [SL]"
  using lo8_shift [of pre SL] by (simp add: pre_ok_def)

lemma ps_loop_end: "ps_loop 0 pre m slash out walk = take (ps_segment 0 pre m slash out) m"
  by (simp add: ps_loop.simps [of 0] Let_def)

definition simple_path :: "bytes \<Rightarrow> bool" where
  "simple_path r \<longleftrightarrow> (\<exists>ss. (\<forall>s \<in> set ss. good s) \<and> (r = npath ss \<and> ss \<noteq> [] \<or> r = npath ss @ [SL]))"

lemma slash_byte: "char_byte (CHR ''/'') = SL"
  by (simp add: char_byte_def)

lemma ps_loop_simple:
  assumes "ps_inv ss t pre m slash out"
  shows "simple_path (ps_loop c pre m slash out walk)"
  using assms
proof (induction c pre m slash out walk arbitrary: ss t rule: ps_loop.induct)
  case (1 c pre m slash out walk)
  note inv = 1(2) [unfolded ps_inv_def]
  have nz: "SL \<noteq> (0 :: byte)" by simp
  show ?case
  proof (cases "c = 0")
    case c0: True
    from 1(2) show ?thesis
    proof (cases rule: segment_cases)
      case (fallback ss' p)
      have "take (Suc p) m = npath ss' @ [SL]" using fallback by (simp add: take_Suc_conv_app_nth)
      then show ?thesis using fallback c0 by (auto simp: ps_loop_end simple_path_def)
    next
      case keep
      have "take out m = npath ss @ SL # t" using inv by blast
      then have "take out m = npath (ss @ [t])" by simp
      moreover have "\<forall>s \<in> set (ss @ [t]). good s" using inv keep by auto
      ultimately show ?thesis using keep c0
        by (auto simp: ps_loop_end simple_path_def intro!: exI [of _ "ss @ [t]"])
    qed
  next
    case cn: False
    show ?thesis
    proof (cases "c = SL")
      case cs: True
      let ?o = "ps_segment c pre m slash out"
      have "\<exists>ss'. (\<forall>s \<in> set ss'. good s) \<and> ?o = length (npath ss') \<and> ?o \<le> length m \<and> take ?o m = npath ss'"
        using 1(2)
      proof (cases rule: segment_cases)
        case (fallback ss' p)
        then show ?thesis using cn by (intro exI [of _ ss']) auto
      next
        case keep
        then show ?thesis using inv by (intro exI [of _ "ss @ [t]"]) auto
      qed
      then obtain ss' where ss': "\<forall>s \<in> set ss'. good s" "?o = length (npath ss')" "?o \<le> length m" "take ?o m = npath ss'"
        by blast
      let ?m = "take ?o m @ c # drop (Suc ?o) m"
      have "ps_inv ss' [] (push_bit 8 pre OR scast c) ?m ?o (Suc ?o)"
        using ss' cs pre_ok_single take_write [OF ss'(3), of c] write_length [OF ss'(3), of c]
        by (simp add: ps_inv_def)
      then have "simple_path (ps_loop (peek walk) (push_bit 8 pre OR scast c) ?m ?o (Suc ?o) (tl walk))"
        using 1(1) [of True ?o ?o ss' "[]"] cn cs by (simp add: slash_byte)
      moreover have "ps_loop c pre m slash out walk =
          ps_loop (peek walk) (push_bit 8 pre OR scast c) ?m ?o (Suc ?o) (tl walk)"
        using cn cs by (subst ps_loop.simps) (simp only: slash_byte Let_def simp_thms if_True if_False)
      ultimately show ?thesis by (simp only:)
    next
      case False
      let ?m = "take out m @ c # drop (Suc out) m"
      have "ps_inv ss (t @ [c]) (push_bit 8 pre OR scast c) ?m slash (Suc out)"
        using inv False pre_ok_shift [of pre "SL # t" c] take_write [of out m c] write_length [of out m c]
        by (auto simp: ps_inv_def)
      then have "simple_path (ps_loop (peek walk) (push_bit 8 pre OR scast c) ?m slash (Suc out) (tl walk))"
        using 1(1) [of False out slash ss "t @ [c]"] cn False by (simp add: slash_byte)
      then show ?thesis using cn False by (simp add: ps_loop.simps [of c] slash_byte Let_def)
    qed
  qed
qed

lemma path_simplify_simple: "simple_path (fst (path_simplify w))"
proof -
  define v where "v = dropWhile (\<lambda>c. c = char_byte (CHR '' '')) w"
  let ?c = "peek v"
  have root: "simple_path [SL]" unfolding simple_path_def by (intro exI [of _ "[]"]) simp
  have shift: "(0x2F00 :: 16 word) OR scast ?c = push_bit 8 0x2F OR scast ?c" by simp
  have low: "lo8 0x2F = SL" by (simp add: lo8_def)
  show ?thesis
  proof (cases "?c = SL")
    case True
    have "ps_inv [] [] (scast SL) [SL] 0 1" by (simp add: ps_inv_def pre_ok_def lo8_def)
    from ps_loop_simple [OF this] True show ?thesis
      by (simp add: path_simplify_def v_def [symmetric] slash_byte Let_def)
  next
    case False
    have "pre_ok (push_bit 8 0x2F OR scast ?c) ([SL] @ [?c])"
      by (rule pre_ok_shift) (simp_all add: pre_ok_def low)
    then have "ps_inv [] [?c] (0x2F00 OR scast ?c) [SL, ?c] 0 2"
      using False unfolding shift by (simp add: ps_inv_def)
    from ps_loop_simple [OF this] False root show ?thesis
      by (simp add: path_simplify_def v_def [symmetric] slash_byte Let_def numeral_2_eq_2)
  qed
qed

end
