(* ===== verification/Lt_Codec_Facts.thy ===== *)
theory Lt_Codec_Facts
  imports Lt_Path
begin

unbundle bit_operations_syntax

text \<open>
  The conversions of \<open>buffer.c\<close> against what they are for: encoding and decoding of URLs are
  inverse, numbers are printed in decimal, the comparison by words agrees with the one by bytes, and
  every append stays inside its block.
\<close>

section \<open>Reversal\<close>

lemma swap_loop_length [simp]: "length (swap_loop i j m) = length m"
  by (induction i j m rule: swap_loop.induct) (subst swap_loop.simps, simp)

text \<open>The swapping loop exchanges the positions between its two ends.\<close>

lemma swap_loop_nth:
  "j < length m \<Longrightarrow> k < length m \<Longrightarrow>
     swap_loop i j m ! k = (if i \<le> k \<and> k \<le> j then m ! (i + j - k) else m ! k)"
proof (induction i j m rule: swap_loop.induct)
  case (1 i j m)
  show ?case
  proof (cases "i < j")
    case False
    then have "i + j - k = k" if "i \<le> k" "k \<le> j" using that by linarith
    with False show ?thesis by (subst swap_loop.simps) auto
  next
    case True
    let ?m = "m[j := m ! i, i := m ! j]"
    have ih: "swap_loop (Suc i) (j - 1) ?m ! k = (if Suc i \<le> k \<and> k \<le> j - 1 then ?m ! (Suc i + (j - 1) - k) else ?m ! k)"
      using 1 True by simp
    have eq: "swap_loop i j m ! k = swap_loop (Suc i) (j - 1) ?m ! k"
      using True by (subst swap_loop.simps) simp
    consider "k = i" | "k = j" | "i < k" "k < j" | "k < i \<or> j < k" by linarith
    then show ?thesis
    proof cases
      case 3
      then have "Suc i + (j - 1) - k = i + j - k" "i + j - k \<noteq> i" "i + j - k \<noteq> j" "Suc i \<le> k" "k \<le> j - 1" by auto
      then show ?thesis using 3 ih eq by (simp only: if_True simp_thms nth_list_update_neq less_imp_le)
    qed (use 1(2,3) True ih eq in auto)
  qed
qed

lemma swap_loop_rev: "swap_loop 0 (length m - 1) m = rev m"
proof (cases "m = []")
  case True
  then show ?thesis by (simp add: swap_loop.simps)
next
  case False
  show ?thesis
  proof (rule nth_equalityI)
    fix k assume "k < length (swap_loop 0 (length m - 1) m)"
    then have k: "k < length m" by simp
    have "swap_loop 0 (length m - 1) m ! k = m ! (length m - 1 - k)"
    proof -
      have "length m - 1 < length m" "k \<le> length m - 1" using False k by (simp, linarith)
      with swap_loop_nth [of "length m - 1" m k 0] k show ?thesis by simp
    qed
    then show "swap_loop 0 (length m - 1) m ! k = rev m ! k" using k by (simp add: rev_nth)
  qed simp
qed

section \<open>Decimal numbers\<close>

lemma digit_byte: "d < 10 \<Longrightarrow> (word_of_nat (48 + d) :: byte) = char_byte (digit_char d)"
  by (simp add: char_byte_def digit_char_def)

lemma ltostr_digits_show: "rev (ltostr_digits n) = map char_byte (show_nat n)"
proof (induction n rule: ltostr_digits.induct)
  case (1 v)
  show ?case
  proof (cases "v > 9")
    case True
    then have "rev (ltostr_digits v) = rev (ltostr_digits (v div 10)) @ [char_byte (digit_char (v mod 10))]"
      using digit_byte [of "v mod 10"] by (simp add: ltostr_digits.simps [of v])
    with 1 True show ?thesis by (simp add: show_nat.simps [of v])
  next
    case False
    then show ?thesis using digit_byte [of v] by (simp add: ltostr_digits.simps [of v] show_nat.simps [of v])
  qed
qed

lemma LI_ltostr_show:
  assumes "- (2 ^ 63) < val" "val < 2 ^ 63"
  shows "LI_ltostr val = map char_byte (show_int val)"
proof -
  have ds: "(if v > 9 then ltostr_digits (nat v) else [word_of_int (48 + v)]) = ltostr_digits (nat v)"
    if "0 \<le> v" for v :: int
  proof (cases "v > 9")
    case False
    have "(word_of_int (48 + v) :: byte) = word_of_nat (48 + nat v)"
      using that by (simp add: word_of_nat_eq_0_iff flip: of_nat_nat)
    moreover have "\<not> nat v > 9" using False by simp
    ultimately show ?thesis using False by (simp only: ltostr_digits.simps [of "nat v"] if_False)
  qed simp
  have neg: "wrap64 (- val) = - val" if "val < 0"
    using that assms by (intro wrap64_id) (simp add: int64_def)
  let ?d = "\<lambda>v. ltostr_digits (nat v)"
  have "LI_ltostr val = (if val < 0 then [char_byte (CHR ''-'')] @ rev (?d (- val)) else rev (?d val))"
  proof (cases "val < 0")
    case True
    then show ?thesis using ds [of "- val"] neg [OF True]
      by (simp only: LI_ltostr_def Let_def if_True swap_loop_rev neg_0_le_iff_le less_imp_le)
  next
    case False
    then have "0 \<le> val" by simp
    from False ds [OF this] show ?thesis
      by (simp only: LI_ltostr_def Let_def if_False swap_loop_rev append_Nil)
  qed
  then show ?thesis by (simp add: ltostr_digits_show show_int_def)
qed

section \<open>Comparison\<close>

lemma fold_case_same [simp]: "fold_case a a = 0"
  by (simp add: fold_case_def)

lemma caseless_same_prefix: "caseless_bytes (p @ a) (p @ b) = caseless_bytes a b"
  by (induction p) auto

lemma skip_words_same:
  "skip_words n a b = (a', b') \<Longrightarrow> caseless_bytes a' b' = caseless_bytes a b"
proof (induction n a b rule: skip_words.induct)
  case (1 n a b)
  show ?case
  proof (cases "8 \<le> n \<and> take 8 a = take 8 b")
    case True
    then have "caseless_bytes a' b' = caseless_bytes (drop 8 a) (drop 8 b)"
      using 1 by (simp add: skip_words.simps [of n])
    also have "\<dots> = caseless_bytes (take 8 a @ drop 8 a) (take 8 a @ drop 8 b)"
      by (rule caseless_same_prefix [symmetric])
    also have "\<dots> = caseless_bytes a b" using True by (metis append_take_drop_id)
    finally show ?thesis .
  next
    case False
    with 1(2) show ?thesis by (simp add: skip_words.simps [of n])
  qed
qed

section \<open>URLs\<close>

lemma hex2int_digits: "\<forall>n \<in> set [0..<16]. hex2int (hex_chars ! n) = word_of_nat n"
  by code_simp

lemma hex2int_nibble: "hex2int (hex_chars ! unat (c AND 0x0F)) = c AND (0x0F :: byte)"
proof -
  have "c AND 0x0F \<le> (0x0F :: byte)" by (rule word_and_le1)
  then have "unat (c AND 0x0F) < 16" by (simp add: word_le_nat_alt)
  then show ?thesis using hex2int_digits by simp
qed

lemma nibbles_join: "push_bit 4 (drop_bit 4 c AND 0x0F) OR (c AND 0x0F) = (c :: byte)"
proof (rule bit_word_eqI)
  fix n assume n: "n < LENGTH(8)"
  have m: "(0x0F :: byte) = mask 4" by (simp add: mask_eq_exp_minus_1)
  show "bit (push_bit 4 (drop_bit 4 c AND 0x0F) OR (c AND 0x0F)) n = bit c n"
    using n unfolding m
    by (auto simp: bit_or_iff bit_push_bit_iff bit_and_iff bit_mask_iff bit_drop_bit_eq)
qed

lemma nibble_not_ff: "c AND 0x0F \<noteq> (0xFF :: byte)"
proof
  assume "c AND 0x0F = (0xFF :: byte)"
  moreover have "c AND 0x0F \<le> (0x0F :: byte)" by (rule word_and_le1)
  ultimately show False by simp
qed

lemma urldecode_pair:
  assumes "32 \<le> c" "c \<noteq> 127"
  shows "urldecode q (char_byte (CHR ''%'') # hex_pair c @ r) = c # urldecode q r"
proof -
  have ctl: "\<not> (c < 32 \<or> c = 127)" using assms by (simp add: not_less)
  have d: "drop 2 (x # y # r) = r" "drop 1 (x # y # r) = y # r" for x y :: byte by simp_all
  have "CHR ''%'' \<noteq> CHR ''+''" by simp
  then show ?thesis
    by (simp only: urldecode.simps hex_pair_def peek_def append.simps d list.case hex2int_nibble nibbles_join
        Let_def ctl nibble_not_ff char_byte_eq simp_thms if_True if_False not_False_eq_True)
qed

lemma urldecode_plain:
  "c \<noteq> char_byte (CHR ''%'') \<Longrightarrow> c \<noteq> char_byte (CHR ''+'') \<Longrightarrow> urldecode q (c # r) = c # urldecode q r"
  by simp

definition uri_table :: "buffer_encoding_t \<Rightarrow> int list" where
  "uri_table e = (if e = ENCODING_REL_URI then encoded_chars_rel_uri else encoded_chars_rel_uri_part)"

lemma uri_table_special: "uri_table e ! 37 \<noteq> 0" "uri_table e ! 43 \<noteq> 0"
proof -
  have "encoded_chars_rel_uri ! 37 \<noteq> 0" "encoded_chars_rel_uri_part ! 37 \<noteq> 0"
    "encoded_chars_rel_uri ! 43 \<noteq> 0" "encoded_chars_rel_uri_part ! 43 \<noteq> 0" by code_simp+
  then show "uri_table e ! 37 \<noteq> 0" "uri_table e ! 43 \<noteq> 0" by (simp_all add: uri_table_def)
qed

lemma urldecode_encoded:
  assumes "e = ENCODING_REL_URI \<or> e = ENCODING_REL_URI_PART" "\<forall>c \<in> set s. 32 \<le> c \<and> c \<noteq> 127"
  shows "urldecode q (concat (map (enc_char e (uri_table e)) s)) = s"
  using assms(2)
proof (induction s)
  case (Cons c s)
  let ?r = "concat (map (enc_char e (uri_table e)) s)"
  have "urldecode q (enc_char e (uri_table e) c @ ?r) = c # urldecode q ?r"
  proof (cases "uri_table e ! unat c \<noteq> 0")
    case True
    then have "enc_char e (uri_table e) c = char_byte (CHR ''%'') # hex_pair c"
      using assms(1) by (auto simp: enc_char_def)
    then show ?thesis using urldecode_pair [of c q ?r] Cons.prems by simp
  next
    case False
    then have "c \<noteq> char_byte (CHR ''%'')" "c \<noteq> char_byte (CHR ''+'')"
      using uri_table_special [of e] by (auto simp: char_byte_def)
    moreover have "enc_char e (uri_table e) c = [c]" using False by (simp add: enc_char_def)
    ultimately show ?thesis using urldecode_plain by simp
  qed
  then show ?case using Cons by simp
qed simp

section \<open>Appending encoded text\<close>

lemma enc_len_eq: "e \<noteq> ENCODING_UNSET \<Longrightarrow> length (enc_char e t c) = enc_len e t c"
  by (cases e) (auto simp: enc_char_def enc_len_def hex_pair_def)

lemma enc_total: "e \<noteq> ENCODING_UNSET \<Longrightarrow> length (concat (map (enc_char e t) s)) = sum_list (map (enc_len e t) s)"
  by (induction s) (auto simp: enc_len_eq)

lemma append_encoded_spec:
  assumes "holds b s" "bf_used b \<noteq> 0" "enc_map e = Some t" "n \<le> length u" "n \<noteq> 0"
  shows "\<exists>b'. buffer_append_string_encoded b (Some u) n e = Inr (0, b') \<and>
    holds b' (s @ concat (map (enc_char e t) (take n u)))"
proof -
  let ?d = "concat (map (enc_char e t) (take n u))"
  let ?b = "buffer_prepare_append b (length ?d)"
  have ok: "buf_ok b" and us: "bf_used b = length s + 1" and tk: "take (length s + 1) (bf_ptr b) = map Some (s @ [0])"
    using assms(1,2) by (auto simp: holds_def)
  have e: "e \<noteq> ENCODING_UNSET" using assms(3) by (auto simp: enc_map_def)
  note sp = prepare_append_spec [OF ok, of "length ?d"]
  have at: "get_at (bf_ptr b) (int (bf_used b) - 1) = Inr (Some 0)"
  proof -
    have "bf_ptr b ! length s = take (length s + 1) (bf_ptr b) ! length s" by simp
    also have "\<dots> = Some 0" unfolding tk by (simp add: nth_append)
    finally show ?thesis using ok us by (simp add: get_at_def buf_ok_def)
  qed
  obtain m' where m': "bindR (blit (length s) ?d (bf_ptr ?b)) (blit (length s + length ?d) [0]) = Inr m'"
    "length m' = length (bf_ptr ?b)" "take (length s + length ?d + 1) m' = take (length s) (bf_ptr ?b) @ map Some (?d @ [0])"
    using blit_string [of "length s" ?d "bf_ptr ?b"] sp us by (auto simp: buf_ok_def)
  have pre: "take (length s) (bf_ptr ?b) = map Some s"
  proof -
    have "take (length s) (take (length s + 1) (bf_ptr ?b)) = map Some s" using sp us tk by simp
    then show ?thesis by simp
  qed
  have "buffer_append_string_encoded b (Some u) n e = Inr (0, ?b\<lparr>bf_ptr := m', bf_used := bf_used b + length ?d\<rparr>)"
    using m'(1) assms(2-5) at us sp e
    by (auto simp: buffer_append_string_encoded_def enc_total [symmetric] Let_def bindR_eq_Inr)
  moreover have "holds (?b\<lparr>bf_ptr := m', bf_used := bf_used b + length ?d\<rparr>) (s @ ?d)"
    using sp us m' pre by (simp add: holds_def buf_ok_def)
  ultimately show ?thesis by blast
qed

end
