(* ===== verification/Lt_Text.thy ===== *)
theory Lt_Text
  imports Lt_Path Lt_Codec_Facts
begin

unbundle bit_operations_syntax

text \<open>
  The properties of the string layer: sequences of appends, the encoding of URIs and its inverse,
  printed numbers, comparison without case, and the simplification of paths inside a buffer.
\<close>

section \<open>Reading a buffer\<close>

lemma cstr_string: "0 \<notin> set s \<Longrightarrow> cstr (map Some (s @ [0]) @ m) = Inr s"
  by (induction s) auto

lemma holds_cstr:
  assumes "holds b s" "bf_used b \<noteq> 0" "0 \<notin> set s"
  shows "cstr (bf_ptr b) = Inr s"
proof -
  have "take (length s + 1) (bf_ptr b) = map Some (s @ [0])" using assms(1,2) by (auto simp: holds_def)
  then have "bf_ptr b = map Some (s @ [0]) @ drop (length s + 1) (bf_ptr b)" by (metis append_take_drop_id)
  then show ?thesis using cstr_string [OF assms(3)] by metis
qed

lemma holds_used: "holds b s \<Longrightarrow> s \<noteq> [] \<Longrightarrow> bf_used b = length s + 1"
  by (auto simp: holds_def)

section \<open>Appending\<close>

text \<open>
  Appending never writes outside a buffer and never loses text: after any number of appends, to a
  buffer of any size and contents, the buffer holds the old text followed by all pieces, terminated,
  and a C reader finds exactly that.
\<close>

lemma appends_concatenate:
  assumes "holds b s" "0 \<notin> set (s @ concat ts)" "s @ concat ts \<noteq> []"
  shows "\<exists>b'. lenbuf.apps ts b = Inr b' \<and> bf_used b' = length (s @ concat ts) + 1 \<and> bf_used b' \<le> bf_size b' \<and>
    cstr (bf_ptr b') = Inr (s @ concat ts)"
proof -
  obtain b' where b': "lenbuf.apps ts b = Inr b'" "holds b' (s @ concat ts)"
    using lenbuf.apps_ok [OF assms(1), of ts] by auto
  moreover have "bf_used b' = length (s @ concat ts) + 1" using holds_used [OF b'(2) assms(3)] .
  moreover have "bf_used b' \<le> bf_size b'" using b'(2) by (simp add: holds_def buf_ok_def)
  moreover have "cstr (bf_ptr b') = Inr (s @ concat ts)"
    using holds_cstr [OF b'(2)] assms(2) calculation(3) by simp
  ultimately show ?thesis by blast
qed

lemma appends_concatenate_example:
  "\<exists>b'. lenbuf.apps [[65, 66], [], [67]] buffer_init = Inr b' \<and> bf_used b' = 4 \<and> cstr (bf_ptr b') = Inr [65, 66, 67]"
  using appends_concatenate [OF buffer_init_holds, of "[[65, 66], [], [67]]"] by auto

section \<open>Numbers\<close>

lemma LI_ltostr_length:
  assumes "- (2 ^ 63) < val" "val < 2 ^ 63"
  shows "length (LI_ltostr val) \<le> 31"
proof -
  have "nat (- val) < 10 ^ 30" "nat val < 10 ^ 30" using assms by simp_all
  then show ?thesis
    using LI_ltostr_show [OF assms] show_nat_length [of "nat (- val)" 30] show_nat_length [of "nat val" 30]
    by (auto simp: show_int_def)
qed

text \<open>
  A number is printed in full and in decimal: \<open>buffer_append_long\<close> puts the digits of the value,
  with its sign, behind the text of the buffer, for every \<open>long\<close> but the smallest.
\<close>

lemma append_long_prints_decimal:
  assumes "holds b s" "- (2 ^ 63) < val" "val < 2 ^ 63"
  shows "\<exists>b'. buffer_append_long b val = Inr (0, b') \<and> holds b' (s @ map char_byte (show_int val))"
proof -
  let ?b = "bump (buffer_prepare_append b 32)"
  let ?t = "LI_ltostr val"
  let ?m = "take (length s) (bf_ptr ?b) @ map Some (?t @ [0]) @ drop (length s + length (?t @ [0])) (bf_ptr ?b)"
  have st: "buf_ok ?b" "bf_used ?b = length s + 1" "length s + 32 \<le> length (bf_ptr ?b)"
      "take (length s) (bf_ptr ?b) = map Some s"
    using append_start [OF assms(1), of 31] by simp_all
  note len = LI_ltostr_length [OF assms(2,3)]
  have "blit (bf_used ?b - 1) (?t @ [0]) (bf_ptr ?b) = Inr ?m" using st len by (simp add: blit_def)
  then have "buffer_append_long b val = Inr (0, ?b\<lparr>bf_ptr := ?m, bf_used := bf_used ?b + length ?t\<rparr>)"
    by (simp add: buffer_append_long_def Let_def)
  moreover have "holds (?b\<lparr>bf_ptr := ?m, bf_used := bf_used ?b + length ?t\<rparr>) (s @ ?t)"
    using st len by (auto simp: holds_def buf_ok_def)
  ultimately show ?thesis using LI_ltostr_show [OF assms(2,3)] by auto
qed

lemma append_long_prints_decimal_example:
  "\<exists>b'. buffer_append_long buffer_init (-120) = Inr (0, b') \<and> holds b' (map char_byte ''-120'')"
proof -
  have "show_int (-120) = ''-120''" by code_simp
  then show ?thesis using append_long_prints_decimal [OF buffer_init_holds, of "-120"] by simp
qed

section \<open>Comparison without case\<close>

lemma sint_lower:
  fixes c :: byte
  assumes "65 \<le> sint c" "sint c \<le> 90"
  shows "sint (c OR 32) = sint c + 32"
proof -
  have "\<forall>n \<in> set [65..90]. sint (word_of_int n OR 32 :: byte) = n + 32" by code_simp
  moreover have "sint c \<in> set [65..90]" using assms unfolding set_upto by (rule atLeastAtMost_iff [THEN iffD2, OF conjI])
  ultimately have "sint (word_of_int (sint c) OR 32 :: byte) = sint c + 32" by blast
  then show ?thesis by simp
qed

lemma fold_case_zero: "fold_case a b = 0 \<longleftrightarrow> to_lower_byte a = to_lower_byte b"
proof -
  have eq: "sint x = sint y \<longleftrightarrow> x = y" for x y :: byte by (metis signed_word_eqI)
  have low: "sint (to_lower_byte c) = (if 65 \<le> sint c \<and> sint c \<le> 90 then sint c + 32 else sint c)" for c
    by (simp add: to_lower_byte_def sint_lower)
  have "fold_case a b = 0 \<longleftrightarrow> sint (to_lower_byte a) = sint (to_lower_byte b)"
    unfolding low fold_case_def Let_def eq [symmetric] by (auto simp: sint_lower)
  then show ?thesis by (simp only: eq)
qed

lemma caseless_bytes_None:
  "length a = length b \<Longrightarrow> caseless_bytes a b = None \<longleftrightarrow> map to_lower_byte a = map to_lower_byte b"
  by (induction a b rule: list_induct2) (simp_all add: fold_case_zero)

lemma caseless_bytes_Some: "caseless_bytes a b = Some r \<Longrightarrow> r \<noteq> 0"
  by (induction a b rule: caseless_bytes.induct) (auto split: if_splits)

lemma caseless_compare_eq:
  assumes "length a < 2 ^ 31" "length b < 2 ^ 31"
  shows "buffer_caseless_compare al a b =
    (case caseless_bytes a b of Some r \<Rightarrow> r
     | None \<Rightarrow> if length a = length b then 0 else int (length a) - int (length b))"
proof -
  obtain a' b' where s: "(if al then skip_words (min (length a) (length b)) a b else (a, b)) = (a', b')"
    by (metis surj_pair)
  then have "caseless_bytes a' b' = caseless_bytes a b" by (auto split: if_splits dest: skip_words_same)
  moreover have "wrap32 (int (length a) - int (length b)) = int (length a) - int (length b)"
    using assms by (intro wrap32_id) (simp add: int32_def)
  ultimately show ?thesis by (simp add: buffer_caseless_compare_def s split: option.splits)
qed

text \<open>
  The comparison by words is a pure optimisation: with and without it the result is the same, and
  it is 0 exactly for texts that differ only in the case of letters.
\<close>

lemma caseless_compare_is_equality:
  assumes "length a < 2 ^ 31" "length b < 2 ^ 31"
  shows "buffer_caseless_compare aligned a b = buffer_caseless_compare False a b \<and>
    (buffer_caseless_compare aligned a b = 0 \<longleftrightarrow> map to_lower_byte a = map to_lower_byte b)"
proof -
  have "map to_lower_byte a = map to_lower_byte b \<Longrightarrow> length a = length b" by (metis length_map)
  then show ?thesis
    using caseless_bytes_None [of a b] caseless_bytes_Some [of a b] by (auto simp: caseless_compare_eq [OF assms] split: option.splits)
qed

lemma caseless_compare_is_equality_example:
  "buffer_caseless_compare True (map char_byte ''Content-Length'') (map char_byte ''content-length'') = 0"
proof -
  have "map to_lower_byte (map char_byte ''Content-Length'') = map to_lower_byte (map char_byte ''content-length'')"
    by code_simp
  then show ?thesis
    using caseless_compare_is_equality [of "map char_byte ''Content-Length''" "map char_byte ''content-length''" True] by simp
qed

section \<open>URIs\<close>

lemma uri_table_map: "e = ENCODING_REL_URI \<or> e = ENCODING_REL_URI_PART \<Longrightarrow> enc_map e = Some (uri_table e)"
  by (auto simp: enc_map_def uri_table_def)

lemma hex_pair_nonzero: "0 \<notin> set (hex_pair c)"
proof -
  have "\<forall>n \<in> set [0..<16]. hex_chars ! n \<noteq> 0" by code_simp
  moreover have "unat (d AND 0x0F) < 16" for d :: byte
    using word_and_le1 [of d "0x0F"] by (simp add: word_le_nat_alt)
  ultimately show ?thesis by (auto simp: hex_pair_def)
qed

lemma enc_char_nonzero:
  "e = ENCODING_REL_URI \<or> e = ENCODING_REL_URI_PART \<Longrightarrow> c \<noteq> 0 \<Longrightarrow> 0 \<notin> set (enc_char e t c)"
  using hex_pair_nonzero by (auto simp: enc_char_def char_byte_def)

lemma urldecode_length: "length (urldecode q s) \<le> length s"
proof (induction "length s" arbitrary: s rule: less_induct)
  case less
  show ?case
  proof (cases s)
    case (Cons c cs)
    have "length (drop 2 cs) < length s" "length cs < length s" using Cons by simp_all
    note le = less [OF this(1)] less [OF this(2)]
    then have "length (urldecode q cs) \<le> length cs" "length (urldecode q (drop 2 cs)) \<le> length cs" by auto
    then show ?thesis by (auto simp: Cons Let_def)
  qed simp
qed

text \<open>
  C19. What is encoded for a URI is decoded to itself, inside the server's buffers: the encoded text fits
  the memory computed for it, and decoding it in place, as a path or as a query, gives the text
  back, for every text without control characters.
\<close>

theorem uri_encoding_round_trip:
  assumes "holds b []" "bf_used b \<noteq> 0" "e = ENCODING_REL_URI \<or> e = ENCODING_REL_URI_PART"
    and "s \<noteq> []" "\<forall>c \<in> set s. 32 \<le> c \<and> c \<noteq> 127"
  shows "\<exists>b1 b2. buffer_append_string_encoded b (Some s) (length s) e = Inr (0, b1) \<and>
    buffer_urldecode_internal b1 is_query = Inr (0, b2) \<and> holds b2 s"
proof -
  let ?d = "concat (map (enc_char e (uri_table e)) s)"
  obtain b1 where b1: "buffer_append_string_encoded b (Some s) (length s) e = Inr (0, b1)" "holds b1 ?d"
    using append_encoded_spec [OF assms(1,2) uri_table_map [OF assms(3)], of "length s" s] assms(4) by auto
  have dec: "urldecode is_query ?d = s" using urldecode_encoded assms(3,5) by blast
  then have "?d \<noteq> []" using assms(4) by (metis urldecode.simps(1))
  note u = holds_used [OF b1(2) this]
  have "0 \<notin> set (enc_char e (uri_table e) c)" if "c \<in> set s" for c
  proof (rule enc_char_nonzero [OF assms(3)])
    have "(32 :: byte) \<le> c" using assms(5) that by simp
    then show "c \<noteq> 0" by auto
  qed
  then have nz: "0 \<notin> set ?d" by auto
  have str: "cstr (bf_ptr b1) = Inr ?d" using holds_cstr [OF b1(2) _ nz] u by simp
  have "length s \<le> length ?d" using dec urldecode_length [of is_query ?d] by simp
  then have fits: "length s + 1 \<le> length (bf_ptr b1)" using b1(2) u by (simp add: holds_def buf_ok_def)
  then have "buffer_urldecode_internal b1 is_query =
      Inr (0, b1\<lparr>bf_ptr := map Some (s @ [0]) @ drop (length s + 1) (bf_ptr b1), bf_used := length s + 1\<rparr>)"
    using str dec by (auto simp: buffer_urldecode_internal_def blit_def Let_def)
  moreover have "holds (b1\<lparr>bf_ptr := map Some (s @ [0]) @ drop (length s + 1) (bf_ptr b1), bf_used := length s + 1\<rparr>) s"
    using b1(2) fits by (simp add: holds_def buf_ok_def)
  ultimately show ?thesis using b1(1) by blast
qed

theorem uri_encoding_round_trip_witness:
  "\<exists>b1 b2. buffer_append_string_encoded
      \<lparr>bf_ptr = [Some 0], bf_used = 1, bf_size = 1\<rparr> (Some (map char_byte ''a b%'')) 4 ENCODING_REL_URI = Inr (0, b1) \<and>
    buffer_urldecode_internal b1 True = Inr (0, b2) \<and> holds b2 (map char_byte ''a b%'')"
proof -
  have b: "holds \<lparr>bf_ptr = [Some 0], bf_used = 1, bf_size = 1\<rparr> []" by (simp add: holds_def buf_ok_def)
  have "\<forall>c \<in> set (map char_byte ''a b%''). 32 \<le> c \<and> c \<noteq> 127" by code_simp
  from uri_encoding_round_trip [OF b _ _ _ this, of ENCODING_REL_URI True] show ?thesis by (simp add: eval_nat_numeral)
qed

section \<open>Paths\<close>

lemma back_to_slash_le: "back_to_slash k m \<le> k"
  by (induction k) auto

lemma ps_segment_le: "slash < out \<Longrightarrow> ps_segment c pre m slash out \<le> out"
  using back_to_slash_le [of "slash - 1" m] by (auto simp: ps_segment_def Let_def)

lemma ps_loop_step:
  assumes "slash < out"
  obtains m' sl' o' where "c \<noteq> 0 \<Longrightarrow> ps_loop c pre m slash out walk =
      ps_loop (peek walk) (push_bit 8 pre OR scast c) m' sl' (Suc o') (tl walk)" "o' \<le> out" "sl' \<le> o'"
proof
  let ?brk = "c = char_byte (CHR ''/'') \<or> c = 0"
  let ?o = "if ?brk then ps_segment c pre m slash out else out"
  show "ps_loop c pre m slash out walk = ps_loop (peek walk) (push_bit 8 pre OR scast c)
      (take ?o m @ c # drop (Suc ?o) m) (if ?brk then ?o else slash) (Suc ?o) (tl walk)" if "c \<noteq> 0"
    using that by (subst ps_loop.simps) (simp add: Let_def)
  show "?o \<le> out" "(if ?brk then ?o else slash) \<le> ?o" using ps_segment_le [OF assms] assms by auto
qed

lemma ps_loop_length:
  "slash < out \<Longrightarrow> length (ps_loop c pre m slash out walk) \<le> out + (if c = 0 then 0 else 1 + length walk)"
proof (induction walk arbitrary: c pre m slash out)
  case Nil
  obtain m' sl' o' where "c \<noteq> 0 \<Longrightarrow> ps_loop c pre m slash out [] = ps_loop 0 (push_bit 8 pre OR scast c) m' sl' (Suc o') []"
    "o' \<le> out" "sl' \<le> o'"
    using ps_loop_step [OF Nil, of c pre m "[]"] by (auto simp: peek_def)
  with ps_segment_le [OF Nil, of c pre m] ps_segment_le [of sl' "Suc o'" 0 "push_bit 8 pre OR scast c" m']
  show ?case by (auto simp: ps_loop_end min.coboundedI2)
next
  case (Cons x walk)
  obtain m' sl' o' where st: "c \<noteq> 0 \<Longrightarrow> ps_loop c pre m slash out (x # walk) = ps_loop x (push_bit 8 pre OR scast c) m' sl' (Suc o') walk"
    "o' \<le> out" "sl' \<le> o'"
    using ps_loop_step [OF Cons.prems, of c pre m "x # walk"] by (auto simp: peek_def)
  have "length (ps_loop x (push_bit 8 pre OR scast c) m' sl' (Suc o') walk) \<le> Suc o' + (1 + length walk)"
    using Cons.IH [of sl' "Suc o'" x "push_bit 8 pre OR scast c" m'] st(3) by (simp split: if_splits)
  with st ps_segment_le [OF Cons.prems, of c pre m] show ?case by (auto simp: ps_loop_end min.coboundedI2)
qed

lemma path_simplify_length: "length (fst (path_simplify w)) \<le> length w + 1"
proof -
  define v where "v = dropWhile (\<lambda>c. c = char_byte (CHR '' '')) w"
  have v: "length v \<le> length w" by (simp add: v_def length_dropWhile_le)
  show ?thesis
  proof (cases "peek v = 0")
    case True
    then show ?thesis by (simp add: path_simplify_def Let_def v_def [symmetric])
  next
    case False
    then have ne: "v \<noteq> []" by (auto simp: peek_def)
    define m where "m = (if peek v \<noteq> char_byte (CHR ''/'') then [char_byte (CHR ''/''), peek v] else [peek v])"
    define pre :: "16 word" where "pre = (if peek v \<noteq> char_byte (CHR ''/'') then 0x2F00 OR scast (peek v) else scast (peek v))"
    have "fst (path_simplify w) = ps_loop (peek (tl v)) pre m 0 (length m) (tl (tl v))"
      using False by (simp add: path_simplify_def Let_def v_def [symmetric] m_def pre_def)
    also have "length \<dots> \<le> length m + (if peek (tl v) = 0 then 0 else 1 + length (tl (tl v)))"
      by (rule ps_loop_length) (simp add: m_def)
    also have "\<dots> \<le> length v + 1"
      using ne by (cases v; cases "tl v") (auto simp: m_def peek_def)
    finally show ?thesis using v by linarith
  qed
qed

text \<open>
  C18. A simplified path cannot leave its root: whatever path a buffer holds, simplifying it in place
  stays inside the memory reserved for it, and the result starts with a slash and has no empty, \<open>.\<close> or
  \<open>..\<close> segment (a slash at the end apart).
\<close>

theorem simplified_path_cannot_escape:
  assumes "holds b w" "bf_used b \<noteq> 0" "0 \<notin> set w"
  shows "\<exists>b' r. buffer_path_simplify None b = Inr (0, b') \<and> simple_path r \<and>
    take (length r + 1) (bf_ptr b') = map Some (r @ [0])"
proof -
  let ?d = "buffer_prepare_append b 1"
  let ?r = "fst (path_simplify w)"
  have ok: "buf_ok b" and u: "bf_used b = length w + 1" using assms(1,2) by (auto simp: holds_def)
  have "length ?r + 1 \<le> length (bf_ptr ?d)"
    using prepare_append_spec [OF ok, of 1] path_simplify_length [of w] u by (simp add: buf_ok_def)
  then have "blit 0 (?r @ [0]) (bf_ptr ?d) = Inr (map Some (?r @ [0]) @ drop (length ?r + 1) (bf_ptr ?d))"
    by (simp add: blit_def)
  moreover have "bf_ptr b \<noteq> []" using ok u by (auto simp: buf_ok_def)
  ultimately have "buffer_path_simplify None b = Inr (0, ?d\<lparr>bf_ptr := map Some (?r @ [0]) @ drop (length ?r + 1) (bf_ptr ?d),
      bf_used := snd (path_simplify w)\<rparr>)"
    using holds_cstr [OF assms] by (simp add: buffer_path_simplify_def Let_def split_beta)
  then show ?thesis using path_simplify_simple by (intro exI [of _ ?r] exI conjI) auto
qed

theorem simplified_path_cannot_escape_witness:
  "\<exists>b' r. buffer_path_simplify None \<lparr>bf_ptr = map Some (map char_byte ''/a/../../etc'' @ [0]), bf_used = 13, bf_size = 13\<rparr> =
      Inr (0, b') \<and> simple_path r \<and> take (length r + 1) (bf_ptr b') = map Some (r @ [0])"
  by (rule simplified_path_cannot_escape [where w = "map char_byte ''/a/../../etc''"])
     (simp_all add: holds_def buf_ok_def char_byte_def)

end
