(* ===== verification/Lt_Splay.thy ===== *)
theory Lt_Splay
  imports Webq_Prelude
begin

text \<open>
  The splay trees of the web server (\<open>splaytree.c\<close>), top-down splaying with sizes. The nodes that the
  loop links to its left and right trees are kept as two lists of frames, in the order in which they
  are linked; the final loops of \<open>splaytree_splay\<close> give them their sizes and hang them together. Keys
  are compared by an \<open>int\<close> difference, which wraps; sizes are integers, a tree has fewer than $2^{31}$
  nodes.
\<close>

section \<open>Trees\<close>

datatype 'd stree = SNil | SNode "'d stree" int 'd int "'d stree"

type_synonym 'd lframe = "'d stree \<times> int \<times> 'd \<times> int"
type_synonym 'd rframe = "int \<times> 'd \<times> int \<times> 'd stree"

fun node_size :: "'d stree \<Rightarrow> int" where
  "node_size SNil = 0"
| "node_size (SNode l k d s r) = s"

definition compare_keys :: "int \<Rightarrow> int \<Rightarrow> int" where
  "compare_keys i j = wrap32 (i - j)"

section \<open>Splaying\<close>

text \<open>
  The loop, on a tree that is not empty: it stops at the node that becomes the root.
\<close>

fun splay_loop :: "int \<Rightarrow> 'd stree \<Rightarrow> 'd lframe list \<Rightarrow> 'd rframe list \<Rightarrow> int \<Rightarrow> int \<Rightarrow>
    'd stree \<times> 'd lframe list \<times> 'd rframe list \<times> int \<times> int" where
  "splay_loop i SNil ls rs lsz rsz = (SNil, ls, rs, lsz, rsz)"
| "splay_loop i (SNode l k d s r) ls rs lsz rsz =
     (if compare_keys i k < 0
      then (case l of
              SNil \<Rightarrow> (SNode l k d s r, ls, rs, lsz, rsz)
            | SNode ll lk ld lsiz lr \<Rightarrow>
                if compare_keys i lk < 0
                then let t' = SNode lr k d (node_size lr + node_size r + 1) r
                     in if ll = SNil then (SNode ll lk ld lsiz t', ls, rs, lsz, rsz)
                        else splay_loop i ll ls (rs @ [(lk, ld, lsiz, t')]) lsz (rsz + (1 + node_size t'))
                else splay_loop i l ls (rs @ [(k, d, s, r)]) lsz (rsz + (1 + node_size r)))
      else if compare_keys i k > 0
      then (case r of
              SNil \<Rightarrow> (SNode l k d s r, ls, rs, lsz, rsz)
            | SNode rl rk rd rsiz rr \<Rightarrow>
                if compare_keys i rk > 0
                then let t' = SNode l k d (node_size l + node_size rl + 1) rl
                     in if rr = SNil then (SNode t' rk rd rsiz rr, ls, rs, lsz, rsz)
                        else splay_loop i rr (ls @ [(t', rk, rd, rsiz)]) rs (lsz + (1 + node_size t')) rsz
                else splay_loop i r (ls @ [(l, k, d, s)]) rs (lsz + (1 + node_size l)) rsz)
      else (SNode l k d s r, ls, rs, lsz, rsz))"

text \<open>The two loops that correct the sizes, together with the links they walk along.\<close>

fun build_left :: "'d lframe list \<Rightarrow> int \<Rightarrow> 'd stree \<Rightarrow> 'd stree" where
  "build_left [] sz base = base"
| "build_left ((a, k, d, s) # fs) sz base = SNode a k d sz (build_left fs (sz - (1 + node_size a)) base)"

fun build_right :: "'d rframe list \<Rightarrow> int \<Rightarrow> 'd stree \<Rightarrow> 'd stree" where
  "build_right [] sz base = base"
| "build_right ((k, d, s, b) # fs) sz base = SNode (build_right fs (sz - (1 + node_size b)) base) k d sz b"

definition splaytree_splay :: "'d stree \<Rightarrow> int \<Rightarrow> 'd stree" where
  "splaytree_splay t i =
     (case splay_loop i t [] [] 0 0 of
        (SNil, _) \<Rightarrow> SNil
      | (SNode l k d s r, ls, rs, lsz, rsz) \<Rightarrow>
          let lsz = lsz + node_size l; rsz = rsz + node_size r
          in SNode (build_left ls lsz l) k d (lsz + rsz + 1) (build_right rs rsz r))"

section \<open>Insertion, deletion, rank\<close>

definition splaytree_insert :: "'d stree \<Rightarrow> int \<Rightarrow> 'd \<Rightarrow> 'd stree" where
  "splaytree_insert t i x =
     (case splaytree_splay t i of
        SNil \<Rightarrow> SNode SNil i x 1 SNil
      | SNode l k d s r \<Rightarrow>
          if compare_keys i k = 0 then SNode l k d s r
          else if compare_keys i k < 0
          then let t = SNode SNil k d (1 + node_size r) r in SNode l i x (1 + node_size l + node_size t) t
          else let t = SNode l k d (1 + node_size l) SNil in SNode t i x (1 + node_size t + node_size r) r)"

definition splaytree_delete :: "'d stree \<Rightarrow> int \<Rightarrow> 'd stree" where
  "splaytree_delete t i =
     (if t = SNil then SNil
      else let tsize = node_size t
           in case splaytree_splay t i of
                SNil \<Rightarrow> SNil
              | SNode l k d s r \<Rightarrow>
                  if compare_keys i k = 0
                  then (let x = (case splaytree_splay l i of
                                   SNil \<Rightarrow> r
                                 | SNode xl xk xd xs xr \<Rightarrow> SNode xl xk xd xs r)
                        in case x of SNil \<Rightarrow> SNil | SNode xl xk xd xs xr \<Rightarrow> SNode xl xk xd (tsize - 1) xr)
                  else SNode l k d s r)"

fun find_rank_loop :: "int \<Rightarrow> 'd stree \<Rightarrow> (int \<times> 'd) option" where
  "find_rank_loop r SNil = None"
| "find_rank_loop r (SNode l k d s t) =
     (let lsize = node_size l
      in if r < lsize then find_rank_loop r l
         else if r > lsize then find_rank_loop (r - lsize - 1) t
         else Some (k, d))"

definition find_rank :: "int \<Rightarrow> 'd stree \<Rightarrow> (int \<times> 'd) option" where
  "find_rank r t = (if r < 0 \<or> r \<ge> node_size t then None else find_rank_loop r t)"

section \<open>Contents and invariants\<close>

fun inord :: "'d stree \<Rightarrow> (int \<times> 'd) list" where
  "inord SNil = []"
| "inord (SNode l k d s r) = inord l @ (k, d) # inord r"

fun sizes_ok :: "'d stree \<Rightarrow> bool" where
  "sizes_ok SNil \<longleftrightarrow> True"
| "sizes_ok (SNode l k d s r) \<longleftrightarrow> s = int (length (inord l)) + int (length (inord r)) + 1 \<and> sizes_ok l \<and> sizes_ok r"

definition in_range :: "int \<Rightarrow> bool" where
  "in_range k \<longleftrightarrow> 0 \<le> k \<and> k < 2 ^ 31"

definition good_list :: "(int \<times> 'd) list \<Rightarrow> bool" where
  "good_list xs \<longleftrightarrow> sorted_wrt (<) (map fst xs) \<and> (\<forall>x \<in> set xs. in_range (fst x))"

definition st_inv :: "'d stree \<Rightarrow> bool" where
  "st_inv t \<longleftrightarrow> good_list (inord t) \<and> sizes_ok t"

definition st_map :: "'d stree \<Rightarrow> int \<rightharpoonup> 'd" where
  "st_map t = map_of (inord t)"

definition linord :: "'d lframe list \<Rightarrow> (int \<times> 'd) list" where
  "linord ls = concat (map (\<lambda>(a, k, d, s). inord a @ [(k, d)]) ls)"

definition rinord :: "'d rframe list \<Rightarrow> (int \<times> 'd) list" where
  "rinord rs = concat (map (\<lambda>(k, d, s, b). (k, d) # inord b) (rev rs))"

lemma linord_snoc [simp]: "linord (ls @ [(a, k, d, s)]) = linord ls @ inord a @ [(k, d)]"
  by (simp add: linord_def)

lemma rinord_snoc [simp]: "rinord (rs @ [(k, d, s, b)]) = (k, d) # inord b @ rinord rs"
  by (simp add: rinord_def)

lemma frames_Nil [simp]: "linord [] = []" "rinord [] = []"
  by (simp_all add: linord_def rinord_def)

lemma build_left_inord: "inord (build_left ls sz base) = linord ls @ inord base"
  by (induction ls sz base rule: build_left.induct) (auto simp: linord_def)

lemma build_right_inord: "inord (build_right rs sz base) = inord base @ rinord rs"
  by (induction rs sz base rule: build_right.induct) (auto simp: rinord_def)

lemma node_size_ok: "sizes_ok t \<Longrightarrow> node_size t = int (length (inord t))"
  by (cases t) auto

section \<open>An invariant rule for the loop\<close>

fun splay_exit :: "int \<Rightarrow> 'd stree \<Rightarrow> bool" where
  "splay_exit i SNil \<longleftrightarrow> False"
| "splay_exit i (SNode l k d s r) \<longleftrightarrow> (compare_keys i k < 0 \<longrightarrow> l = SNil) \<and> (compare_keys i k > 0 \<longrightarrow> r = SNil)"

text \<open>
  What the two rotations and the two links of the loop keep holds when the loop ends, at a node with
  no child on the side of the key.
\<close>

lemma splay_loop_rule:
  fixes P :: "'d stree \<Rightarrow> 'd lframe list \<Rightarrow> 'd rframe list \<Rightarrow> int \<Rightarrow> int \<Rightarrow> bool"
  assumes rot_right: "\<And>ll lk ld z lr k d s r ls rs a b. P (SNode (SNode ll lk ld z lr) k d s r) ls rs a b \<Longrightarrow>
        compare_keys i k < 0 \<Longrightarrow> compare_keys i lk < 0 \<Longrightarrow>
        P (SNode ll lk ld z (SNode lr k d (node_size lr + node_size r + 1) r)) ls rs a b"
    and rot_left: "\<And>l k d s rl rk rd z rr ls rs a b. P (SNode l k d s (SNode rl rk rd z rr)) ls rs a b \<Longrightarrow>
        compare_keys i k > 0 \<Longrightarrow> compare_keys i rk > 0 \<Longrightarrow>
        P (SNode (SNode l k d (node_size l + node_size rl + 1) rl) rk rd z rr) ls rs a b"
    and link_right: "\<And>l k d s r ls rs a b. P (SNode l k d s r) ls rs a b \<Longrightarrow> compare_keys i k < 0 \<Longrightarrow>
        l \<noteq> SNil \<Longrightarrow> P l ls (rs @ [(k, d, s, r)]) a (b + (1 + node_size r))"
    and link_left: "\<And>l k d s r ls rs a b. P (SNode l k d s r) ls rs a b \<Longrightarrow> compare_keys i k > 0 \<Longrightarrow>
        r \<noteq> SNil \<Longrightarrow> P r (ls @ [(l, k, d, s)]) rs (a + (1 + node_size l)) b"
  shows "P t ls rs a b \<Longrightarrow> t \<noteq> SNil \<Longrightarrow> splay_loop i t ls rs a b = (t', ls', rs', a', b') \<Longrightarrow>
           P t' ls' rs' a' b' \<and> splay_exit i t'"
proof (induction "size t" arbitrary: t ls rs a b rule: less_induct)
  case less
  then obtain l k d s r where t: "t = SNode l k d s r" by (cases t) auto
  note P = less.prems(1) [unfolded t]
  note go = less.hyps
  note run = less.prems(3) [unfolded t]
  consider "compare_keys i k < 0" "l = SNil" | ll lk ld z lr where "compare_keys i k < 0" "l = SNode ll lk ld z lr"
    | "compare_keys i k > 0" "r = SNil" | rl rk rd z rr where "compare_keys i k > 0" "r = SNode rl rk rd z rr"
    | "compare_keys i k = 0"
    by (cases l; cases r; cases "compare_keys i k < 0"; cases "compare_keys i k > 0"; auto)
  then show ?case
  proof cases
    case (2 ll lk ld z lr)
    show ?thesis
    proof (cases "compare_keys i lk < 0")
      case True
      note P' = rot_right [OF P [unfolded 2] 2(1) True]
      show ?thesis
      proof (cases "ll = SNil")
        case False
        have "splay_loop i ll ls (rs @ [(lk, ld, z, SNode lr k d (node_size lr + node_size r + 1) r)]) a
            (b + (1 + node_size (SNode lr k d (node_size lr + node_size r + 1) r))) = (t', ls', rs', a', b')"
          using run 2 True False by (simp add: Let_def)
        from go [OF _ link_right [OF P' True False] False this] show ?thesis using t 2 by simp
      qed (use run 2 True P' in auto)
    next
      case False
      with run 2 have "splay_loop i l ls (rs @ [(k, d, s, r)]) a (b + (1 + node_size r)) = (t', ls', rs', a', b')"
        by simp
      from go [OF _ link_right [OF P 2(1)] _ this] show ?thesis using t 2 by simp
    qed
  next
    case (4 rl rk rd z rr)
    show ?thesis
    proof (cases "compare_keys i rk > 0")
      case True
      note P' = rot_left [OF P [unfolded 4] 4(1) True]
      show ?thesis
      proof (cases "rr = SNil")
        case False
        have "splay_loop i rr (ls @ [(SNode l k d (node_size l + node_size rl + 1) rl, rk, rd, z)]) rs
            (a + (1 + node_size (SNode l k d (node_size l + node_size rl + 1) rl))) b = (t', ls', rs', a', b')"
          using run 4 True False by (simp add: Let_def)
        from go [OF _ link_left [OF P' True False] False this] show ?thesis using t 4 by simp
      qed (use run 4 True P' in auto)
    next
      case False
      with run 4 have "splay_loop i r (ls @ [(l, k, d, s)]) rs (a + (1 + node_size l)) b = (t', ls', rs', a', b')"
        by simp
      from go [OF _ link_left [OF P 4(1)] _ this] show ?thesis using t 4 by simp
    qed
  qed (use run P in auto)
qed

section \<open>What the loop keeps\<close>

definition lsum :: "'d lframe list \<Rightarrow> int" where
  "lsum ls = (\<Sum>(a, k, d, s) \<leftarrow> ls. 1 + node_size a)"

definition rsum :: "'d rframe list \<Rightarrow> int" where
  "rsum rs = (\<Sum>(k, d, s, b) \<leftarrow> rs. 1 + node_size b)"

fun kids_ok :: "'d stree \<Rightarrow> bool" where
  "kids_ok SNil \<longleftrightarrow> True"
| "kids_ok (SNode l k d s r) \<longleftrightarrow> sizes_ok l \<and> sizes_ok r"

lemma compare_keys_range: "in_range i \<Longrightarrow> in_range k \<Longrightarrow> compare_keys i k = i - k"
  by (simp add: compare_keys_def in_range_def wrap32_id int32_def)

text \<open>
  Contents, order around the key, sizes of the subtrees, and the two running sizes. The size of the
  root itself is stale after a rotation.
\<close>

definition splay_I :: "int \<Rightarrow> (int \<times> 'd) list \<Rightarrow> 'd stree \<Rightarrow> 'd lframe list \<Rightarrow> 'd rframe list \<Rightarrow> int \<Rightarrow> int \<Rightarrow> bool" where
  "splay_I i xs t ls rs a b \<longleftrightarrow>
     linord ls @ inord t @ rinord rs = xs \<and>
     (\<forall>x \<in> set (linord ls). fst x < i) \<and> (\<forall>x \<in> set (rinord rs). i < fst x) \<and>
     kids_ok t \<and> (\<forall>(u, k, d, s) \<in> set ls. sizes_ok u) \<and> (\<forall>(k, d, s, u) \<in> set rs. sizes_ok u) \<and>
     a = lsum ls \<and> b = rsum rs"

lemma good_list_around:
  assumes "good_list xs" "xs = us @ (k, d) # vs"
  shows "in_range k" "\<forall>x \<in> set us. fst x < k" "\<forall>x \<in> set vs. k < fst x"
  using assms by (simp_all add: good_list_def sorted_wrt_append)

lemma kids_ok_sizes: "sizes_ok t \<Longrightarrow> kids_ok t"
  by (cases t) auto

lemma sums_simps [simp]: "lsum [] = 0" "rsum [] = 0"
    "lsum (ls @ [(u, k, d, s)]) = lsum ls + (1 + node_size u)"
    "rsum (rs @ [(k, d, s, u)]) = rsum rs + (1 + node_size u)"
  by (simp_all add: lsum_def rsum_def)

lemma splay_I_loop:
  assumes xs: "good_list xs" and i: "in_range i"
    and "splay_I i xs t ls rs a b" "t \<noteq> SNil" "splay_loop i t ls rs a b = (t', ls', rs', a', b')"
  shows "splay_I i xs t' ls' rs' a' b' \<and> splay_exit i t'"
proof (rule splay_loop_rule [where P = "splay_I i xs", OF _ _ _ _ assms(3-5)], goal_cases)
  case (1 ll lk ld z lr k d s r ls rs a b)
  then show ?case by (auto simp: splay_I_def node_size_ok)
next
  case (2 l k d s rl rk rd z rr ls rs a b)
  then show ?case by (auto simp: splay_I_def node_size_ok)
next
  case (3 l k d s r ls rs a b)
  then have "xs = (linord ls @ inord l) @ (k, d) # (inord r @ rinord rs)" by (simp add: splay_I_def)
  note good_list_around [OF xs this]
  then have "in_range k" "\<forall>x \<in> set (inord r). k < fst x" by simp_all
  then have "i < k" "\<forall>x \<in> set (inord r). i < fst x"
    using 3(2) i by (auto simp: compare_keys_range)
  with 3 show ?case by (auto simp: splay_I_def kids_ok_sizes)
next
  case (4 l k d s r ls rs a b)
  then have "xs = (linord ls @ inord l) @ (k, d) # (inord r @ rinord rs)" by (simp add: splay_I_def)
  note good_list_around [OF xs this]
  then have "in_range k" "\<forall>x \<in> set (inord l). fst x < k" by simp_all
  then have "k < i" "\<forall>x \<in> set (inord l). fst x < i"
    using 4(2) i by (auto simp: compare_keys_range)
  with 4 show ?case by (auto simp: splay_I_def kids_ok_sizes)
qed

section \<open>Splaying\<close>

lemma build_left_sizes:
  assumes "sizes_ok base" "\<forall>(u, k, d, s) \<in> set ls. sizes_ok u" "sz = lsum ls + int (length (inord base))"
  shows "sizes_ok (build_left ls sz base) \<and> sz = int (length (inord (build_left ls sz base)))"
  using assms by (induction ls sz base rule: build_left.induct) (auto simp: lsum_def node_size_ok)

lemma build_right_sizes:
  assumes "sizes_ok base" "\<forall>(k, d, s, u) \<in> set rs. sizes_ok u" "sz = rsum rs + int (length (inord base))"
  shows "sizes_ok (build_right rs sz base) \<and> sz = int (length (inord (build_right rs sz base)))"
  using assms by (induction rs sz base rule: build_right.induct) (auto simp: rsum_def node_size_ok)

lemma splay_spec:
  assumes "st_inv t" "in_range i" "t \<noteq> SNil"
  obtains l k d s r where "splaytree_splay t i = SNode l k d s r" "inord l @ (k, d) # inord r = inord t"
    "sizes_ok (SNode l k d s r)" "in_range k"
    "\<forall>x \<in> set (inord l). fst x < i" "\<forall>x \<in> set (inord r). i < fst x"
proof -
  obtain t' ls rs a b where run: "splay_loop i t [] [] 0 0 = (t', ls, rs, a, b)" by (cases "splay_loop i t [] [] 0 0")
  have xs: "good_list (inord t)" using assms(1) by (simp add: st_inv_def)
  have "splay_I i (inord t) t [] [] 0 0" using assms(1) by (simp add: splay_I_def st_inv_def kids_ok_sizes)
  from splay_I_loop [OF xs assms(2) this assms(3) run]
  have I: "splay_I i (inord t) t' ls rs a b" and ex: "splay_exit i t'" by auto
  from ex obtain l k d s r where t': "t' = SNode l k d s r" by (cases t') auto
  have split: "inord t = (linord ls @ inord l) @ (k, d) # (inord r @ rinord rs)"
    using I by (simp add: splay_I_def t')
  note around = good_list_around [OF xs split]
  have cmp: "compare_keys i k = i - k" using assms(2) around(1) by (rule compare_keys_range)
  have "\<forall>x \<in> set (inord l). fst x < i"
  proof (cases "i < k")
    case True
    then show ?thesis using ex cmp by (simp add: t')
  next
    case False
    then show ?thesis using around(2) by (auto simp: not_less intro: less_le_trans)
  qed
  moreover have "\<forall>x \<in> set (inord r). i < fst x"
  proof (cases "k < i")
    case True
    then show ?thesis using ex cmp by (simp add: t')
  next
    case False
    then show ?thesis using around(3) by (auto simp: not_less intro: le_less_trans)
  qed
  ultimately have ord: "\<forall>x \<in> set (linord ls @ inord l). fst x < i" "\<forall>x \<in> set (inord r @ rinord rs). i < fst x"
    using I by (auto simp: splay_I_def)
  define L where "L = build_left ls (a + node_size l) l"
  define R where "R = build_right rs (b + node_size r) r"
  have L: "sizes_ok L" "a + node_size l = int (length (inord L))"
    using build_left_sizes [of l ls "a + node_size l"] I by (auto simp: L_def splay_I_def t' node_size_ok)
  have R: "sizes_ok R" "b + node_size r = int (length (inord R))"
    using build_right_sizes [of r rs "b + node_size r"] I by (auto simp: R_def splay_I_def t' node_size_ok)
  show ?thesis
  proof
    show "splaytree_splay t i = SNode L k d (a + node_size l + (b + node_size r) + 1) R"
      using run by (simp add: splaytree_splay_def t' L_def R_def Let_def)
    show "sizes_ok (SNode L k d (a + node_size l + (b + node_size r) + 1) R)" using L R by simp
  qed (use split around(1) ord in \<open>simp_all add: L_def R_def build_left_inord build_right_inord\<close>)
qed

lemma splay_SNil [simp]: "splaytree_splay SNil i = SNil"
  by (simp add: splaytree_splay_def)

lemma st_invI: "good_list (inord t) \<Longrightarrow> sizes_ok t \<Longrightarrow> st_inv t"
  by (simp add: st_inv_def)

lemma splay_keeps:
  assumes "st_inv t" "in_range i"
  shows "st_inv (splaytree_splay t i) \<and> inord (splaytree_splay t i) = inord t"
proof (cases "t = SNil")
  case False
  then show ?thesis by (rule splay_spec [OF assms]) (use assms in \<open>simp add: st_inv_def\<close>)
qed (use assms in simp)

lemma good_list_split:
  "good_list (us @ vs) \<longleftrightarrow> good_list us \<and> good_list vs \<and> (\<forall>u \<in> set us. \<forall>v \<in> set vs. fst u < fst v)"
  by (auto simp: good_list_def sorted_wrt_append)

lemma good_list_Cons:
  "good_list ((k, d) # vs) \<longleftrightarrow> in_range k \<and> good_list vs \<and> (\<forall>v \<in> set vs. k < fst v)"
  by (auto simp: good_list_def)

lemma good_list_Nil [simp]: "good_list []"
  by (simp add: good_list_def)

section \<open>Insertion and deletion as updates of a map\<close>

lemma map_of_below: "\<forall>x \<in> set us. fst x < (i :: int) \<Longrightarrow> map_of us i = None"
  by (induction us) auto

lemma map_of_above: "\<forall>x \<in> set us. (i :: int) < fst x \<Longrightarrow> map_of us i = None"
  by (induction us) auto

lemma map_of_middle:
  "\<forall>x \<in> set us. fst x < (i :: int) \<Longrightarrow> map_of (us @ (i, d) # vs) = (map_of (us @ vs)) (i \<mapsto> d)"
  by (auto simp: map_of_below fun_eq_iff map_add_def split: option.splits)

lemma insert_spec:
  assumes "st_inv t" "in_range i"
  shows "st_inv (splaytree_insert t i x) \<and>
    st_map (splaytree_insert t i x) = (if i \<in> dom (st_map t) then st_map t else (st_map t)(i \<mapsto> x))"
proof (cases "t = SNil")
  case True
  then show ?thesis using assms(2) by (simp add: splaytree_insert_def st_inv_def st_map_def good_list_Cons)
next
  case False
  obtain l k d s r where sp: "splaytree_splay t i = SNode l k d s r" and ct: "inord l @ (k, d) # inord r = inord t"
    and sz: "sizes_ok (SNode l k d s r)" and k: "in_range k"
    and lo: "\<forall>x \<in> set (inord l). fst x < i" and hi: "\<forall>x \<in> set (inord r). i < fst x"
    using splay_spec [OF assms False] .
  have good: "good_list (inord l @ (k, d) # inord r)" using assms(1) by (simp add: st_inv_def ct)
  note cmp = compare_keys_range [OF assms(2) k]
  have at: "map_of (inord t) i = (if i = k then Some d else None)"
    using lo hi by (simp add: ct [symmetric] map_of_below map_of_above map_add_def)
  consider "i = k" | "i < k" | "k < i" by linarith
  then show ?thesis
  proof cases
    case 1
    then show ?thesis using sp cmp good sz ct at by (auto simp: splaytree_insert_def st_inv_def st_map_def)
  next
    case 2
    let ?t = "SNode l i x (2 + node_size l + node_size r) (SNode SNil k d (1 + node_size r) r)"
    have "splaytree_insert t i x = ?t" using sp cmp 2 by (simp add: splaytree_insert_def Let_def)
    moreover have "st_inv ?t"
      using sz good assms(2) lo hi 2 by (simp add: st_inv_def node_size_ok good_list_split good_list_Cons)
    moreover have "st_map ?t = (st_map t)(i \<mapsto> x)"
      using map_of_middle [OF lo, of x "(k, d) # inord r"] by (simp add: st_map_def ct [symmetric])
    ultimately show ?thesis using at 2 by (auto simp: st_map_def)
  next
    case 3
    let ?t = "SNode (SNode l k d (1 + node_size l) SNil) i x (2 + node_size l + node_size r) r"
    have "splaytree_insert t i x = ?t" using sp cmp 3 by (simp add: splaytree_insert_def Let_def)
    moreover have "st_inv ?t"
      using sz good assms(2) lo hi 3 by (simp add: st_inv_def node_size_ok good_list_split good_list_Cons)
    moreover have "st_map ?t = (st_map t)(i \<mapsto> x)"
      using map_of_middle [of "inord l @ [(k, d)]" i x "inord r"] lo 3 by (simp add: st_map_def ct [symmetric])
    ultimately show ?thesis using at 3 by (auto simp: st_map_def)
  qed
qed

lemma map_of_without:
  "\<forall>x \<in> set us. fst x < (i :: int) \<Longrightarrow> \<forall>x \<in> set vs. i < fst x \<Longrightarrow>
     map_of (us @ vs) = (map_of (us @ (i, d) # vs)) (i := None)"
  by (auto simp: fun_eq_iff map_add_def map_of_below map_of_above split: option.splits)

lemma splay_below:
  assumes "st_inv l" "in_range i" "\<forall>x \<in> set (inord l). fst x < i" "l \<noteq> SNil"
  obtains xl xk xd xs where "splaytree_splay l i = SNode xl xk xd xs SNil" "inord xl @ [(xk, xd)] = inord l" "sizes_ok xl"
proof -
  obtain xl xk xd xs xr where sp: "splaytree_splay l i = SNode xl xk xd xs xr"
    and ct: "inord xl @ (xk, xd) # inord xr = inord l" and "sizes_ok (SNode xl xk xd xs xr)"
    and "\<forall>x \<in> set (inord xr). i < fst x"
    using splay_spec [OF assms(1,2,4)] by metis
  moreover have "xr = SNil"
  proof (cases xr)
    case (SNode a k d s b)
    then have "(k, d) \<in> set (inord l)" "(k, d) \<in> set (inord xr)" using ct by (auto simp: ct [symmetric])
    then show ?thesis using assms(3) \<open>\<forall>x \<in> set (inord xr). i < fst x\<close> by force
  qed simp
  ultimately show ?thesis using that by auto
qed

lemma delete_spec:
  assumes "st_inv t" "in_range i"
  shows "st_inv (splaytree_delete t i) \<and> st_map (splaytree_delete t i) = (st_map t)(i := None)"
proof (cases "t = SNil")
  case True
  then show ?thesis by (simp add: splaytree_delete_def st_inv_def st_map_def)
next
  case False
  obtain l k d s r where sp: "splaytree_splay t i = SNode l k d s r" and ct: "inord l @ (k, d) # inord r = inord t"
    and sz: "sizes_ok (SNode l k d s r)" and k: "in_range k"
    and lo: "\<forall>x \<in> set (inord l). fst x < i" and hi: "\<forall>x \<in> set (inord r). i < fst x"
    using splay_spec [OF assms False] .
  have good: "good_list (inord l @ (k, d) # inord r)" using assms(1) by (simp add: st_inv_def ct)
  have tsz: "node_size t = int (length (inord l)) + int (length (inord r)) + 1"
    using assms(1) by (simp add: st_inv_def node_size_ok ct [symmetric])
  note cmp = compare_keys_range [OF assms(2) k]
  show ?thesis
  proof (cases "i = k")
    case neq: False
    have "st_map t i = None" using lo hi neq
      by (simp add: st_map_def ct [symmetric] map_of_below map_of_above map_add_def)
    then show ?thesis using sp cmp neq False good sz ct
      by (auto simp: splaytree_delete_def st_inv_def st_map_def fun_upd_idem)
  next
    case True
    have target: "st_map t' = (st_map t)(i := None)" "good_list (inord t')"
      if "inord t' = inord l @ inord r" for t' :: "'a stree"
      using that good map_of_without [OF lo hi, of d] True
      by (simp_all add: st_map_def ct [symmetric] good_list_split good_list_Cons)
    show ?thesis
    proof (cases "l = SNil")
      case l: True
      show ?thesis
      proof (cases r)
        case SNil
        then show ?thesis using sp cmp True False l target [of SNil] by (simp add: splaytree_delete_def st_inv_def)
      next
        case (SNode rl rk rd rs rr)
        then have "splaytree_delete t i = r"
          using sp cmp True False l tsz sz by (simp add: splaytree_delete_def Let_def)
        then show ?thesis using target [of r] l sz by (simp add: st_inv_def)
      qed
    next
      case l: False
      have "st_inv l" using good sz by (simp add: st_inv_def good_list_split)
      then obtain xl xk xd xs where x: "splaytree_splay l i = SNode xl xk xd xs SNil"
        "inord xl @ [(xk, xd)] = inord l" "sizes_ok xl" by (rule splay_below [OF _ assms(2) lo l])
      let ?t = "SNode xl xk xd (node_size t - 1) r"
      have "splaytree_delete t i = ?t" using sp cmp True False x by (simp add: splaytree_delete_def Let_def)
      moreover have "length (inord l) = Suc (length (inord xl))" using arg_cong [OF x(2), of length] by simp
      then have "sizes_ok ?t" using x(3) sz tsz by simp
      moreover have "inord ?t = inord l @ inord r" unfolding x(2) [symmetric] by simp
      ultimately show ?thesis using target [of ?t] by (simp add: st_inv_def)
    qed
  qed
qed

section \<open>Ranks\<close>

lemma find_rank_loop_nth:
  "sizes_ok t \<Longrightarrow> 0 \<le> n \<Longrightarrow> n < int (length (inord t)) \<Longrightarrow> find_rank_loop n t = Some (inord t ! nat n)"
proof (induction n t rule: find_rank_loop.induct)
  case (2 n l k d s t)
  let ?m = "int (length (inord l))"
  have l: "node_size l = ?m" using 2(3) by (simp add: node_size_ok)
  consider "n < ?m" | "n = ?m" | "n > ?m" by linarith
  then show ?case
  proof cases
    case 1
    then have "find_rank_loop n l = Some (inord l ! nat n)" using 2(1) [OF refl] 2(3-) l by simp
    then show ?thesis using 1 2(4) l by (simp add: nth_append nat_less_iff)
  next
    case 3
    then have "find_rank_loop (n - ?m - 1) t = Some (inord t ! nat (n - ?m - 1))"
      using 2(2) [OF refl] 2(3-) l by simp
    moreover have "nat n = length (inord l) + Suc (nat (n - ?m - 1))" using 3 by simp
    ultimately show ?thesis using 3 l by (simp add: nth_append)
  qed (use l in \<open>simp add: nth_append\<close>)
qed simp

lemma find_rank_spec:
  "st_inv t \<Longrightarrow> find_rank n t = (if 0 \<le> n \<and> n < int (length (inord t)) then Some (inord t ! nat n) else None)"
  by (auto simp: find_rank_def st_inv_def node_size_ok find_rank_loop_nth)

lemma SNil_facts: "st_inv SNil" "st_map SNil = Map.empty"
  by (simp_all add: st_inv_def st_map_def)

section \<open>Trees as maps\<close>

text \<open>
  Operations that refine updates of an abstract state one by one refine every sequence of them.
\<close>

locale stepwise_refinement =
  fixes inv :: "'c \<Rightarrow> bool" and abs :: "'c \<Rightarrow> 'a" and step :: "'o \<Rightarrow> 'c \<Rightarrow> 'c" and astep :: "'o \<Rightarrow> 'a \<Rightarrow> 'a"
    and ok :: "'o \<Rightarrow> bool"
  assumes step_inv: "inv c \<Longrightarrow> ok op \<Longrightarrow> inv (step op c)"
    and step_abs: "inv c \<Longrightarrow> ok op \<Longrightarrow> abs (step op c) = astep op (abs c)"
begin

lemma run_refines:
  "inv c \<Longrightarrow> \<forall>op \<in> set ops. ok op \<Longrightarrow> inv (fold step ops c) \<and> abs (fold step ops c) = fold astep ops (abs c)"
  by (induction ops arbitrary: c) (simp_all add: step_inv step_abs)

end

datatype 'd st_op = Splay int | Insert int 'd | Delete int

fun op_key :: "'d st_op \<Rightarrow> int" where
  "op_key (Splay i) = i"
| "op_key (Insert i x) = i"
| "op_key (Delete i) = i"

fun st_step :: "'d st_op \<Rightarrow> 'd stree \<Rightarrow> 'd stree" where
  "st_step (Splay i) t = splaytree_splay t i"
| "st_step (Insert i x) t = splaytree_insert t i x"
| "st_step (Delete i) t = splaytree_delete t i"

fun map_step :: "'d st_op \<Rightarrow> (int \<rightharpoonup> 'd) \<Rightarrow> (int \<rightharpoonup> 'd)" where
  "map_step (Splay i) m = m"
| "map_step (Insert i x) m = (if i \<in> dom m then m else m(i \<mapsto> x))"
| "map_step (Delete i) m = m(i := None)"

interpretation stree: stepwise_refinement st_inv st_map st_step map_step "\<lambda>op. in_range (op_key op)"
proof (unfold_locales, goal_cases)
  case (1 t op)
  then show ?case by (cases op) (simp_all add: splay_keeps insert_spec delete_spec)
next
  case (2 t op)
  then show ?case
    by (cases op) (simp_all add: splay_keeps insert_spec delete_spec st_map_def [of "splaytree_splay _ _"] st_map_def [of t])
qed

text \<open>
  How the server looks a key up: it splays the tree and compares the key of the new root.
\<close>

definition st_lookup :: "'d stree \<Rightarrow> int \<Rightarrow> 'd option" where
  "st_lookup t i = (case splaytree_splay t i of SNil \<Rightarrow> None | SNode l k d s r \<Rightarrow> if k = i then Some d else None)"

lemma lookup_spec:
  assumes "st_inv t" "in_range i"
  shows "st_lookup t i = st_map t i"
proof (cases "t = SNil")
  case False
  from splay_spec [OF assms False] obtain l k d s r where sp: "splaytree_splay t i = SNode l k d s r"
    "inord l @ (k, d) # inord r = inord t" "\<forall>x \<in> set (inord l). fst x < i" "\<forall>x \<in> set (inord r). i < fst x"
    by metis
  then show ?thesis
    by (simp add: st_lookup_def st_map_def sp(2) [symmetric] map_of_below map_of_above map_add_def)
qed (simp add: st_lookup_def st_map_def)

section \<open>Properties\<close>

text \<open>
  C20. The splay tree is a dictionary: after any sequence of splays, insertions and deletions, started
  from the empty tree, splaying a key brings exactly the value to the root that the sequence would
  have left in a finite map (an insertion keeps an older value).
\<close>

theorem splay_tree_is_a_map:
  assumes "\<forall>op \<in> set ops. in_range (op_key op)" "in_range i"
  shows "st_lookup (fold st_step ops SNil) i = fold map_step ops Map.empty i"
proof -
  note run = stree.run_refines [OF SNil_facts(1) assms(1)]
  then show ?thesis by (simp add: lookup_spec [OF _ assms(2)] SNil_facts(2))
qed

theorem splay_tree_is_a_map_witness:
  "st_lookup (fold st_step [Insert 5 ''a'', Insert 9 ''b'', Delete 5, Insert 9 ''c''] SNil) 9 = Some ''b''"
  using splay_tree_is_a_map [of "[Insert 5 ''a'', Insert 9 ''b'', Delete 5, Insert 9 ''c'']" 9]
  by (simp add: in_range_def)

text \<open>
  The size fields are right after any such sequence: the root counts the nodes, and \<open>find_rank\<close>
  returns the node with the given rank among the sorted keys, and nothing for a rank that does not exist.
\<close>

lemma find_rank_is_nth_key:
  assumes "\<forall>op \<in> set ops. in_range (op_key op)" "t = fold st_step ops SNil"
  shows "sorted_wrt (<) (map fst (inord t)) \<and> node_size t = int (length (inord t)) \<and>
    find_rank n t = (if 0 \<le> n \<and> n < int (length (inord t)) then Some (inord t ! nat n) else None)"
proof -
  have "st_inv t" using stree.run_refines [OF SNil_facts(1) assms(1)] by (simp add: assms(2))
  then show ?thesis by (simp add: find_rank_spec st_inv_def good_list_def node_size_ok)
qed

lemma find_rank_is_nth_key_example:
  "find_rank 1 (fold st_step [Insert 5 ''a'', Insert 9 ''b'', Insert 7 ''c''] SNil) = Some (7, ''c'')"
proof -
  let ?t = "fold st_step [Insert 5 ''a'', Insert 9 ''b'', Insert 7 ''c''] SNil"
  have "inord ?t = [(5, ''a''), (7, ''c''), (9, ''b'')]" by code_simp
  with find_rank_is_nth_key [of "[Insert 5 ''a'', Insert 9 ''b'', Insert 7 ''c'']" ?t 1] show ?thesis
    by (simp add: in_range_def)
qed

end
