(* ===== verification/Lt_Chunk.thy ===== *)
theory Lt_Chunk
  imports Lt_Text
begin

text \<open>
  The write queues of the web server (\<open>chunk.c\<close>) and the chunked transfer encoding on top of them
  (\<open>http_chunk.c\<close>). The linked list between \<open>first\<close> and \<open>last\<close> is a list of chunks, the stack of
  unused chunks another one. What a reset chunk does to the file system is returned as effects;
  \<open>mkstemp\<close> is a parameter. The NULL checks of the queue are left out.
\<close>

section \<open>Chunks\<close>

datatype chunk_type = UNUSED_CHUNK | MEM_CHUNK | FILE_CHUNK

record chunk =
  ck_type :: chunk_type
  ck_mem :: buffer
  ck_name :: buffer
  ck_start :: int
  ck_length :: int
  ck_fd :: int
  ck_mmap :: "nat option"
  ck_mmap_offset :: int
  ck_is_temp :: int
  ck_offset :: int

record chunkqueue =
  cq_chunks :: "chunk list"
  cq_unused :: "chunk list"
  cq_unused_chunks :: nat
  cq_tempdirs :: "buffer list"
  cq_bytes_in :: int
  cq_bytes_out :: int

datatype ck_effect = Unlink bytes | Close int | Munmap nat

definition chunkqueue_init :: chunkqueue where
  "chunkqueue_init = \<lparr>cq_chunks = [], cq_unused = [], cq_unused_chunks = 0, cq_tempdirs = [],
     cq_bytes_in = 0, cq_bytes_out = 0\<rparr>"

definition chunk_init :: chunk where
  "chunk_init = \<lparr>ck_type = UNUSED_CHUNK, ck_mem = buffer_init, ck_name = buffer_init, ck_start = 0,
     ck_length = 0, ck_fd = -1, ck_mmap = None, ck_mmap_offset = 0, ck_is_temp = 0, ck_offset = 0\<rparr>"

definition chunk_reset :: "chunk \<Rightarrow> (ck_effect list \<times> chunk) res" where
  "chunk_reset c =
     bindR (if ck_is_temp c \<noteq> 0 \<and> buffer_is_empty (ck_name c) = 0
            then bindR (cstr (bf_ptr (ck_name c))) (\<lambda>n. Inr [Unlink n]) else Inr []) (\<lambda>eff.
       Inr (eff @ (if ck_fd c \<noteq> -1 then [Close (ck_fd c)] else []) @
              (case ck_mmap c of None \<Rightarrow> [] | Some n \<Rightarrow> [Munmap n]),
            c\<lparr>ck_mem := buffer_reset (ck_mem c), ck_name := buffer_reset (ck_name c), ck_fd := -1, ck_mmap := None\<rparr>))"

section \<open>Queues\<close>

definition chunkqueue_get_unused_chunk :: "chunkqueue \<Rightarrow> chunk \<times> chunkqueue" where
  "chunkqueue_get_unused_chunk cq =
     (case cq_unused cq of
        [] \<Rightarrow> (chunk_init, cq)
      | c # cs \<Rightarrow> (c, cq\<lparr>cq_unused := cs, cq_unused_chunks := cq_unused_chunks cq - 1\<rparr>))"

definition chunkqueue_prepend_chunk :: "chunkqueue \<Rightarrow> chunk \<Rightarrow> chunkqueue" where
  "chunkqueue_prepend_chunk cq c = cq\<lparr>cq_chunks := c # cq_chunks cq\<rparr>"

definition chunkqueue_append_chunk :: "chunkqueue \<Rightarrow> chunk \<Rightarrow> chunkqueue" where
  "chunkqueue_append_chunk cq c = cq\<lparr>cq_chunks := cq_chunks cq @ [c]\<rparr>"

definition chunk_finished :: "chunk \<Rightarrow> bool" where
  "chunk_finished c =
     (case ck_type c of
        MEM_CHUNK \<Rightarrow> bf_used (ck_mem c) = 0 \<or> ck_offset c = int (bf_used (ck_mem c)) - 1
      | FILE_CHUNK \<Rightarrow> ck_offset c = ck_length c
      | UNUSED_CHUNK \<Rightarrow> False)"

text \<open>One turn of the loop of \<open>chunkqueue_remove_finished_chunks\<close> per finished chunk at the front.\<close>

fun remove_finished :: "chunk list \<Rightarrow> chunk list \<Rightarrow> nat \<Rightarrow> (ck_effect list \<times> chunk list \<times> chunk list \<times> nat) res" where
  "remove_finished [] unused n = Inr ([], [], unused, n)"
| "remove_finished (c # cs) unused n =
     (if \<not> chunk_finished c then Inr ([], c # cs, unused, n)
      else bindR (chunk_reset c) (\<lambda>(eff, c).
             bindR (if n > 4 then remove_finished cs unused n else remove_finished cs (c # unused) (n + 1))
               (\<lambda>(effs, r). Inr (eff @ effs, r))))"

definition chunkqueue_remove_finished_chunks :: "chunkqueue \<Rightarrow> (ck_effect list \<times> chunkqueue) res" where
  "chunkqueue_remove_finished_chunks cq =
     bindR (remove_finished (cq_chunks cq) (cq_unused cq) (cq_unused_chunks cq)) (\<lambda>(eff, cs, unused, n).
       Inr (eff, cq\<lparr>cq_chunks := cs, cq_unused := unused, cq_unused_chunks := n\<rparr>))"

definition mark_written :: "chunk \<Rightarrow> chunk" where
  "mark_written c =
     (case ck_type c of
        MEM_CHUNK \<Rightarrow> c\<lparr>ck_offset := int (bf_used (ck_mem c)) - 1\<rparr>
      | FILE_CHUNK \<Rightarrow> c\<lparr>ck_offset := ck_length c\<rparr>
      | UNUSED_CHUNK \<Rightarrow> c)"

definition chunkqueue_reset :: "chunkqueue \<Rightarrow> (ck_effect list \<times> chunkqueue) res" where
  "chunkqueue_reset cq =
     bindR (chunkqueue_remove_finished_chunks (cq\<lparr>cq_chunks := map mark_written (cq_chunks cq)\<rparr>)) (\<lambda>(eff, cq).
       Inr (eff, cq\<lparr>cq_bytes_in := 0, cq_bytes_out := 0\<rparr>))"

definition chunkqueue_append_file :: "chunkqueue \<Rightarrow> buffer \<Rightarrow> int \<Rightarrow> int \<Rightarrow> chunkqueue res" where
  "chunkqueue_append_file cq fn offset len =
     (if len = 0 then Inr cq
      else let (c, cq) = chunkqueue_get_unused_chunk cq
           in bindR (buffer_copy_string_buffer (ck_name c) (Some fn)) (\<lambda>(_, nm).
                Inr (chunkqueue_append_chunk cq
                       (c\<lparr>ck_type := FILE_CHUNK, ck_name := nm, ck_start := offset, ck_length := len, ck_offset := 0\<rparr>))))"

definition mem_chunk :: "buffer \<Rightarrow> chunk \<Rightarrow> chunk" where
  "mem_chunk b c = c\<lparr>ck_type := MEM_CHUNK, ck_offset := 0, ck_mem := b\<rparr>"

definition chunkqueue_append_buffer :: "chunkqueue \<Rightarrow> buffer \<Rightarrow> chunkqueue res" where
  "chunkqueue_append_buffer cq mem =
     (if bf_used mem = 0 then Inr cq
      else let (c, cq) = chunkqueue_get_unused_chunk cq
           in bindR (buffer_copy_string_buffer (ck_mem c) (Some mem)) (\<lambda>(_, b).
                Inr (chunkqueue_append_chunk cq (mem_chunk b c))))"

definition chunkqueue_append_buffer_weak :: "chunkqueue \<Rightarrow> buffer \<Rightarrow> chunkqueue" where
  "chunkqueue_append_buffer_weak cq mem =
     (if bf_used mem = 0 then cq
      else let (c, cq) = chunkqueue_get_unused_chunk cq in chunkqueue_append_chunk cq (mem_chunk mem c))"

definition chunkqueue_prepend_buffer :: "chunkqueue \<Rightarrow> buffer \<Rightarrow> chunkqueue res" where
  "chunkqueue_prepend_buffer cq mem =
     (if bf_used mem = 0 then Inr cq
      else let (c, cq) = chunkqueue_get_unused_chunk cq
           in bindR (buffer_copy_string_buffer (ck_mem c) (Some mem)) (\<lambda>(_, b).
                Inr (chunkqueue_prepend_chunk cq (mem_chunk b c))))"

definition chunkqueue_append_mem :: "chunkqueue \<Rightarrow> bytes \<Rightarrow> nat \<Rightarrow> chunkqueue res" where
  "chunkqueue_append_mem cq mem len =
     (if len = 0 then Inr cq
      else let (c, cq) = chunkqueue_get_unused_chunk cq
           in bindR (buffer_copy_string_len (ck_mem c) (Some mem) (len - 1)) (\<lambda>(_, b).
                Inr (chunkqueue_append_chunk cq (mem_chunk b c))))"

text \<open>The buffer these two return is the one of the new first or last chunk.\<close>

definition chunkqueue_get_prepend_buffer :: "chunkqueue \<Rightarrow> chunkqueue" where
  "chunkqueue_get_prepend_buffer cq =
     (let (c, cq) = chunkqueue_get_unused_chunk cq
      in chunkqueue_prepend_chunk cq (mem_chunk (buffer_reset (ck_mem c)) c))"

definition chunkqueue_get_append_buffer :: "chunkqueue \<Rightarrow> chunkqueue" where
  "chunkqueue_get_append_buffer cq =
     (let (c, cq) = chunkqueue_get_unused_chunk cq
      in chunkqueue_append_chunk cq (mem_chunk (buffer_reset (ck_mem c)) c))"

definition chunkqueue_set_tempdirs :: "chunkqueue \<Rightarrow> buffer list \<Rightarrow> chunkqueue" where
  "chunkqueue_set_tempdirs cq dirs = cq\<lparr>cq_tempdirs := dirs\<rparr>"

text \<open>
  A temporary file: \<open>mkstemp\<close> gets the template and returns a descriptor (-1 if it fails) and the
  name it made of it.
\<close>

definition buffer_append_slash :: "buffer \<Rightarrow> buffer res" where
  "buffer_append_slash b =
     (if bf_used b > 1
      then bindR (get_at (bf_ptr b) (int (bf_used b) - 2)) (\<lambda>c.
             case c of None \<Rightarrow> Inl UninitRead
             | Some c \<Rightarrow> if c \<noteq> char_byte (CHR ''/'') then append_len [char_byte (CHR ''/'')] b else Inr b)
      else Inr b)"

definition tmp_pattern :: bytes where
  "tmp_pattern = map char_byte ''lighttpd-upload-XXXXXX''"

fun try_tempdirs :: "(bytes \<Rightarrow> int \<times> bytes) \<Rightarrow> buffer list \<Rightarrow> buffer \<Rightarrow> int \<Rightarrow> (int \<times> buffer) res" where
  "try_tempdirs mkstemp [] tmpl fd = Inr (fd, tmpl)"
| "try_tempdirs mkstemp (d # ds) tmpl fd =
     bindR (buffer_copy_string_buffer tmpl (Some d)) (\<lambda>(_, t).
     bindR (buffer_append_slash t) (\<lambda>t.
     bindR (append_len tmp_pattern t) (\<lambda>t.
     bindR (cstr (bf_ptr t)) (\<lambda>s.
       let (fd, nm) = mkstemp s
       in bindR (blit 0 nm (bf_ptr t)) (\<lambda>m.
            if fd \<noteq> -1 then Inr (fd, t\<lparr>bf_ptr := m\<rparr>) else try_tempdirs mkstemp ds (t\<lparr>bf_ptr := m\<rparr>) fd)))))"

definition chunkqueue_get_append_tempfile :: "(bytes \<Rightarrow> int \<times> bytes) \<Rightarrow> chunkqueue \<Rightarrow> chunkqueue res" where
  "chunkqueue_get_append_tempfile mkstemp cq =
     bindR (buffer_init_string (Some (map char_byte ''/var/tmp/'' @ tmp_pattern))) (\<lambda>t.
       let (c, cq) = chunkqueue_get_unused_chunk cq
       in bindR (if cq_tempdirs cq \<noteq> [] then try_tempdirs mkstemp (cq_tempdirs cq) t (ck_fd c)
                 else bindR (cstr (bf_ptr t)) (\<lambda>s.
                        let (fd, nm) = mkstemp s
                        in bindR (blit 0 nm (bf_ptr t)) (\<lambda>m. Inr (fd, t\<lparr>bf_ptr := m\<rparr>)))) (\<lambda>(fd, t).
          bindR (buffer_copy_string_buffer (ck_name c) (Some t)) (\<lambda>(_, nm).
            Inr (chunkqueue_append_chunk cq
                   (c\<lparr>ck_type := FILE_CHUNK, ck_offset := 0, ck_fd := fd, ck_name := nm, ck_length := 0,
                      ck_is_temp := (if fd \<noteq> -1 then 1 else ck_is_temp c)\<rparr>)))))"

section \<open>Sizes\<close>

definition chunk_length :: "chunk \<Rightarrow> int" where
  "chunk_length c =
     (case ck_type c of
        MEM_CHUNK \<Rightarrow> (if bf_used (ck_mem c) \<noteq> 0 then int (bf_used (ck_mem c)) - 1 else 0)
      | FILE_CHUNK \<Rightarrow> ck_length c
      | UNUSED_CHUNK \<Rightarrow> 0)"

definition chunkqueue_length :: "chunkqueue \<Rightarrow> int" where
  "chunkqueue_length cq = sum_list (map chunk_length (cq_chunks cq))"

definition chunkqueue_written :: "chunkqueue \<Rightarrow> int" where
  "chunkqueue_written cq =
     sum_list (map (\<lambda>c. if ck_type c = UNUSED_CHUNK then 0 else ck_offset c) (cq_chunks cq))"

definition chunkqueue_is_empty :: "chunkqueue \<Rightarrow> int" where
  "chunkqueue_is_empty cq = (if cq_chunks cq \<noteq> [] then 0 else 1)"

section \<open>Chunked transfer encoding\<close>

record http_con =
  hc_queue :: chunkqueue
  hc_tmp :: buffer
  hc_chunked :: bool

text \<open>The number of digits, at most eight, and the digits from the last to the first.\<close>

fun len_digits :: "nat \<Rightarrow> nat \<Rightarrow> nat" where
  "len_digits 0 len = 0"
| "len_digits (Suc k) len = (if len \<noteq> 0 then Suc (len_digits k (len div 16)) else 0)"

fun len_hex :: "nat \<Rightarrow> nat \<Rightarrow> bytes" where
  "len_hex 0 len = []"
| "len_hex (Suc j) len =
     len_hex j (len div 16) @ [word_of_nat (len mod 16 + (if len mod 16 \<le> 9 then 48 else 87))]"

definition crlf :: bytes where
  "crlf = [13, 10]"

definition http_chunk_append_len :: "http_con \<Rightarrow> nat \<Rightarrow> http_con res" where
  "http_chunk_append_len con len =
     bindR (if len = 0 then buffer_copy_string (hc_tmp con) (Some [48])
            else let i = len_digits 8 len; b = buffer_prepare_copy (hc_tmp con) (i + 1)
                 in bindR (blit 0 (len_hex i len @ [0]) (bf_ptr b)) (\<lambda>m.
                      Inr (0, b\<lparr>bf_ptr := m, bf_used := i + 1\<rparr>))) (\<lambda>(_, b).
     bindR (append_str crlf b) (\<lambda>b.
     bindR (chunkqueue_append_buffer (hc_queue con) b) (\<lambda>q. Inr (con\<lparr>hc_queue := q, hc_tmp := b\<rparr>))))"

definition put_crlf :: "http_con \<Rightarrow> http_con res" where
  "put_crlf con = bindR (chunkqueue_append_mem (hc_queue con) (crlf @ [0]) 3) (\<lambda>q. Inr (con\<lparr>hc_queue := q\<rparr>))"

text \<open>\<open>size_t\<close> subtraction: the length of an empty buffer is $2^{64} - 1$.\<close>

definition http_chunk_append_file :: "http_con \<Rightarrow> buffer \<Rightarrow> int \<Rightarrow> int \<Rightarrow> http_con res" where
  "http_chunk_append_file con fn offset len =
     bindR (if hc_chunked con then http_chunk_append_len con (nat (len mod 2 ^ 64)) else Inr con) (\<lambda>con.
     bindR (chunkqueue_append_file (hc_queue con) fn offset len) (\<lambda>q.
       let con = con\<lparr>hc_queue := q\<rparr> in if hc_chunked con \<and> len > 0 then put_crlf con else Inr con))"

definition http_chunk_append_buffer :: "http_con \<Rightarrow> buffer \<Rightarrow> http_con res" where
  "http_chunk_append_buffer con mem =
     bindR (if hc_chunked con
            then http_chunk_append_len con (if bf_used mem = 0 then 2 ^ 64 - 1 else bf_used mem - 1) else Inr con) (\<lambda>con.
     bindR (chunkqueue_append_buffer (hc_queue con) mem) (\<lambda>q.
       let con = con\<lparr>hc_queue := q\<rparr> in if hc_chunked con \<and> bf_used mem > 0 then put_crlf con else Inr con))"

definition http_chunk_append_mem :: "http_con \<Rightarrow> bytes \<Rightarrow> nat \<Rightarrow> http_con res" where
  "http_chunk_append_mem con mem len =
     (if len = 0
      then bindR (if hc_chunked con then chunkqueue_append_mem (hc_queue con) (48 # crlf @ crlf @ [0]) 6
                  else chunkqueue_append_mem (hc_queue con) [0] 1) (\<lambda>q. Inr (con\<lparr>hc_queue := q\<rparr>))
      else bindR (if hc_chunked con then http_chunk_append_len con (len - 1) else Inr con) (\<lambda>con.
           bindR (chunkqueue_append_mem (hc_queue con) mem len) (\<lambda>q.
             let con = con\<lparr>hc_queue := q\<rparr> in if hc_chunked con then put_crlf con else Inr con)))"

definition http_chunkqueue_length :: "http_con \<Rightarrow> int" where
  "http_chunkqueue_length con = chunkqueue_length (hc_queue con)"

end
