(* ===== verification/Lt_Chunk_Facts.thy ===== *)
theory Lt_Chunk_Facts
  imports Lt_Chunk
begin

text \<open>
  What the write queues of the web server promise: the bytes left to send, which appends extend
  and the removal of finished chunks keeps, and a chunked stream that a reader of the encoding
  decodes to the body that was appended.
\<close>

section \<open>Buffers inside chunks\<close>

definition buf_text :: "buffer \<Rightarrow> bytes" where
  "buf_text b = map the (take (bf_used b - 1) (bf_ptr b))"

lemma holds_prefix:
  assumes "holds b s" "bf_used b \<noteq> 0"
  shows "bf_used b = length s + 1" "length s + 1 \<le> length (bf_ptr b)" "take (length s) (bf_ptr b) = map Some s"
proof -
  have t: "take (length s + 1) (bf_ptr b) = map Some (s @ [0])" and "bf_used b = length s + 1"
    "length s + 1 \<le> length (bf_ptr b)" using assms by (auto simp: holds_def buf_ok_def)
  moreover have "take (length s) (bf_ptr b) = map Some s" using arg_cong [OF t, of "take (length s)"] by simp
  ultimately show "bf_used b = length s + 1" "length s + 1 \<le> length (bf_ptr b)" "take (length s) (bf_ptr b) = map Some s"
    by simp_all
qed

lemma the_Some_id [simp]: "map (the \<circ> Some) s = s"
  by (simp add: map_idI)

lemma holds_text: "holds b s \<Longrightarrow> buf_text b = s"
  using holds_prefix [of b s] by (cases "bf_used b = 0") (auto simp: buf_text_def holds_def)

lemma holds_own: "holds b s \<Longrightarrow> holds b (buf_text b)"
  by (simp add: holds_text)

lemma holds_read: "holds b s \<Longrightarrow> bf_used b \<noteq> 0 \<Longrightarrow> read_cells (bf_used b - 1) (bf_ptr b) = Inr s"
  using holds_prefix [of b s] by (auto simp: read_cells_def)

lemma holds_ok [simp]: "holds b s \<Longrightarrow> buf_ok b"
  by (simp add: holds_def)

lemma buffer_reset_holds: "buf_ok b \<Longrightarrow> holds (buffer_reset b) []"
  by (auto simp: buffer_reset_def holds_def buf_ok_def)

lemma copy_string_buffer_spec:
  assumes "buf_ok b" "holds src s"
  shows "\<exists>r b'. buffer_copy_string_buffer b (Some src) = Inr (r, b') \<and> holds b' s"
proof (cases "bf_used src = 0")
  case True
  with assms show ?thesis by (auto simp: buffer_copy_string_buffer_def holds_def buf_ok_def)
next
  case False
  have "bf_used src - 1 = length s" using assms(2) False by (auto simp: holds_def)
  then show ?thesis
    using copy_string_len_spec [OF assms(1), of "length s" s] holds_read [OF assms(2) False] False
    by (auto simp: buffer_copy_string_buffer_def)
qed

lemma cstr_total: "Some 0 \<in> set (take n m) \<Longrightarrow> None \<notin> set (take n m) \<Longrightarrow> \<exists>t. cstr m = Inr t"
proof (induction m arbitrary: n)
  case (Cons x m)
  then obtain k where n: "n = Suc k" by (cases n) auto
  show ?case
  proof (cases x)
    case None
    with Cons.prems n show ?thesis by simp
  next
    case (Some b)
    then show ?thesis using Cons.prems Cons.IH [of k] n by (cases "b = 0") auto
  qed
qed simp

lemma cstr_holds:
  assumes "holds b s" "bf_used b \<noteq> 0"
  shows "\<exists>t. cstr (bf_ptr b) = Inr t"
proof (rule cstr_total)
  have "take (length s + 1) (bf_ptr b) = map Some (s @ [0])" using assms by (auto simp: holds_def)
  then show "Some 0 \<in> set (take (length s + 1) (bf_ptr b))" "None \<notin> set (take (length s + 1) (bf_ptr b))" by auto
qed

section \<open>What is left to send\<close>

text \<open>\<open>fs\<close> gives the contents of a file.\<close>

definition ck_rest :: "(bytes \<Rightarrow> bytes) \<Rightarrow> chunk \<Rightarrow> bytes" where
  "ck_rest fs c =
     (case ck_type c of
        MEM_CHUNK \<Rightarrow> drop (nat (ck_offset c)) (buf_text (ck_mem c))
      | FILE_CHUNK \<Rightarrow> take (nat (ck_length c - ck_offset c)) (drop (nat (ck_start c + ck_offset c)) (fs (buf_text (ck_name c))))
      | UNUSED_CHUNK \<Rightarrow> [])"

definition cq_rest :: "(bytes \<Rightarrow> bytes) \<Rightarrow> chunkqueue \<Rightarrow> bytes" where
  "cq_rest fs cq = concat (map (ck_rest fs) (cq_chunks cq))"

definition ck_wf :: "chunk \<Rightarrow> bool" where
  "ck_wf c \<longleftrightarrow> holds (ck_mem c) (buf_text (ck_mem c)) \<and> holds (ck_name c) (buf_text (ck_name c))"

definition cq_ok :: "chunkqueue \<Rightarrow> bool" where
  "cq_ok cq \<longleftrightarrow> (\<forall>c \<in> set (cq_chunks cq @ cq_unused cq). ck_wf c) \<and>
     (\<forall>c \<in> set (cq_chunks cq). ck_type c \<noteq> UNUSED_CHUNK \<and> 0 \<le> ck_offset c) \<and>
     cq_unused_chunks cq = length (cq_unused cq) \<and> length (cq_unused cq) \<le> 5"

lemma chunk_init_wf [simp]: "ck_wf chunk_init"
  using holds_own [OF buffer_init_holds] by (simp add: ck_wf_def chunk_init_def)

lemma chunkqueue_init_ok [simp]: "cq_ok chunkqueue_init"
  by (simp add: cq_ok_def chunkqueue_init_def)

lemma get_unused_ok:
  assumes "cq_ok cq"
  obtains c cq' where "chunkqueue_get_unused_chunk cq = (c, cq')" "ck_wf c" "cq_ok cq'" "cq_chunks cq' = cq_chunks cq"
proof (cases "cq_unused cq")
  case Nil
  with assms that show ?thesis by (simp add: chunkqueue_get_unused_chunk_def)
next
  case (Cons c cs)
  let ?cq = "cq\<lparr>cq_unused := cs, cq_unused_chunks := cq_unused_chunks cq - 1\<rparr>"
  have "cq_ok ?cq" "ck_wf c" using assms Cons by (auto simp: cq_ok_def)
  with Cons that [of c ?cq] show ?thesis by (simp add: chunkqueue_get_unused_chunk_def)
qed

lemma append_mem_chunk:
  assumes "cq_ok cq" "ck_wf c" "holds b s"
  shows "cq_ok (chunkqueue_append_chunk cq (mem_chunk b c)) \<and>
    cq_rest fs (chunkqueue_append_chunk cq (mem_chunk b c)) = cq_rest fs cq @ s"
  using assms holds_text [OF assms(3)]
  by (auto simp: chunkqueue_append_chunk_def mem_chunk_def cq_ok_def ck_wf_def cq_rest_def ck_rest_def)

lemma append_mem_spec:
  assumes "cq_ok cq" "0 < len" "len - 1 \<le> length mem"
  shows "\<exists>cq'. chunkqueue_append_mem cq mem len = Inr cq' \<and> cq_ok cq' \<and> cq_rest fs cq' = cq_rest fs cq @ take (len - 1) mem"
proof -
  obtain c cq1 where g: "chunkqueue_get_unused_chunk cq = (c, cq1)" "ck_wf c" "cq_ok cq1" "cq_chunks cq1 = cq_chunks cq"
    using get_unused_ok [OF assms(1)] .
  then have "buf_ok (ck_mem c)" by (auto simp: ck_wf_def)
  from copy_string_len_spec [OF this assms(3)] obtain b where
    b: "buffer_copy_string_len (ck_mem c) (Some mem) (len - 1) = Inr (0, b)" "holds b (take (len - 1) mem)" by auto
  moreover have "cq_rest fs cq1 = cq_rest fs cq" using g(4) by (simp add: cq_rest_def)
  ultimately show ?thesis using g append_mem_chunk [OF g(3,2) b(2), of fs] assms(2)
    by (simp add: chunkqueue_append_mem_def)
qed

lemma append_buffer_spec:
  assumes "cq_ok cq" "holds mem s"
  shows "\<exists>cq'. chunkqueue_append_buffer cq mem = Inr cq' \<and> cq_ok cq' \<and> cq_rest fs cq' = cq_rest fs cq @ s"
proof (cases "bf_used mem = 0")
  case True
  with assms show ?thesis by (auto simp: chunkqueue_append_buffer_def holds_def)
next
  case False
  obtain c cq1 where g: "chunkqueue_get_unused_chunk cq = (c, cq1)" "ck_wf c" "cq_ok cq1" "cq_chunks cq1 = cq_chunks cq"
    using get_unused_ok [OF assms(1)] .
  then have "buf_ok (ck_mem c)" by (auto simp: ck_wf_def)
  from copy_string_buffer_spec [OF this assms(2)] obtain r b where
    b: "buffer_copy_string_buffer (ck_mem c) (Some mem) = Inr (r, b)" "holds b s" by auto
  moreover have "cq_rest fs cq1 = cq_rest fs cq" using g(4) by (simp add: cq_rest_def)
  ultimately show ?thesis using g append_mem_chunk [OF g(3,2) b(2), of fs] False
    by (simp add: chunkqueue_append_buffer_def)
qed

section \<open>Removing what was sent\<close>

lemma finished_rest: "ck_wf c \<Longrightarrow> chunk_finished c \<Longrightarrow> ck_rest fs c = []"
proof -
  assume w: "ck_wf c" and f: "chunk_finished c"
  then obtain s where "holds (ck_mem c) s" by (auto simp: ck_wf_def)
  then have "buf_text (ck_mem c) = s" "bf_used (ck_mem c) = 0 \<and> s = [] \<or> bf_used (ck_mem c) = length s + 1"
    by (auto simp: holds_text holds_def)
  then show ?thesis using f by (auto simp: chunk_finished_def ck_rest_def split: chunk_type.splits)
qed

lemma finished_size: "chunk_finished c \<Longrightarrow> 0 \<le> ck_offset c \<Longrightarrow> bf_used (ck_mem c) \<noteq> 0 \<or> ck_type c = FILE_CHUNK \<Longrightarrow>
    chunk_length c = ck_offset c"
  by (auto simp: chunk_finished_def chunk_length_def split: chunk_type.splits)

lemma chunk_reset_spec:
  assumes "ck_wf c"
  shows "\<exists>eff c'. chunk_reset c = Inr (eff, c') \<and> ck_wf c' \<and> (\<forall>n. Unlink n \<in> set eff \<longrightarrow> ck_is_temp c \<noteq> 0)"
proof -
  have nm: "\<exists>t. cstr (bf_ptr (ck_name c)) = Inr t" if "buffer_is_empty (ck_name c) = 0"
    using assms that cstr_holds by (fastforce simp: ck_wf_def buffer_is_empty_def)
  have wf: "ck_wf (c\<lparr>ck_mem := buffer_reset (ck_mem c), ck_name := buffer_reset (ck_name c), ck_fd := -1, ck_mmap := None\<rparr>)"
    using assms holds_own [OF buffer_reset_holds [OF holds_ok]] by (auto simp: ck_wf_def)
  show ?thesis
  proof (cases "ck_is_temp c \<noteq> 0 \<and> buffer_is_empty (ck_name c) = 0")
    case True
    with nm wf show ?thesis by (auto simp: chunk_reset_def)
  next
    case False
    with wf show ?thesis by (auto simp: chunk_reset_def split: option.splits)
  qed
qed

text \<open>The front of the queue is cut off, nothing unsent with it.\<close>

lemma remove_finished_spec:
  assumes "\<forall>c \<in> set (cs @ unused). ck_wf c" "n = length unused" "n \<le> 5"
  shows "\<exists>eff k unused' n'. remove_finished cs unused n = Inr (eff, drop k cs, unused', n') \<and>
    (\<forall>c \<in> set unused'. ck_wf c) \<and> n' = length unused' \<and> n' \<le> 5 \<and>
    (\<forall>c \<in> set (take k cs). chunk_finished c) \<and> (drop k cs = [] \<or> \<not> chunk_finished (hd (drop k cs))) \<and>
    (\<forall>x. Unlink x \<in> set eff \<longrightarrow> (\<exists>c \<in> set (take k cs). ck_is_temp c \<noteq> 0))"
  using assms
proof (induction cs arbitrary: unused n)
  case Nil
  then show ?case by (intro exI [of _ "[]"] exI [of _ "0 :: nat"] exI [of _ unused] exI [of _ n]) simp
next
  case (Cons c cs)
  show ?case
  proof (cases "chunk_finished c")
    case False
    then show ?thesis using Cons.prems
      by (intro exI [of _ "[]"] exI [of _ "0 :: nat"] exI [of _ unused] exI [of _ n]) simp
  next
    case True
    obtain eff c' where r: "chunk_reset c = Inr (eff, c')" "ck_wf c'" "\<forall>n. Unlink n \<in> set eff \<longrightarrow> ck_is_temp c \<noteq> 0"
      using chunk_reset_spec [of c] Cons.prems(1) by auto
    define u m where "u = (if n > 4 then unused else c' # unused)" and "m = (if n > 4 then n else n + 1)"
    have "\<forall>c \<in> set (cs @ u). ck_wf c" "m = length u" "m \<le> 5"
      using Cons.prems r(2) by (auto simp: u_def m_def)
    from Cons.IH [OF this] obtain effs k u' m' where ih: "remove_finished cs u m = Inr (effs, drop k cs, u', m')"
      "\<forall>c \<in> set u'. ck_wf c" "m' = length u'" "m' \<le> 5" "\<forall>c \<in> set (take k cs). chunk_finished c"
      "drop k cs = [] \<or> \<not> chunk_finished (hd (drop k cs))"
      "\<forall>x. Unlink x \<in> set effs \<longrightarrow> (\<exists>c \<in> set (take k cs). ck_is_temp c \<noteq> 0)" by blast
    have "remove_finished (c # cs) unused n = Inr (eff @ effs, drop (Suc k) (c # cs), u', m')"
      using ih(1) True r(1) by (auto simp: u_def m_def split: if_splits)
    then show ?thesis using ih(2-) r(3) True
      by (intro exI [of _ "eff @ effs"] exI [of _ "Suc k"] exI [of _ u'] exI [of _ m']) auto
  qed
qed

lemma concat_finished: "\<forall>c \<in> set cs. ck_wf c \<and> chunk_finished c \<Longrightarrow> concat (map (ck_rest fs) cs) = []"
  by (induction cs) (auto simp: finished_rest)

lemma remove_finished_queue:
  assumes "cq_ok cq"
  shows "\<exists>eff cq'. chunkqueue_remove_finished_chunks cq = Inr (eff, cq') \<and> cq_ok cq' \<and> cq_rest fs cq' = cq_rest fs cq \<and>
    (cq_chunks cq' = [] \<or> \<not> chunk_finished (hd (cq_chunks cq'))) \<and>
    (\<forall>x. Unlink x \<in> set eff \<longrightarrow> (\<exists>c \<in> set (cq_chunks cq). ck_is_temp c \<noteq> 0))"
proof -
  let ?cs = "cq_chunks cq"
  have pre: "\<forall>c \<in> set (?cs @ cq_unused cq). ck_wf c" "cq_unused_chunks cq = length (cq_unused cq)" "cq_unused_chunks cq \<le> 5"
    using assms by (simp_all add: cq_ok_def)
  obtain eff k u n where r: "remove_finished ?cs (cq_unused cq) (cq_unused_chunks cq) = Inr (eff, drop k ?cs, u, n)"
    "\<forall>c \<in> set u. ck_wf c" "n = length u" "n \<le> 5" "\<forall>c \<in> set (take k ?cs). chunk_finished c"
    "drop k ?cs = [] \<or> \<not> chunk_finished (hd (drop k ?cs))"
    "\<forall>x. Unlink x \<in> set eff \<longrightarrow> (\<exists>c \<in> set (take k ?cs). ck_is_temp c \<noteq> 0)"
    using remove_finished_spec [OF pre] by blast
  let ?cq = "cq\<lparr>cq_chunks := drop k ?cs, cq_unused := u, cq_unused_chunks := n\<rparr>"
  have "concat (map (ck_rest fs) (take k ?cs)) = []"
    using r(5) pre(1) by (intro concat_finished) (auto dest: in_set_takeD)
  moreover have "map (ck_rest fs) ?cs = map (ck_rest fs) (take k ?cs) @ map (ck_rest fs) (drop k ?cs)"
    by (metis append_take_drop_id map_append)
  ultimately have "cq_rest fs ?cq = cq_rest fs cq" by (simp add: cq_rest_def)
  moreover have "cq_ok ?cq" using assms r(2-4) by (auto simp: cq_ok_def dest: in_set_dropD)
  ultimately show ?thesis using r(1,6,7)
    by (intro exI [of _ eff] exI [of _ ?cq]) (auto simp: chunkqueue_remove_finished_chunks_def dest: in_set_takeD)
qed

section \<open>Reading a chunked stream\<close>

text \<open>
  A reader of the encoding: a size in hexadecimal and a line end, that many bytes and a line end,
  until a size of 0.
\<close>

definition hexv :: "byte \<Rightarrow> nat option" where
  "hexv c = (if 48 \<le> c \<and> c \<le> 57 then Some (unat c - 48)
             else if 97 \<le> c \<and> c \<le> 102 then Some (unat c - 87) else None)"

fun chunk_size :: "nat \<Rightarrow> bytes \<Rightarrow> (nat \<times> bytes) option" where
  "chunk_size n [] = None"
| "chunk_size n (c # r) =
     (if c = 13 then (case r of d # r' \<Rightarrow> if d = 10 then Some (n, r') else None | [] \<Rightarrow> None)
      else case hexv c of None \<Rightarrow> None | Some v \<Rightarrow> chunk_size (16 * n + v) r)"

lemma chunk_size_shorter: "chunk_size n w = Some (m, r) \<Longrightarrow> length r < length w"
  by (induction n w rule: chunk_size.induct) (fastforce split: if_splits option.splits list.splits)+

function unchunk :: "bytes \<Rightarrow> bytes option" where
  "unchunk w =
     (case chunk_size 0 w of
        None \<Rightarrow> None
      | Some (n, r) \<Rightarrow>
          if n = 0 then (if r = crlf then Some [] else None)
          else if take 2 (drop n r) \<noteq> crlf then None
          else map_option (\<lambda>s. take n r @ s) (unchunk (drop (n + 2) r)))"
  by pat_completeness auto
termination
  by (relation "measure length") (auto dest!: chunk_size_shorter)

declare unchunk.simps [simp del]

lemma hexv_digit: "d < 16 \<Longrightarrow> hexv (word_of_nat (d + (if d \<le> 9 then 48 else 87))) = Some d"
proof -
  have "\<forall>d \<in> set [0..<16]. hexv (word_of_nat (d + (if d \<le> 9 then 48 else 87))) = Some d" by code_simp
  then show "d < 16 \<Longrightarrow> hexv (word_of_nat (d + (if d \<le> 9 then 48 else 87))) = Some d" by simp
qed

lemma hexv_13: "hexv 13 = None"
  by (simp add: hexv_def)

lemma chunk_size_hex:
  "chunk_size n (len_hex j len @ r) = chunk_size (16 ^ j * n + len mod 16 ^ j) r"
proof (induction j arbitrary: len r)
  case (Suc j)
  let ?d = "len mod 16"
  let ?c = "word_of_nat (?d + (if ?d \<le> 9 then 48 else 87)) :: byte"
  have h: "hexv ?c = Some ?d" by (rule hexv_digit) simp
  then have "?c \<noteq> 13" using hexv_13 by (metis option.distinct(1))
  then have step: "chunk_size m (?c # r) = chunk_size (16 * m + ?d) r" for m using h by simp
  have m: "len mod 16 ^ Suc j = 16 * (len div 16 mod 16 ^ j) + len mod 16"
    using mod_mult2_eq [of len 16 "16 ^ j"] by simp
  have "chunk_size n (len_hex (Suc j) len @ r) = chunk_size (16 ^ j * n + len div 16 mod 16 ^ j) (?c # r)"
    using Suc.IH [of "len div 16" "?c # r"] by (simp del: chunk_size.simps)
  also have "\<dots> = chunk_size (16 ^ Suc j * n + len mod 16 ^ Suc j) r"
    unfolding step m by (simp add: algebra_simps)
  finally show ?case .
qed (simp)

lemma len_digits_enough: "len < 16 ^ k \<Longrightarrow> len < 16 ^ len_digits k len"
proof (induction k arbitrary: len)
  case (Suc k)
  show ?case
  proof (cases "len = 0")
    case False
    have "len div 16 < 16 ^ k" using Suc.prems by (simp add: less_mult_imp_div_less mult.commute)
    from Suc.IH [OF this] have "len div 16 < 16 ^ len_digits k (len div 16)" .
    then show ?thesis using False by (simp add: div_less_iff_less_mult mult.commute)
  qed simp
qed simp

lemma len_hex_length [simp]: "length (len_hex j len) = j"
  by (induction j arbitrary: len) simp_all

lemma unchunk_frame:
  assumes "t \<noteq> []" "length t < 2 ^ 32"
  shows "unchunk (len_hex (len_digits 8 (length t)) (length t) @ crlf @ t @ crlf @ w) = map_option (\<lambda>s. t @ s) (unchunk w)"
proof -
  have "length t < 16 ^ len_digits 8 (length t)" using assms(2) by (intro len_digits_enough) simp
  then have "chunk_size 0 (len_hex (len_digits 8 (length t)) (length t) @ crlf @ t @ crlf @ w) = Some (length t, t @ crlf @ w)"
    by (simp add: chunk_size_hex del: chunk_size.simps) (simp add: crlf_def)
  then show ?thesis using assms(1) by (subst unchunk.simps) (simp add: crlf_def)
qed

section \<open>Writing one\<close>

text \<open>
  An open stream: whatever follows, a reader gets \<open>s\<close> and then what it reads of the rest.
\<close>

definition open_stream :: "http_con \<Rightarrow> bytes \<Rightarrow> bool" where
  "open_stream con s \<longleftrightarrow> hc_chunked con \<and> cq_ok (hc_queue con) \<and> buf_ok (hc_tmp con) \<and>
     (\<forall>w. unchunk (cq_rest (\<lambda>_. []) (hc_queue con) @ w) = map_option (\<lambda>r. s @ r) (unchunk w))"

definition body_piece :: "bytes \<Rightarrow> bool" where
  "body_piece t \<longleftrightarrow> t \<noteq> [] \<and> length t < 2 ^ 32"

definition put_piece :: "bytes \<Rightarrow> http_con \<Rightarrow> http_con res" where
  "put_piece t con = http_chunk_append_mem con t (length t + 1)"

lemma append_len_spec:
  assumes "cq_ok (hc_queue con)" "buf_ok (hc_tmp con)" "0 < len"
  shows "\<exists>q b. http_chunk_append_len con len = Inr (con\<lparr>hc_queue := q, hc_tmp := b\<rparr>) \<and> cq_ok q \<and> buf_ok b \<and>
    cq_rest fs q = cq_rest fs (hc_queue con) @ len_hex (len_digits 8 len) len @ crlf"
proof -
  let ?i = "len_digits 8 len"
  let ?h = "len_hex ?i len"
  let ?b = "buffer_prepare_copy (hc_tmp con) (?i + 1)"
  let ?m = "map Some (?h @ [0]) @ drop (?i + 1) (bf_ptr ?b)"
  have p: "?i + 1 \<le> length (bf_ptr ?b)" "buf_ok ?b"
    using prepare_copy_spec [OF assms(2), of "?i + 1"] by (auto simp: buf_ok_def)
  then have bl: "blit 0 (?h @ [0]) (bf_ptr ?b) = Inr ?m" by (simp add: blit_def)
  have h: "holds (?b\<lparr>bf_ptr := ?m, bf_used := ?i + 1\<rparr>) ?h"
    using p by (simp add: holds_def buf_ok_def)
  obtain b where b: "append_str crlf (?b\<lparr>bf_ptr := ?m, bf_used := ?i + 1\<rparr>) = Inr b" "holds b (?h @ crlf)"
    using strbuf.app_ok [OF h, of crlf] by auto
  obtain q where q: "chunkqueue_append_buffer (hc_queue con) b = Inr q" "cq_ok q"
    "cq_rest fs q = cq_rest fs (hc_queue con) @ ?h @ crlf"
    using append_buffer_spec [OF assms(1) b(2), of fs] by auto
  have "http_chunk_append_len con len = Inr (con\<lparr>hc_queue := q, hc_tmp := b\<rparr>)"
    using bl b(1) q(1) assms(3) by (simp add: http_chunk_append_len_def Let_def)
  then show ?thesis using q(2,3) b(2) holds_ok by blast
qed

interpretation stream: text_buffer open_stream put_piece body_piece
proof
  fix con s t
  assume o: "open_stream con s" and t: "body_piece t"
  let ?fs = "\<lambda>_. [] :: bytes"
  let ?n = "len_digits 8 (length t)"
  have ok: "cq_ok (hc_queue con)" "buf_ok (hc_tmp con)" "hc_chunked con" "0 < length t"
    using o t by (auto simp: open_stream_def body_piece_def)
  obtain q1 b where s1: "http_chunk_append_len con (length t) = Inr (con\<lparr>hc_queue := q1, hc_tmp := b\<rparr>)" "cq_ok q1" "buf_ok b"
    "cq_rest ?fs q1 = cq_rest ?fs (hc_queue con) @ len_hex ?n (length t) @ crlf"
    using append_len_spec [OF ok(1,2,4), of ?fs] by auto
  obtain q2 where s2: "chunkqueue_append_mem q1 t (length t + 1) = Inr q2" "cq_ok q2"
    "cq_rest ?fs q2 = cq_rest ?fs q1 @ t" using append_mem_spec [OF s1(2), of "length t + 1" t ?fs] by auto
  obtain q3 where s3: "chunkqueue_append_mem q2 (crlf @ [0]) 3 = Inr q3" "cq_ok q3"
    "cq_rest ?fs q3 = cq_rest ?fs q2 @ crlf"
    using append_mem_spec [OF s2(2), of 3 "crlf @ [0]" ?fs] by (auto simp: crlf_def)
  let ?con = "con\<lparr>hc_queue := q3, hc_tmp := b\<rparr>"
  have "put_piece t con = Inr ?con"
    using s1(1) s2(1) s3(1) ok(3) by (simp add: put_piece_def http_chunk_append_mem_def put_crlf_def Let_def)
  moreover have "open_stream ?con (s @ t)"
    using o t s1(3,4) s2(3) s3(2,3) unchunk_frame [of t]
    by (simp add: open_stream_def body_piece_def option.map_comp comp_def)
  ultimately show "\<exists>con'. put_piece t con = Inr con' \<and> open_stream con' (s @ t)" by blast
qed

section \<open>Properties\<close>


definition con_chunked :: http_con where
  "con_chunked = \<lparr>hc_queue = chunkqueue_init, hc_tmp = buffer_init, hc_chunked = True\<rparr>"


definition buf_of :: "byte \<Rightarrow> buffer" where
  "buf_of c = \<lparr>bf_ptr = [Some c, Some 0], bf_used = 2, bf_size = 2\<rparr>"

definition cq_half_sent :: chunkqueue where
  "cq_half_sent = chunkqueue_init\<lparr>cq_chunks :=
     [(mem_chunk (buf_of 65) chunk_init)\<lparr>ck_offset := 1\<rparr>, mem_chunk (buf_of 66) chunk_init]\<rparr>"

text \<open>
  C22. Cleaning up a queue loses nothing: removing finished chunks always succeeds, keeps the bytes that
  are left to send, in order, and at most five chunks for reuse, and leaves an unfinished chunk in
  front or an empty queue.
\<close>

theorem removal_keeps_unsent_bytes:
  assumes "cq_ok cq"
  shows "\<exists>eff cq'. chunkqueue_remove_finished_chunks cq = Inr (eff, cq') \<and> cq_ok cq' \<and>
    cq_rest fs cq' = cq_rest fs cq \<and> length (cq_unused cq') \<le> 5 \<and>
    (chunkqueue_is_empty cq' = 1 \<or> \<not> chunk_finished (hd (cq_chunks cq')))"
proof -
  obtain eff cq' where r: "chunkqueue_remove_finished_chunks cq = Inr (eff, cq')" "cq_ok cq'" "cq_rest fs cq' = cq_rest fs cq"
    "cq_chunks cq' = [] \<or> \<not> chunk_finished (hd (cq_chunks cq'))"
    using remove_finished_queue [OF assms] by blast
  then have "length (cq_unused cq') \<le> 5" by (simp add: cq_ok_def)
  with r show ?thesis by (auto simp: chunkqueue_is_empty_def)
qed

theorem removal_keeps_unsent_bytes_witness:
  "\<exists>eff cq'. chunkqueue_remove_finished_chunks cq_half_sent = Inr (eff, cq') \<and> cq_rest (\<lambda>_. []) cq' = [66]"
proof -
  have "cq_ok cq_half_sent"
    by (simp add: cq_half_sent_def cq_ok_def chunkqueue_init_def ck_wf_def mem_chunk_def buf_of_def buf_text_def holds_def
        buf_ok_def chunk_init_def buffer_init_def)
  moreover have "cq_rest (\<lambda>_. []) cq_half_sent = [66]"
    by (simp add: cq_half_sent_def cq_rest_def ck_rest_def chunkqueue_init_def mem_chunk_def buf_of_def buf_text_def)
  ultimately show ?thesis using removal_keeps_unsent_bytes [of cq_half_sent "\<lambda>_. []"] by metis
qed

text \<open>
  Clearing a whole queue: every chunk of it is reset, a chunk marked temporary with its file.
\<close>

lemma mark_written_facts:
  "ck_wf c \<Longrightarrow> ck_wf (mark_written c)" "ck_is_temp (mark_written c) = ck_is_temp c" "ck_name (mark_written c) = ck_name c"
  "ck_type c \<noteq> UNUSED_CHUNK \<Longrightarrow> chunk_finished (mark_written c)"
  by (cases "ck_type c"; simp add: mark_written_def ck_wf_def chunk_finished_def)+

lemma reset_unlinks:
  assumes "ck_wf c" "ck_is_temp c \<noteq> 0" "buf_text (ck_name c) = n" "n \<noteq> []" "0 \<notin> set n"
  shows "\<exists>eff c'. chunk_reset c = Inr (eff, c') \<and> Unlink n \<in> set eff"
proof -
  have h: "holds (ck_name c) n" using assms(1,3) by (simp add: ck_wf_def)
  then have "bf_used (ck_name c) \<noteq> 0" using assms(4) by (auto simp: holds_def)
  then show ?thesis using holds_cstr [OF h _ assms(5)] assms(2)
    by (simp add: chunk_reset_def buffer_is_empty_def)
qed

lemma remove_finished_all:
  assumes "\<forall>c \<in> set cs. ck_wf c \<and> chunk_finished c"
  shows "\<exists>eff u' n'. remove_finished cs u n = Inr (eff, [], u', n') \<and>
    (\<forall>c \<in> set cs. \<forall>x. ck_is_temp c \<noteq> 0 \<and> buf_text (ck_name c) = x \<and> x \<noteq> [] \<and> 0 \<notin> set x \<longrightarrow> Unlink x \<in> set eff)"
  using assms
proof (induction cs arbitrary: u n)
  case (Cons c cs)
  obtain e c' where r: "chunk_reset c = Inr (e, c')" using chunk_reset_spec [of c] Cons.prems by auto
  let ?u = "if n > 4 then u else c' # u" let ?n = "if n > 4 then n else n + 1"
  obtain eff u' n' where ih: "remove_finished cs ?u ?n = Inr (eff, [], u', n')"
    "\<forall>c \<in> set cs. \<forall>x. ck_is_temp c \<noteq> 0 \<and> buf_text (ck_name c) = x \<and> x \<noteq> [] \<and> 0 \<notin> set x \<longrightarrow> Unlink x \<in> set eff"
    using Cons.IH [of ?u ?n] Cons.prems by auto
  have "remove_finished (c # cs) u n = Inr (e @ eff, [], u', n')"
    using ih(1) r Cons.prems by (auto split: if_splits)
  moreover have "Unlink x \<in> set e"
    if "ck_is_temp c \<noteq> 0" "buf_text (ck_name c) = x" "x \<noteq> []" "0 \<notin> set x" for x
    using reset_unlinks [of c x] that r Cons.prems by auto
  ultimately show ?case using ih(2) by auto
qed simp

text \<open>
  A chunk keeps the mark of a temporary file when it is reused: if the chunk that is taken for a file
  response once held an upload, then clearing the queue deletes the file that was being served.
\<close>

lemma reused_chunk_deletes_served_file:
  assumes "cq_ok cq" "cq_unused cq = c # cs" "ck_is_temp c \<noteq> 0" "holds fn n" "n \<noteq> []" "0 \<notin> set n" "0 < len"
  shows "\<exists>cq1 eff cq2. chunkqueue_append_file cq fn offset len = Inr cq1 \<and> chunkqueue_reset cq1 = Inr (eff, cq2) \<and>
    Unlink n \<in> set eff"
proof -
  have wf: "ck_wf c" using assms(1,2) by (simp add: cq_ok_def)
  then obtain r nm where nm: "buffer_copy_string_buffer (ck_name c) (Some fn) = Inr (r, nm)" "holds nm n"
    using copy_string_buffer_spec [OF _ assms(4), of "ck_name c"] by (auto simp: ck_wf_def)
  let ?c = "c\<lparr>ck_type := FILE_CHUNK, ck_name := nm, ck_start := offset, ck_length := len, ck_offset := 0\<rparr>"
  let ?cq = "chunkqueue_append_chunk (cq\<lparr>cq_unused := cs, cq_unused_chunks := cq_unused_chunks cq - 1\<rparr>) ?c"
  have app: "chunkqueue_append_file cq fn offset len = Inr ?cq"
    using assms(2,7) nm(1) by (simp add: chunkqueue_append_file_def chunkqueue_get_unused_chunk_def)
  have c: "ck_wf ?c" using wf nm(2) holds_own by (simp add: ck_wf_def)
  let ?cs = "map mark_written (cq_chunks ?cq)"
  have "\<forall>d \<in> set ?cs. ck_wf d \<and> chunk_finished d"
    using assms(1) c mark_written_facts by (auto simp: chunkqueue_append_chunk_def cq_ok_def)
  moreover have "mark_written ?c \<in> set ?cs" by (simp add: chunkqueue_append_chunk_def)
  ultimately obtain eff u k where "remove_finished ?cs (cq_unused ?cq) (cq_unused_chunks ?cq) = Inr (eff, [], u, k)"
    "Unlink n \<in> set eff"
    using remove_finished_all [of ?cs "cq_unused ?cq" "cq_unused_chunks ?cq"] holds_text [OF nm(2)] assms(3,5,6)
    by (fastforce simp: mark_written_facts)
  then show ?thesis using app
    by (simp add: chunkqueue_reset_def chunkqueue_remove_finished_chunks_def)
qed

lemma reused_chunk_deletes_served_file_example:
  "\<exists>cq1 eff cq2. chunkqueue_append_file (chunkqueue_init\<lparr>cq_unused := [chunk_init\<lparr>ck_is_temp := 1\<rparr>], cq_unused_chunks := 1\<rparr>)
      \<lparr>bf_ptr = [Some 65, Some 0], bf_used = 2, bf_size = 2\<rparr> 0 10 = Inr cq1 \<and>
    chunkqueue_reset cq1 = Inr (eff, cq2) \<and> Unlink [65] \<in> set eff"
proof (rule reused_chunk_deletes_served_file [where c = "chunk_init\<lparr>ck_is_temp := 1\<rparr>" and cs = "[]"])
  show "cq_ok (chunkqueue_init\<lparr>cq_unused := [chunk_init\<lparr>ck_is_temp := 1\<rparr>], cq_unused_chunks := 1\<rparr>)"
    using chunk_init_wf by (simp add: cq_ok_def chunkqueue_init_def ck_wf_def)
qed (simp_all add: chunkqueue_init_def chunk_init_def holds_def buf_ok_def)

end
