(* ===== verification/Lt_Md5.thy ===== *)
theory Lt_Md5
  imports Lt_Buffer
begin

unbundle bit_operations_syntax

text \<open>
  The message digest of the web server (\<open>md5.c\<close>, RFC 1321): the four rounds on words of 32 bits, the
  context that collects a message piece by piece, and its end. A piece is shorter than
  $2^{32} - 64$ bytes, so that the \<open>unsigned int\<close> \<open>i + 63\<close> of the block loop does not wrap.
\<close>

section \<open>Rounds\<close>

type_synonym md5_state = "32 word \<times> 32 word \<times> 32 word \<times> 32 word"

definition md5_F :: "32 word \<Rightarrow> 32 word \<Rightarrow> 32 word \<Rightarrow> 32 word" where
  "md5_F x y z = (x AND y) OR (NOT x AND z)"

definition md5_G :: "32 word \<Rightarrow> 32 word \<Rightarrow> 32 word \<Rightarrow> 32 word" where
  "md5_G x y z = (x AND z) OR (y AND NOT z)"

definition md5_H :: "32 word \<Rightarrow> 32 word \<Rightarrow> 32 word \<Rightarrow> 32 word" where
  "md5_H x y z = x XOR y XOR z"

definition md5_I :: "32 word \<Rightarrow> 32 word \<Rightarrow> 32 word \<Rightarrow> 32 word" where
  "md5_I x y z = y XOR (x OR NOT z)"

definition ROTATE_LEFT :: "32 word \<Rightarrow> nat \<Rightarrow> 32 word" where
  "ROTATE_LEFT x n = push_bit n x OR drop_bit (32 - n) x"

text \<open>
  The macros \<open>FF\<close> to \<open>II\<close> differ in their function only. The four registers change places from one
  line to the next, \<open>(a, b, c, d)\<close>, \<open>(d, a, b, c)\<close>, \<open>(c, d, a, b)\<close>, \<open>(b, c, d, a)\<close>.
\<close>

definition md5_op ::
  "(32 word \<Rightarrow> 32 word \<Rightarrow> 32 word \<Rightarrow> 32 word) \<Rightarrow> 32 word list \<Rightarrow> nat \<times> nat \<times> 32 word \<Rightarrow> md5_state \<Rightarrow> md5_state" where
  "md5_op f x = (\<lambda>(k, s, ac) (a, b, c, d). (d, ROTATE_LEFT (a + (f b c d + x ! k + ac)) s + b, b, c))"

definition round1 :: "(nat \<times> nat \<times> 32 word) list" where
  "round1 = [(0, 7, 0xd76aa478), (1, 12, 0xe8c7b756), (2, 17, 0x242070db), (3, 22, 0xc1bdceee),
     (4, 7, 0xf57c0faf), (5, 12, 0x4787c62a), (6, 17, 0xa8304613), (7, 22, 0xfd469501),
     (8, 7, 0x698098d8), (9, 12, 0x8b44f7af), (10, 17, 0xffff5bb1), (11, 22, 0x895cd7be),
     (12, 7, 0x6b901122), (13, 12, 0xfd987193), (14, 17, 0xa679438e), (15, 22, 0x49b40821)]"

definition round2 :: "(nat \<times> nat \<times> 32 word) list" where
  "round2 = [(1, 5, 0xf61e2562), (6, 9, 0xc040b340), (11, 14, 0x265e5a51), (0, 20, 0xe9b6c7aa),
     (5, 5, 0xd62f105d), (10, 9, 0x2441453), (15, 14, 0xd8a1e681), (4, 20, 0xe7d3fbc8),
     (9, 5, 0x21e1cde6), (14, 9, 0xc33707d6), (3, 14, 0xf4d50d87), (8, 20, 0x455a14ed),
     (13, 5, 0xa9e3e905), (2, 9, 0xfcefa3f8), (7, 14, 0x676f02d9), (12, 20, 0x8d2a4c8a)]"

definition round3 :: "(nat \<times> nat \<times> 32 word) list" where
  "round3 = [(5, 4, 0xfffa3942), (8, 11, 0x8771f681), (11, 16, 0x6d9d6122), (14, 23, 0xfde5380c),
     (1, 4, 0xa4beea44), (4, 11, 0x4bdecfa9), (7, 16, 0xf6bb4b60), (10, 23, 0xbebfbc70),
     (13, 4, 0x289b7ec6), (0, 11, 0xeaa127fa), (3, 16, 0xd4ef3085), (6, 23, 0x4881d05),
     (9, 4, 0xd9d4d039), (12, 11, 0xe6db99e5), (15, 16, 0x1fa27cf8), (2, 23, 0xc4ac5665)]"

definition round4 :: "(nat \<times> nat \<times> 32 word) list" where
  "round4 = [(0, 6, 0xf4292244), (7, 10, 0x432aff97), (14, 15, 0xab9423a7), (5, 21, 0xfc93a039),
     (12, 6, 0x655b59c3), (3, 10, 0x8f0ccc92), (10, 15, 0xffeff47d), (1, 21, 0x85845dd1),
     (8, 6, 0x6fa87e4f), (15, 10, 0xfe2ce6e0), (6, 15, 0xa3014314), (13, 21, 0x4e0811a1),
     (4, 6, 0xf7537e82), (11, 10, 0xbd3af235), (2, 15, 0x2ad7d2bb), (9, 21, 0xeb86d391)]"

section \<open>Blocks\<close>

fun Decode :: "bytes \<Rightarrow> 32 word list" where
  "Decode (b0 # b1 # b2 # b3 # r) =
     (ucast b0 OR push_bit 8 (ucast b1) OR push_bit 16 (ucast b2) OR push_bit 24 (ucast b3)) # Decode r"
| "Decode _ = []"

definition Encode :: "32 word list \<Rightarrow> bytes" where
  "Encode ws = concat (map (\<lambda>w. [ucast (w AND 0xff), ucast (drop_bit 8 w AND 0xff),
     ucast (drop_bit 16 w AND 0xff), ucast (drop_bit 24 w AND 0xff)]) ws)"

definition MD5Transform :: "md5_state \<Rightarrow> bytes \<Rightarrow> md5_state" where
  "MD5Transform state block =
     (let x = Decode block;
          st = fold (md5_op md5_F x) round1 state;
          st = fold (md5_op md5_G x) round2 st;
          st = fold (md5_op md5_H x) round3 st;
          (a, b, c, d) = fold (md5_op md5_I x) round4 st;
          (s0, s1, s2, s3) = state
      in (s0 + a, s1 + b, s2 + c, s3 + d))"

section \<open>Contexts\<close>

record MD5_CTX =
  md_state :: md5_state
  md_count0 :: "32 word"
  md_count1 :: "32 word"
  md_buffer :: bytes

definition MD5_Init :: "MD5_CTX \<Rightarrow> MD5_CTX" where
  "MD5_Init ctx = ctx\<lparr>md_count0 := 0, md_count1 := 0, md_state := (0x67452301, 0xefcdab89, 0x98badcfe, 0x10325476)\<rparr>"

function upd_loop :: "md5_state \<Rightarrow> bytes \<Rightarrow> nat \<Rightarrow> md5_state \<times> nat" where
  "upd_loop st input i =
     (if i + 63 < length input then upd_loop (MD5Transform st (take 64 (drop i input))) input (i + 64) else (st, i))"
  by pat_completeness auto
termination by (relation "measure (\<lambda>(st, input, i). length input - i)") auto

declare upd_loop.simps [simp del]

definition put_bytes :: "nat \<Rightarrow> bytes \<Rightarrow> bytes \<Rightarrow> bytes" where
  "put_bytes pos s buf = take pos buf @ s @ drop (pos + length s) buf"

definition MD5_Update :: "MD5_CTX \<Rightarrow> bytes \<Rightarrow> MD5_CTX" where
  "MD5_Update ctx input =
     (let inputLen = length input;
          ndx = unat (drop_bit 3 (md_count0 ctx) AND 0x3F);
          w = (word_of_nat inputLen :: 32 word);
          c0 = md_count0 ctx + push_bit 3 w;
          c1 = (if c0 < push_bit 3 w then md_count1 ctx + 1 else md_count1 ctx) + drop_bit 29 w;
          partLen = 64 - ndx;
          (st, buf, ndx, i) =
            (if inputLen \<ge> partLen
             then let buf = put_bytes ndx (take partLen input) (md_buffer ctx);
                      (st, i) = upd_loop (MD5Transform (md_state ctx) buf) input partLen
                  in (st, buf, 0, i)
             else (md_state ctx, md_buffer ctx, ndx, 0))
      in \<lparr>md_state = st, md_count0 = c0, md_count1 = c1, md_buffer = put_bytes ndx (drop i input) buf\<rparr>)"

definition PADDING :: bytes where
  "PADDING = 0x80 # replicate 63 0"

definition MD5_Final :: "MD5_CTX \<Rightarrow> bytes \<times> MD5_CTX" where
  "MD5_Final ctx =
     (let bits = Encode [md_count0 ctx, md_count1 ctx];
          ndx = unat (drop_bit 3 (md_count0 ctx) AND 0x3f);
          padLen = (if ndx < 56 then 56 - ndx else 120 - ndx);
          ctx = MD5_Update ctx (take padLen PADDING);
          ctx = MD5_Update ctx bits;
          (a, b, c, d) = md_state ctx
      in (Encode [a, b, c, d], \<lparr>md_state = (0, 0, 0, 0), md_count0 = 0, md_count1 = 0, md_buffer = replicate 64 0\<rparr>))"

section \<open>The digest of a whole message\<close>

text \<open>
  RFC 1321: the message, a bit 1, zeros up to 8 bytes below a multiple of 64, the number of bits as
  64 bits with the least significant byte first; then all blocks in turn.
\<close>

function absorb :: "md5_state \<Rightarrow> bytes \<Rightarrow> md5_state" where
  "absorb st m = (if 64 \<le> length m then absorb (MD5Transform st (take 64 m)) (drop 64 m) else st)"
  by pat_completeness auto
termination by (relation "measure (\<lambda>(st, m). length m)") auto

declare absorb.simps [simp del]

definition md5_start :: md5_state where
  "md5_start = (0x67452301, 0xefcdab89, 0x98badcfe, 0x10325476)"

definition le64 :: "nat \<Rightarrow> bytes" where
  "le64 n = map (\<lambda>k. word_of_nat (n div 256 ^ k)) [0..<8]"

definition md5_pad :: "nat \<Rightarrow> bytes" where
  "md5_pad n = 0x80 # replicate ((119 - n mod 64) mod 64) 0"

definition md5_padded :: "bytes \<Rightarrow> bytes" where
  "md5_padded m = m @ md5_pad (length m) @ le64 (8 * length m)"

definition md5_digest :: "bytes \<Rightarrow> bytes" where
  "md5_digest m = (let (a, b, c, d) = absorb md5_start (md5_padded m) in Encode [a, b, c, d])"

section \<open>Absorbing piece by piece\<close>

definition tail64 :: "bytes \<Rightarrow> bytes" where
  "tail64 m = drop (64 * (length m div 64)) m"

lemma tail64_length [simp]: "length (tail64 m) = length m mod 64"
  by (simp add: tail64_def minus_mult_div_eq_mod)

lemma tail64_step: "64 \<le> length m \<Longrightarrow> tail64 (drop 64 m) = tail64 m"
proof -
  assume m: "64 \<le> length m"
  then have "length m div 64 = Suc ((length m - 64) div 64)" by (simp add: le_div_geq)
  then show ?thesis by (simp add: tail64_def add.commute)
qed

lemma tail64_small: "length m < 64 \<Longrightarrow> tail64 m = m"
  by (simp add: tail64_def)

lemma absorb_append: "absorb st (m @ t) = absorb (absorb st m) (tail64 m @ t) \<and> tail64 (m @ t) = tail64 (tail64 m @ t)"
proof (induction st m rule: absorb.induct)
  case (1 st m)
  show ?case
  proof (cases "64 \<le> length m")
    case True
    have "absorb st (m @ t) = absorb (MD5Transform st (take 64 m)) (drop 64 m @ t)"
      using True by (subst absorb.simps) simp
    moreover have "absorb st m = absorb (MD5Transform st (take 64 m)) (drop 64 m)" using True by (subst absorb.simps) simp
    moreover have "tail64 (m @ t) = tail64 (drop 64 m @ t)" using tail64_step [of "m @ t"] True by simp
    ultimately show ?thesis using 1 [OF True] tail64_step [OF True] by simp
  next
    case False
    then show ?thesis by (simp add: tail64_small absorb.simps [of st m])
  qed
qed

lemma upd_loop_absorb:
  "i \<le> length t \<Longrightarrow> upd_loop st t i = (absorb st (drop i t), length t - length (tail64 (drop i t)))"
proof (induction st t i rule: upd_loop.induct)
  case (1 st t i)
  show ?case
  proof (cases "i + 63 < length t")
    case True
    then have "upd_loop st t i = upd_loop (MD5Transform st (take 64 (drop i t))) t (i + 64)" by (subst upd_loop.simps) simp
    moreover have "64 \<le> length (drop i t)" using True by simp
    then have "absorb st (drop i t) = absorb (MD5Transform st (take 64 (drop i t))) (drop 64 (drop i t))"
      by (subst absorb.simps) (simp only: if_True)
    moreover have "tail64 (drop 64 (drop i t)) = tail64 (drop i t)" using True by (intro tail64_step) simp
    moreover have "upd_loop (MD5Transform st (take 64 (drop i t))) t (i + 64) =
        (absorb (MD5Transform st (take 64 (drop i t))) (drop (i + 64) t), length t - length (tail64 (drop (i + 64) t)))"
      using 1(1) True by simp
    moreover have "drop 64 (drop i t) = drop (i + 64) t" by (simp add: add.commute)
    ultimately show ?thesis by (metis (no_types))
  next
    case False
    then have short: "\<not> 64 \<le> length (drop i t)" by simp
    then have "absorb st (drop i t) = st" by (subst absorb.simps) (simp only: if_False)
    moreover have "upd_loop st t i = (st, i)" using False by (subst upd_loop.simps) (simp only: if_False)
    moreover have "tail64 (drop i t) = drop i t" using short by (intro tail64_small) simp
    ultimately show ?thesis using 1(2) by simp
  qed
qed

lemma tail64_suffix: "drop (length t - length (tail64 t)) t = tail64 t"
  by (simp add: tail64_def minus_mod_eq_mult_div [symmetric] minus_mult_div_eq_mod)

section \<open>The bit count\<close>

definition bit_count :: "MD5_CTX \<Rightarrow> nat" where
  "bit_count ctx = unat (md_count0 ctx) + 2 ^ 32 * unat (md_count1 ctx)"

lemma carry_add:
  fixes a b :: "32 word"
  shows "unat a + unat b = unat (a + b) + 2 ^ 32 * (if a + b < b then 1 else 0)"
proof -
  have lt: "unat a < 2 ^ 32" "unat b < 2 ^ 32" using unsigned_less [of a] unsigned_less [of b] by simp_all
  have s: "unat (a + b) = (unat a + unat b) mod 2 ^ 32" by (simp add: unat_word_ariths)
  show ?thesis
  proof (cases "unat a + unat b < 2 ^ 32")
    case True
    then show ?thesis using s by (simp add: word_less_nat_alt)
  next
    case False
    then have m: "(unat a + unat b) mod 2 ^ 32 = unat a + unat b - 2 ^ 32"
      using lt by (simp add: mod_if)
    then have "unat (a + b) < unat b" using s lt False by linarith
    then show ?thesis using s m False by (simp add: word_less_nat_alt)
  qed
qed

lemma unat_push_3: "unat (push_bit 3 (w :: 32 word)) = 8 * unat w mod 2 ^ 32"
proof -
  have "unat (push_bit 3 w) = take_bit 32 (push_bit 3 (unat w))" by (simp only: unsigned_push_bit_eq) simp
  then show ?thesis by (simp only: take_bit_eq_mod push_bit_eq_mult) (simp add: mult.commute)
qed

lemma unat_drop_bit_div: "unat (drop_bit n (w :: 32 word)) = unat w div 2 ^ n"
proof -
  have "unat (drop_bit n w) = drop_bit n (unat w)" by (simp only: unat_drop_bit_eq)
  then show ?thesis by (simp only: drop_bit_eq_div [where 'a = nat])
qed

lemma mod_two_digits:
  fixes a x :: nat
  assumes "a < 2 ^ 32"
  shows "a + 2 ^ 32 * (x mod 2 ^ 32) = (a + 2 ^ 32 * x) mod 2 ^ 64"
proof -
  have "(a + 2 ^ 32 * x) mod (2 ^ 32 * 2 ^ 32) =
      2 ^ 32 * ((a + 2 ^ 32 * x) div 2 ^ 32 mod 2 ^ 32) + (a + 2 ^ 32 * x) mod 2 ^ 32"
    by (rule mod_mult2_eq)
  moreover have "(a + 2 ^ 32 * x) div 2 ^ 32 = x" "(a + 2 ^ 32 * x) mod 2 ^ 32 = a" using assms by simp_all
  moreover have "(2 ^ 32 * 2 ^ 32 :: nat) = 2 ^ 64" by simp
  ultimately show ?thesis by (metis add.commute)
qed

lemma shifted_length:
  assumes "n < 2 ^ 32"
  shows "unat (push_bit 3 (word_of_nat n :: 32 word)) + 2 ^ 32 * unat (drop_bit 29 (word_of_nat n :: 32 word)) = 8 * n"
proof -
  have "unat (word_of_nat n :: 32 word) = n" using assms by (simp add: unat_of_nat)
  then have "unat (push_bit 3 (word_of_nat n :: 32 word)) = 8 * n mod 2 ^ 32"
    "unat (drop_bit 29 (word_of_nat n :: 32 word)) = n div 2 ^ 29"
    by (simp_all only: unat_push_3 unat_drop_bit_div)
  moreover have "8 * n mod 2 ^ 32 + 2 ^ 32 * (8 * n div 2 ^ 32) = 8 * n" by (rule mod_mult_div_eq)
  moreover have "8 * n div 2 ^ 32 = n div (2 ^ 29 :: nat)"
    using div_mult_mult1 [of 8 n "2 ^ 29 :: nat"] by simp
  ultimately show ?thesis by (simp only:)
qed

lemma bit_count_update:
  assumes "length t < 2 ^ 32"
  shows "bit_count (MD5_Update ctx t) = (bit_count ctx + 8 * length t) mod 2 ^ 64"
proof -
  let ?w = "word_of_nat (length t) :: 32 word"
  let ?q = "push_bit 3 ?w"
  let ?c0 = "md_count0 ctx + ?q"
  let ?k = "if ?c0 < ?q then 1 else 0 :: nat"
  let ?c1 = "(if ?c0 < ?q then md_count1 ctx + 1 else md_count1 ctx) + drop_bit 29 ?w"
  have "bit_count (MD5_Update ctx t) = unat ?c0 + 2 ^ 32 * unat ?c1"
    by (simp add: bit_count_def MD5_Update_def Let_def split_beta)
  also have "unat ?c1 = (unat (md_count1 ctx) + ?k + unat (drop_bit 29 ?w)) mod 2 ^ 32"
    by (simp add: unat_word_ariths mod_simps)
  also have "unat ?c0 + 2 ^ 32 * ((unat (md_count1 ctx) + ?k + unat (drop_bit 29 ?w)) mod 2 ^ 32) =
      (unat ?c0 + 2 ^ 32 * (unat (md_count1 ctx) + ?k + unat (drop_bit 29 ?w))) mod 2 ^ 64"
    using unsigned_less [of ?c0] by (intro mod_two_digits) simp
  also have "unat ?c0 + 2 ^ 32 * (unat (md_count1 ctx) + ?k + unat (drop_bit 29 ?w)) = bit_count ctx + 8 * length t"
    using carry_add [of "md_count0 ctx" ?q] shifted_length [OF assms] unfolding bit_count_def distrib_left by linarith
  finally show ?thesis .
qed

lemma buffer_index: "bit_count ctx = 8 * n mod 2 ^ 64 \<Longrightarrow> unat (drop_bit 3 (md_count0 ctx) AND 0x3F) = n mod 64"
proof -
  assume c: "bit_count ctx = 8 * n mod 2 ^ 64"
  have "unat (md_count0 ctx) < 2 ^ 32" using unsigned_less [of "md_count0 ctx"] by simp
  then have "unat (md_count0 ctx) = bit_count ctx mod 2 ^ 32" by (simp add: bit_count_def)
  also have "\<dots> = 8 * n mod 2 ^ 32" by (simp add: c mod_mod_cancel)
  finally have "unat (drop_bit 3 (md_count0 ctx)) = 8 * n mod 2 ^ 32 div 2 ^ 3"
    by (simp only: unat_drop_bit_div)
  also have "8 * n mod 2 ^ 32 div 2 ^ 3 = n mod 2 ^ 29"
    using mult_mod_right [of 8 n "2 ^ 29 :: nat"] by simp
  finally have "unat (drop_bit 3 (md_count0 ctx)) mod 64 = n mod 64" by (simp add: mod_mod_cancel)
  moreover have "(0x3F :: 32 word) = mask 6" by (simp add: mask_eq_exp_minus_1)
  ultimately show ?thesis by (simp only: take_bit_eq_mask [symmetric] unsigned_take_bit_eq) (simp only: take_bit_eq_mod, simp)
qed

section \<open>The context of a message\<close>

definition ctx_repr :: "MD5_CTX \<Rightarrow> bytes \<Rightarrow> bool" where
  "ctx_repr ctx m \<longleftrightarrow> md_state ctx = absorb md5_start m \<and> take (length (tail64 m)) (md_buffer ctx) = tail64 m
     \<and> length (md_buffer ctx) = 64 \<and> bit_count ctx = 8 * length m mod 2 ^ 64"

lemma MD5_Init_repr: "length (md_buffer ctx) = 64 \<Longrightarrow> ctx_repr (MD5_Init ctx) []"
  by (simp add: ctx_repr_def MD5_Init_def md5_start_def bit_count_def tail64_def absorb.simps [of _ "[]"])

lemma put_bytes_in_range:
  "pos + length s \<le> length buf \<Longrightarrow> length (put_bytes pos s buf) = length buf \<and> take (pos + length s) (put_bytes pos s buf) = take pos buf @ s"
  by (auto simp: put_bytes_def)

lemma MD5_Update_fields:
  fixes t :: bytes
  assumes "ctx_repr ctx m"
  defines "n \<equiv> length (tail64 m)"
  defines "buf \<equiv> tail64 m @ take (64 - n) t"
  shows "64 - n \<le> length t \<Longrightarrow> md_state (MD5_Update ctx t) = absorb (MD5Transform (md_state ctx) buf) (drop (64 - n) t)
      \<and> md_buffer (MD5_Update ctx t) = put_bytes 0 (tail64 (drop (64 - n) t)) buf"
    and "length t < 64 - n \<Longrightarrow> md_state (MD5_Update ctx t) = md_state ctx
      \<and> md_buffer (MD5_Update ctx t) = put_bytes n t (md_buffer ctx)"
proof -
  have ndx: "unat (drop_bit 3 (md_count0 ctx) AND 0x3F) = n"
    using assms buffer_index [of ctx "length m"] by (simp add: ctx_repr_def)
  show "length t < 64 - n \<Longrightarrow> md_state (MD5_Update ctx t) = md_state ctx
      \<and> md_buffer (MD5_Update ctx t) = put_bytes n t (md_buffer ctx)"
    unfolding MD5_Update_def ndx Let_def by simp
  assume t: "64 - n \<le> length t"
  have buf: "put_bytes n (take (64 - n) t) (md_buffer ctx) = buf"
    using assms(1) t by (simp add: put_bytes_def buf_def n_def ctx_repr_def)
  let ?r = "drop (64 - n) t"
  have "drop (length t - length (tail64 ?r)) t = drop (length ?r - length (tail64 ?r)) ?r"
    using t by (simp add: add.commute)
  then have rest: "drop (length t - length (tail64 ?r)) t = tail64 ?r" by (simp only: tail64_suffix)
  have loop: "upd_loop (MD5Transform (md_state ctx) buf) t (64 - n) =
      (absorb (MD5Transform (md_state ctx) buf) ?r, length t - length (tail64 ?r))"
    by (rule upd_loop_absorb [OF t])
  show "md_state (MD5_Update ctx t) = absorb (MD5Transform (md_state ctx) buf) ?r
      \<and> md_buffer (MD5_Update ctx t) = put_bytes 0 (tail64 ?r) buf"
    unfolding MD5_Update_def ndx Let_def buf loop using t by (simp add: rest del: tail64_length)
qed

lemma MD5_Update_repr:
  assumes c: "ctx_repr ctx m" and t: "length t < 2 ^ 32"
  shows "ctx_repr (MD5_Update ctx t) (m @ t)"
proof -
  let ?n = "length (tail64 m)"
  have inv: "md_state ctx = absorb md5_start m" "take ?n (md_buffer ctx) = tail64 m" "length (md_buffer ctx) = 64"
    "bit_count ctx = 8 * length m mod 2 ^ 64" "?n < 64"
    using c by (simp_all add: ctx_repr_def)
  have count: "bit_count (MD5_Update ctx t) = 8 * length (m @ t) mod 2 ^ 64"
    unfolding bit_count_update [OF t] inv(4) by (simp add: mod_simps)
  have split: "absorb md5_start (m @ t) = absorb (md_state ctx) (tail64 m @ t)" "tail64 (m @ t) = tail64 (tail64 m @ t)"
    using absorb_append [of md5_start m t] inv(1) by simp_all
  show ?thesis
  proof (cases "64 - ?n \<le> length t")
    case True
    let ?buf = "tail64 m @ take (64 - ?n) t" and ?r = "drop (64 - ?n) t"
    have blk: "take 64 (tail64 m @ t) = ?buf" "drop 64 (tail64 m @ t) = ?r" "64 \<le> length (tail64 m @ t)" "length ?buf = 64"
      using True inv(5) by simp_all
    have "absorb (md_state ctx) (tail64 m @ t) = absorb (MD5Transform (md_state ctx) ?buf) ?r"
      using blk by (subst absorb.simps) (simp only: if_True)
    moreover have tl: "tail64 (m @ t) = tail64 ?r" using tail64_step [OF blk(3)] blk(2) split(2) by simp
    moreover have "length (put_bytes 0 (tail64 ?r) ?buf) = 64"
      "take (length (tail64 ?r)) (put_bytes 0 (tail64 ?r) ?buf) = tail64 ?r"
      using put_bytes_in_range [of 0 "tail64 ?r" ?buf] blk(4) by simp_all
    ultimately show ?thesis
      using MD5_Update_fields(1) [OF c True] count split(1) unfolding ctx_repr_def tl by (simp only: simp_thms)
  next
    case False
    then have short: "length (tail64 m @ t) < 64" by simp
    have "absorb (md_state ctx) (tail64 m @ t) = md_state ctx" using short by (subst absorb.simps) simp
    moreover have tl: "tail64 (m @ t) = tail64 m @ t" using split(2) tail64_small [OF short] by simp
    moreover have "length (put_bytes ?n t (md_buffer ctx)) = 64" "take (?n + length t) (put_bytes ?n t (md_buffer ctx)) = tail64 m @ t"
      using put_bytes_in_range [of ?n t "md_buffer ctx"] inv short by simp_all
    moreover have "length t < 64 - ?n" using False by simp
    ultimately show ?thesis
      using MD5_Update_fields(2) [OF c] count split(1) unfolding ctx_repr_def tl length_append by (simp only: simp_thms)
  qed
qed

section \<open>The end of a message\<close>

lemma byte_eq: "(word_of_nat a :: 8 word) = word_of_nat b \<longleftrightarrow> a mod 256 = b mod 256"
  by (simp add: word_of_nat_eq_iff take_bit_eq_mod)

lemma Encode_byte: "(ucast (drop_bit n w AND 0xff) :: 8 word) = word_of_nat (unat (w :: 32 word) div 2 ^ n)"
proof -
  have mask: "(0xff :: 32 word) = mask 8" by (simp add: mask_eq_exp_minus_1)
  have "unat (take_bit 8 (drop_bit n w)) = take_bit 8 (unat (drop_bit n w))" by (simp only: unsigned_take_bit_eq)
  also have "\<dots> = unat w div 2 ^ n mod 2 ^ 8" by (simp only: take_bit_eq_mod unat_drop_bit_div)
  finally have "unat (drop_bit n w AND 0xff) = unat w div 2 ^ n mod 2 ^ 8" by (simp only: mask take_bit_eq_mask)
  then have "(ucast (drop_bit n w AND 0xff) :: 8 word) = word_of_nat (unat w div 2 ^ n mod 2 ^ 8)"
    by (metis of_nat_unat)
  also have "\<dots> = word_of_nat (unat w div 2 ^ n)" by (simp add: byte_eq)
  finally show ?thesis .
qed

lemma Encode_byte_0: "(ucast (w AND 0xff) :: 8 word) = word_of_nat (unat (w :: 32 word) div 2 ^ 0)"
  using Encode_byte [of 0 w] by (simp only: drop_bit_0 id_apply)

lemma le64_mod: "le64 (n mod 2 ^ 64) = le64 n"
proof -
  have "n mod 2 ^ 64 div 256 ^ k mod 256 = n div 256 ^ k mod 256" if "k < 8" for k
  proof -
    have e: "(2 ^ 64 :: nat) = 256 ^ k * 256 ^ (8 - k)" using that by (simp add: power_add [symmetric])
    have "n mod (256 ^ k * 256 ^ (8 - k)) div 256 ^ k = n div 256 ^ k mod 256 ^ (8 - k)"
      by (simp add: mod_mult2_eq)
    moreover have "(256 :: nat) dvd 256 ^ (8 - k)" using that by (intro dvd_power) simp
    ultimately show ?thesis unfolding e by (simp add: mod_mod_cancel)
  qed
  then show ?thesis by (simp add: le64_def byte_eq del: upt_rec_numeral)
qed

lemma Encode_count: "Encode [c0, c1] = le64 (unat c0 + 2 ^ 32 * unat c1)"
proof -
  let ?n = "unat c0 + 2 ^ 32 * unat c1"
  have lo: "unat c0 div 2 ^ k mod 256 = ?n div 2 ^ k mod 256" if "k \<le> 24" for k
  proof -
    have "(2 ^ 32 :: nat) = 2 ^ k * 2 ^ (32 - k)" using that by (simp add: power_add [symmetric])
    then have "?n = unat c0 + 2 ^ k * (2 ^ (32 - k) * unat c1)" by (simp only: mult.assoc)
    then have "?n div 2 ^ k = unat c0 div 2 ^ k + 2 ^ (32 - k) * unat c1" by (simp only:) simp
    moreover have "(2 ^ 8 :: nat) dvd 2 ^ (32 - k)" using that by (intro le_imp_power_dvd) simp
    then have "(2 ^ (32 - k) * unat c1) mod 256 = 0" by (simp add: dvd_mult2)
    ultimately show ?thesis by (metis add.right_neutral mod_add_right_eq)
  qed
  have "unat c0 < 2 ^ 32" using unsigned_less [of c0] by simp
  then have "?n div 2 ^ 32 = unat c1" by simp
  then have hi: "unat c1 div 2 ^ k = ?n div 2 ^ (32 + k)" for k by (simp only: power_add div_mult2_eq)
  have ks: "32 + 0 = (32 :: nat)" "32 + 8 = (40 :: nat)" "32 + 16 = (48 :: nat)" "32 + 24 = (56 :: nat)" by simp_all
  have bytes: "le64 ?n = map (\<lambda>k. word_of_nat (?n div 2 ^ k)) [0, 8, 16, 24, 32, 40, 48, 56]"
    unfolding le64_def by (simp add: upt_conv_Cons)
  have enc: "Encode [c0, c1] = map (\<lambda>k. word_of_nat (unat c0 div 2 ^ k)) [0, 8, 16, 24] @ map (\<lambda>k. word_of_nat (unat c1 div 2 ^ k)) [0, 8, 16, 24]"
    unfolding Encode_def by (simp only: list.map concat.simps append.simps Encode_byte_0 unat_drop_bit_div power_0 div_by_1)
  have lows: "(0 :: nat) \<le> 24" "(8 :: nat) \<le> 24" "(16 :: nat) \<le> 24" "(24 :: nat) \<le> 24" by simp_all
  show ?thesis
    unfolding enc bytes list.map append.simps list.inject byte_eq lows [THEN lo] hi ks by (intro conjI refl)
qed

lemma mod_119: "r < 64 \<Longrightarrow> (119 - r) mod 64 = (if r < 56 then 55 - r else 119 - r :: nat)"
proof (cases "r < 56")
  case True
  then have "(119 - r) mod 64 = (119 - r - 64) mod 64" by (intro le_mod_geq) simp
  then show ?thesis using True by simp
qed simp

lemma padding_shape:
  "take (if n mod 64 < 56 then 56 - n mod 64 else 120 - n mod 64) PADDING = md5_pad n"
  "length (md5_pad n) < 2 ^ 32" "length (le64 k) < 2 ^ 32"
proof -
  have r: "n mod 64 < 64" by simp
  have "(119 - n mod 64) mod 64 = (if n mod 64 < 56 then 55 - n mod 64 else 119 - n mod 64)"
    using r by (intro mod_119)
  moreover have "take (Suc j) PADDING = 0x80 # replicate (min j 63) 0" for j by (simp add: PADDING_def)
  moreover have "56 - n mod 64 = Suc (55 - n mod 64)" if "n mod 64 < 56" using that by simp
  moreover have "min (55 - n mod 64) 63 = 55 - n mod 64" by (intro min_absorb1) linarith
  moreover have "120 - n mod 64 = Suc (119 - n mod 64)" using r by simp
  ultimately show "take (if n mod 64 < 56 then 56 - n mod 64 else 120 - n mod 64) PADDING = md5_pad n"
    using r unfolding md5_pad_def by (cases "n mod 64 < 56") auto
  have "(119 - n mod 64) mod 64 < 64" by simp
  then show "length (md5_pad n) < 2 ^ 32" unfolding md5_pad_def length_Cons length_replicate by (simp del: mod_less_divisor)
qed (simp add: le64_def)

lemma MD5_Final_repr:
  assumes c: "ctx_repr ctx m"
  shows "fst (MD5_Final ctx) = md5_digest m"
proof -
  have ndx: "unat (drop_bit 3 (md_count0 ctx) AND 0x3f) = length m mod 64"
    using c buffer_index [of ctx "length m"] by (simp add: ctx_repr_def)
  have bits: "Encode [md_count0 ctx, md_count1 ctx] = le64 (8 * length m)"
    using c le64_mod [of "8 * length m"] unfolding Encode_count ctx_repr_def bit_count_def by argo
  let ?last = "MD5_Update (MD5_Update ctx (md5_pad (length m))) (le64 (8 * length m))"
  have "ctx_repr ?last ((m @ md5_pad (length m)) @ le64 (8 * length m))"
    by (intro MD5_Update_repr c padding_shape)
  then have "md_state ?last = absorb md5_start (md5_padded m)" by (simp only: ctx_repr_def md5_padded_def append_assoc)
  then show ?thesis
    unfolding MD5_Final_def ndx bits Let_def padding_shape md5_digest_def by (simp add: split_beta)
qed

section \<open>A test vector of RFC 1321\<close>

lemma md5_op_apply: "md5_op f x (k, s, ac) (a, b, c, d) = (d, ROTATE_LEFT (a + (f b c d + x ! k + ac)) s + b, b, c)"
  by (simp add: md5_op_def)

lemma le64_24: "le64 24 = [24, 0, 0, 0, 0, 0, 0, 0]"
  by (simp add: le64_def upt_conv_Cons)

lemma replicate_numeral: "replicate (numeral k) x = x # replicate (pred_numeral k) x"
  by (simp add: numeral_eq_Suc)

lemma pad_3: "md5_pad 3 = [0x80, 0, 0, 0, 0, 0, 0, 0, 0, 0, 0, 0, 0, 0, 0, 0, 0, 0, 0, 0, 0, 0, 0, 0, 0, 0, 0, 0, 0,
    0, 0, 0, 0, 0, 0, 0, 0, 0, 0, 0, 0, 0, 0, 0, 0, 0, 0, 0, 0, 0, 0, 0, 0]"
  by (simp add: md5_pad_def replicate_numeral)

lemma known_block: "md5_padded [0x61, 0x62, 0x63] = [0x61, 0x62, 0x63, 0x80, 0, 0, 0, 0, 0, 0, 0, 0, 0, 0, 0, 0, 0, 0, 0, 0, 0, 0, 0, 0, 0, 0, 0, 0, 0, 0, 0, 0,
    0, 0, 0, 0, 0, 0, 0, 0, 0, 0, 0, 0, 0, 0, 0, 0, 0, 0, 0, 0, 0, 0, 0, 0, 24, 0, 0, 0, 0, 0, 0, 0]"
  using pad_3 le64_24 by (simp add: md5_padded_def numeral_3_eq_3)

lemma known_round1:
  "fold (md5_op md5_F [0x80636261, 0, 0, 0, 0, 0, 0, 0, 0, 0, 0, 0, 0, 0, 24, 0]) round1 (0x67452301, 0xefcdab89, 0x98badcfe, 0x10325476) =
     (0xdda9b9a6, 0x72aff2e0, 0xe396856b, 0xa1051895)"
  by (simp add: md5_op_apply ROTATE_LEFT_def md5_F_def round1_def)

lemma known_round2:
  "fold (md5_op md5_G [0x80636261, 0, 0, 0, 0, 0, 0, 0, 0, 0, 0, 0, 0, 0, 24, 0]) round2 (0xdda9b9a6, 0x72aff2e0, 0xe396856b, 0xa1051895) =
     (0x790a77fb, 0x726342d3, 0xa62884aa, 0x9f47e4f8)"
  by (simp add: md5_op_apply ROTATE_LEFT_def md5_G_def round2_def)

lemma known_round3:
  "fold (md5_op md5_H [0x80636261, 0, 0, 0, 0, 0, 0, 0, 0, 0, 0, 0, 0, 0, 24, 0]) round3 (0x790a77fb, 0x726342d3, 0xa62884aa, 0x9f47e4f8) =
     (0x7f2e507b, 0x7beb9700, 0x8fae6399, 0x99d9679d)"
  by (simp add: md5_op_apply ROTATE_LEFT_def md5_H_def round3_def)

lemma known_round4:
  "fold (md5_op md5_I [0x80636261, 0, 0, 0, 0, 0, 0, 0, 0, 0, 0, 0, 0, 0, 24, 0]) round4 (0x7f2e507b, 0x7beb9700, 0x8fae6399, 0x99d9679d) =
     (0x310ade8f, 0xc08226b3, 0xe484b9d8, 0x624d8cb2)"
  by (simp add: md5_op_apply ROTATE_LEFT_def md5_I_def round4_def)

lemma known_answer:
  "md5_digest [0x61, 0x62, 0x63] =
     [0x90, 0x01, 0x50, 0x98, 0x3c, 0xd2, 0x4f, 0xb0, 0xd6, 0x96, 0x3f, 0x7d, 0x28, 0xe1, 0x7f, 0x72]"
  unfolding md5_digest_def known_block md5_start_def
  by (simp add: absorb.simps MD5Transform_def known_round1 known_round2 known_round3 known_round4 Encode_def)

section \<open>A message fed in pieces\<close>

definition digest_piece :: "bytes \<Rightarrow> bool" where
  "digest_piece t \<longleftrightarrow> length t + 63 < 2 ^ 32"

definition feed :: "bytes \<Rightarrow> MD5_CTX \<Rightarrow> MD5_CTX res" where
  "feed t ctx = Inr (MD5_Update ctx t)"

interpretation md5: text_buffer ctx_repr feed digest_piece
proof
  fix ctx m t
  assume "ctx_repr ctx m" "digest_piece t"
  then show "\<exists>ctx'. feed t ctx = Inr ctx' \<and> ctx_repr ctx' (m @ t)"
    using MD5_Update_repr [of ctx m t] by (simp add: feed_def digest_piece_def)
qed

lemma apps_feed: "md5.apps ts ctx = Inr (fold (\<lambda>t ctx. MD5_Update ctx t) ts ctx)"
  by (induction ts arbitrary: ctx) (simp_all add: feed_def)

text \<open>
  C23. However a message is cut into pieces shorter than $2^{32} - 63$ bytes, the digest that
  \<open>MD5_Init\<close>, one \<open>MD5_Update\<close> per piece and \<open>MD5_Final\<close> produce is that of the whole message padded
  as RFC 1321 says and absorbed block by block, whatever the context's buffer held before.
\<close>

theorem digest_independent_of_pieces:
  assumes "length (md_buffer ctx) = 64" and "\<forall>t \<in> set ts. digest_piece t"
  shows "fst (MD5_Final (fold (\<lambda>t ctx. MD5_Update ctx t) ts (MD5_Init ctx))) = md5_digest (concat ts)"
  using md5.apps_ok [OF MD5_Init_repr [OF assms(1)] assms(2)] MD5_Final_repr by (simp add: apps_feed)

theorem digest_independent_of_pieces_witness:
  "fst (MD5_Final (fold (\<lambda>t ctx. MD5_Update ctx t) [[0x61], [], [0x62, 0x63]]
     (MD5_Init \<lparr>md_state = (1, 2, 3, 4), md_count0 = 5, md_count1 = 6, md_buffer = replicate 64 7\<rparr>))) =
   [0x90, 0x01, 0x50, 0x98, 0x3c, 0xd2, 0x4f, 0xb0, 0xd6, 0x96, 0x3f, 0x7d, 0x28, 0xe1, 0x7f, 0x72]"
  using digest_independent_of_pieces [of "\<lparr>md_state = (1, 2, 3, 4), md_count0 = 5, md_count1 = 6, md_buffer = replicate 64 7\<rparr>"
      "[[0x61], [], [0x62, 0x63]]"]
  by (simp add: digest_piece_def known_answer)

end
