(* ===== verification/Lt_Keyvalue.thy ===== *)
theory Lt_Keyvalue
  imports Webq_Prelude
begin

text \<open>
  The tables of the web server (\<open>keyvalue.c\<close>): HTTP versions, methods, status codes and the pages of the
  error codes, with their lookups in both directions, and the growing tables that the configuration
  fills. A string is its characters before the NUL. The tables of regular expressions are left out.
\<close>

section \<open>Fixed tables\<close>

text \<open>The versions and methods are the numbers of their enumerations.\<close>

definition http_versions :: "(int \<times> string) list" where
  "http_versions =
    [(1, ''HTTP/1.1''), (0, ''HTTP/1.0'')]"

definition http_methods :: "(int \<times> string) list" where
  "http_methods =
    [(0, ''GET''), (1, ''POST''), (2, ''HEAD''), (4, ''PROPFIND''), (10, ''PROPPATCH''), (11, ''REPORT''),
     (3, ''OPTIONS''), (5, ''MKCOL''), (6, ''PUT''), (7, ''DELETE''), (8, ''COPY''), (9, ''MOVE''),
     (20, ''LABEL''), (12, ''CHECKOUT''), (13, ''CHECKIN''), (17, ''MERGE''), (18, ''LOCK''), (19, ''UNLOCK''),
     (16, ''MKACTIVITY''), (15, ''UNCHECKOUT''), (14, ''VERSION-CONTROL''), (21, ''CONNECT'')]"

definition http_status :: "(int \<times> string) list" where
  "http_status =
    [(100, ''Continue''), (101, ''Switching Protocols''), (102, ''Processing''), (200, ''OK''), (201, ''Created''),
     (202, ''Accepted''), (203, ''Non-Authoritative Information''), (204, ''No Content''),
     (205, ''Reset Content''), (206, ''Partial Content''), (207, ''Multi-status''), (300, ''Multiple Choices''),
     (301, ''Moved Permanently''), (302, ''Found''), (303, ''See Other''), (304, ''Not Modified''),
     (305, ''Use Proxy''), (306, ''(Unused)''), (307, ''Temporary Redirect''), (400, ''Bad Request''),
     (401, ''Unauthorized''), (402, ''Payment Required''), (403, ''Forbidden''), (404, ''Not Found''),
     (405, ''Method Not Allowed''), (406, ''Not Acceptable''), (407, ''Proxy Authentication Required''),
     (408, ''Request Timeout''), (409, ''Conflict''), (410, ''Gone''), (411, ''Length Required''),
     (412, ''Precondition Failed''), (413, ''Request Entity Too Large''), (414, ''Request-URI Too Long''),
     (415, ''Unsupported Media Type''), (416, ''Requested Range Not Satisfiable''), (417, ''Expectation Failed''),
     (422, ''Unprocessable Entity''), (423, ''Locked''), (424, ''Failed Dependency''),
     (426, ''Upgrade Required''), (500, ''Internal Server Error''), (501, ''Not Implemented''),
     (502, ''Bad Gateway''), (503, ''Service Not Available''), (504, ''Gateway Timeout''),
     (505, ''HTTP Version Not Supported''), (507, ''Insufficient Storage'')]"

definition http_status_body :: "(int \<times> string) list" where
  "http_status_body =
    [(400, ''400.html''), (401, ''401.html''), (403, ''403.html''), (404, ''404.html''), (411, ''411.html''),
     (416, ''416.html''), (500, ''500.html''), (501, ''501.html''), (503, ''503.html''), (505, ''505.html'')]"

fun keyvalue_get_value :: "(int \<times> string) list \<Rightarrow> int \<Rightarrow> string option" where
  "keyvalue_get_value [] k = None"
| "keyvalue_get_value ((key, v) # kv) k = (if key = k then Some v else keyvalue_get_value kv k)"

fun keyvalue_get_key :: "(int \<times> string) list \<Rightarrow> string \<Rightarrow> int" where
  "keyvalue_get_key [] s = -1"
| "keyvalue_get_key ((key, v) # kv) s = (if v = s then key else keyvalue_get_key kv s)"

definition get_http_version_name :: "int \<Rightarrow> string option" where
  "get_http_version_name i = keyvalue_get_value http_versions i"

definition get_http_status_name :: "int \<Rightarrow> string option" where
  "get_http_status_name i = keyvalue_get_value http_status i"

definition get_http_method_name :: "int \<Rightarrow> string option" where
  "get_http_method_name i = keyvalue_get_value http_methods i"

definition get_http_status_body_name :: "int \<Rightarrow> string option" where
  "get_http_status_body_name i = keyvalue_get_value http_status_body i"

definition get_http_version_key :: "string \<Rightarrow> int" where
  "get_http_version_key s = keyvalue_get_key http_versions s"

definition get_http_method_key :: "string \<Rightarrow> int" where
  "get_http_method_key s = keyvalue_get_key http_methods s"

definition HTTP_METHOD_GET :: int where
  "HTTP_METHOD_GET = 0"

definition HTTP_METHOD_POST :: int where
  "HTTP_METHOD_POST = 1"

definition HTTP_METHOD_HEAD :: int where
  "HTTP_METHOD_HEAD = 2"

definition HTTP_VERSION_1_0 :: int where
  "HTTP_VERSION_1_0 = 0"

definition HTTP_VERSION_1_1 :: int where
  "HTTP_VERSION_1_1 = 1"

section \<open>Growing tables\<close>

text \<open>Slots behind \<open>used\<close> are allocated and empty. The three kinds differ in the entry only.\<close>

record 'e kvb =
  kvb_kv :: "'e option list"
  kvb_used :: nat
  kvb_size :: nat

definition kvb_init :: "'e kvb" where
  "kvb_init = \<lparr>kvb_kv = [], kvb_used = 0, kvb_size = 0\<rparr>"

definition kvb_room :: "'e kvb \<Rightarrow> 'e kvb" where
  "kvb_room b =
     (if kvb_size b = 0 then b\<lparr>kvb_size := 4, kvb_kv := replicate 4 None\<rparr>
      else if kvb_used b = kvb_size b
      then b\<lparr>kvb_size := kvb_size b + 4, kvb_kv := kvb_kv b @ replicate 4 None\<rparr>
      else b)"

definition kvb_put :: "'e kvb \<Rightarrow> 'e \<Rightarrow> 'e kvb res" where
  "kvb_put b e =
     bindR (set_at (kvb_kv b) (int (kvb_used b)) (Some e)) (\<lambda>kv. Inr (b\<lparr>kvb_kv := kv, kvb_used := kvb_used b + 1\<rparr>))"

definition keyvalue_buffer_append :: "(int \<times> string) kvb \<Rightarrow> int \<Rightarrow> string \<Rightarrow> (int \<times> string) kvb res" where
  "keyvalue_buffer_append b key value = kvb_put (kvb_room b) (key, value)"

text \<open>A new table of strings is not trusted to be empty.\<close>

definition s_keyvalue_buffer_append ::
  "(string option \<times> string) kvb \<Rightarrow> string option \<Rightarrow> string \<Rightarrow> (string option \<times> string) kvb res" where
  "s_keyvalue_buffer_append b key value =
     kvb_put (kvb_room (if kvb_size b = 0 then b\<lparr>kvb_used := 0\<rparr> else b)) (key, value)"

datatype httpauth_type = HTTP_AUTH_BASIC | HTTP_AUTH_DIGEST

definition httpauth_keyvalue_buffer_append ::
  "(string \<times> string \<times> httpauth_type) kvb \<Rightarrow> string \<Rightarrow> string \<Rightarrow> httpauth_type \<Rightarrow> (string \<times> string \<times> httpauth_type) kvb res" where
  "httpauth_keyvalue_buffer_append b key realm t = kvb_put (kvb_room b) (key, realm, t)"

section \<open>Lookups\<close>

lemma get_key_value:
  "distinct (map fst kv) \<Longrightarrow> (k, v) \<in> set kv \<Longrightarrow> keyvalue_get_value kv k = Some v"
  by (induction kv k rule: keyvalue_get_value.induct) force+

lemma get_key_in: "keyvalue_get_key kv s \<noteq> -1 \<Longrightarrow> (keyvalue_get_key kv s, s) \<in> set kv"
  by (induction kv s rule: keyvalue_get_key.induct) (auto split: if_splits)

text \<open>A method that is recognised is printed as it was read.\<close>

lemma method_round_trip: "get_http_method_key s \<noteq> -1 \<Longrightarrow> get_http_method_name (get_http_method_key s) = Some s"
proof -
  assume "get_http_method_key s \<noteq> -1"
  moreover have "distinct (map fst http_methods)" by code_simp
  ultimately show ?thesis
    unfolding get_http_method_key_def get_http_method_name_def using get_key_in get_key_value by blast
qed

text \<open>Every append finds a slot and keeps the entries before it.\<close>

definition kvb_holds :: "'e kvb \<Rightarrow> 'e list \<Rightarrow> bool" where
  "kvb_holds b es \<longleftrightarrow> kvb_used b = length es \<and> length (kvb_kv b) = kvb_size b \<and> take (length es) (kvb_kv b) = map Some es"

lemma kvb_append_holds:
  assumes "kvb_holds b es"
  shows "\<exists>b'. kvb_put (kvb_room b) e = Inr b' \<and> kvb_holds b' (es @ [e])"
proof -
  let ?r = "kvb_room b"
  have le: "length es \<le> length (kvb_kv b)" using assms by (metis kvb_holds_def length_map length_take min.absorb_iff2)
  have r: "kvb_used ?r = length es" "length (kvb_kv ?r) = kvb_size ?r" "take (length es) (kvb_kv ?r) = map Some es"
    "length es < kvb_size ?r"
    using assms le by (auto simp: kvb_holds_def kvb_room_def)
  have "take (Suc (length es)) ((kvb_kv ?r)[length es := Some e]) = map Some (es @ [e])"
    using r by (simp add: take_Suc_conv_app_nth)
  then show ?thesis using r by (simp add: kvb_put_def kvb_holds_def)
qed

end
