(* ===== verification/Lt_Array.thy ===== *)
theory Lt_Array
  imports Lt_Text "HOL-Library.List_Lexorder"
begin

text \<open>
  The arrays of the web server (\<open>array.c\<close>) with their elements (\<open>data_string.c\<close>, \<open>data_count.c\<close>,
  \<open>data_integer.c\<close>): request and response headers, environment and status counters live in them. An
  array is a block of pointers in the order of insertion and a block of their indices in the order
  of the keys, which is searched by halving a power of two. A buffer is the text it holds, \<open>None\<close>
  when it is unused; the elements that carry configuration are left out.
\<close>

section \<open>Elements\<close>

datatype data_type = TYPE_STRING | TYPE_COUNT | TYPE_INTEGER

text \<open>A response header is a string with another way to merge duplicates.\<close>

datatype data_value = DString "bytes option" | DResponse "bytes option" | DCount int | DInteger int

record data_unset =
  du_key :: "bytes option"
  du_is_index_key :: bool
  du_value :: data_value

fun du_type :: "data_value \<Rightarrow> data_type" where
  "du_type (DString _) = TYPE_STRING"
| "du_type (DResponse _) = TYPE_STRING"
| "du_type (DCount _) = TYPE_COUNT"
| "du_type (DInteger _) = TYPE_INTEGER"

definition data_string_init :: data_unset where
  "data_string_init = \<lparr>du_key = None, du_is_index_key = False, du_value = DString None\<rparr>"

definition data_response_init :: data_unset where
  "data_response_init = data_string_init\<lparr>du_value := DResponse None\<rparr>"

definition data_count_init :: data_unset where
  "data_count_init = \<lparr>du_key = None, du_is_index_key = False, du_value = DCount 1\<rparr>"

definition data_integer_init :: data_unset where
  "data_integer_init = \<lparr>du_key = None, du_is_index_key = False, du_value = DInteger 0\<rparr>"

fun data_reset :: "data_unset \<Rightarrow> data_unset" where
  "data_reset d = d\<lparr>du_key := None, du_value := (case du_value d of
     DString _ \<Rightarrow> DString None | DResponse _ \<Rightarrow> DResponse None | DCount _ \<Rightarrow> DCount 0 | DInteger _ \<Rightarrow> DInteger 0)\<rparr>"

text \<open>The copy of a response header is a plain string, made by \<open>data_string_init\<close>.\<close>

definition data_copy :: "data_unset \<Rightarrow> data_unset" where
  "data_copy d = d\<lparr>du_value := (case du_value d of DResponse v \<Rightarrow> DString v | v \<Rightarrow> v)\<rparr>"

definition text_of :: "bytes option \<Rightarrow> bytes" where
  "text_of t = (case t of None \<Rightarrow> [] | Some s \<Rightarrow> s)"

definition data_string_insert_dup :: "bytes option \<Rightarrow> bytes option \<Rightarrow> bytes option" where
  "data_string_insert_dup dst src =
     (case dst of Some v \<Rightarrow> Some (v @ [44, 32] @ text_of src) | None \<Rightarrow> src)"

definition data_response_insert_dup :: "bytes option \<Rightarrow> bytes option \<Rightarrow> bytes option \<Rightarrow> bytes option" where
  "data_response_insert_dup key dst src =
     (case dst of Some v \<Rightarrow> Some (v @ [13, 10] @ text_of key @ [58, 32] @ text_of src) | None \<Rightarrow> src)"

definition data_count_insert_dup :: "int \<Rightarrow> int \<Rightarrow> int" where
  "data_count_insert_dup dst src = wrap32 (dst + src)"

text \<open>The method is that of the new element; both have the same type.\<close>

definition insert_dup :: "data_unset \<Rightarrow> data_unset \<Rightarrow> data_unset" where
  "insert_dup dst src = dst\<lparr>du_value :=
     (case (du_value dst, du_value src) of
        (DString v, DString w) \<Rightarrow> DString (data_string_insert_dup v w)
      | (DResponse v, DString w) \<Rightarrow> DResponse (data_string_insert_dup v w)
      | (DString v, DResponse w) \<Rightarrow> DString (data_response_insert_dup (du_key dst) v w)
      | (DResponse v, DResponse w) \<Rightarrow> DResponse (data_response_insert_dup (du_key dst) v w)
      | (DCount n, DCount k) \<Rightarrow> DCount (data_count_insert_dup n k)
      | (v, _) \<Rightarrow> v)\<rparr>"

section \<open>Arrays\<close>

record array =
  ar_data :: "data_unset option list"
  ar_sorted :: "nat option list"
  ar_used :: nat
  ar_size :: nat
  ar_unique_ndx :: nat
  ar_next_power_of_2 :: nat
  ar_is_weakref :: bool

definition array_init :: array where
  "array_init = \<lparr>ar_data = [], ar_sorted = [], ar_used = 0, ar_size = 0, ar_unique_ndx = 0,
     ar_next_power_of_2 = 1, ar_is_weakref = False\<rparr>"

definition array_init_array :: "array \<Rightarrow> array" where
  "array_init_array src = \<lparr>ar_data = map (map_option data_copy) (ar_data src), ar_sorted = ar_sorted src,
     ar_used = ar_used src, ar_size = ar_size src, ar_unique_ndx = ar_unique_ndx src,
     ar_next_power_of_2 = ar_next_power_of_2 src, ar_is_weakref = False\<rparr>"

definition deref :: "'a option \<Rightarrow> fault \<Rightarrow> 'a res" where
  "deref p e = (case p of None \<Rightarrow> Inl e | Some x \<Rightarrow> Inr x)"

text \<open>Resets the elements in use; a pointer that is null there is followed.\<close>

definition array_reset :: "array \<Rightarrow> array res" where
  "array_reset a =
     (if \<not> ar_is_weakref a \<and> None \<in> set (take (ar_used a) (ar_data a)) then Inl NullDeref
      else Inr (a\<lparr>ar_data := (if ar_is_weakref a then ar_data a
                   else map (map_option data_reset) (take (ar_used a) (ar_data a)) @ drop (ar_used a) (ar_data a)),
                  ar_used := 0\<rparr>))"

definition array_pop :: "array \<Rightarrow> (data_unset option \<times> array) res" where
  "array_pop a =
     (if ar_used a = 0 then Inl Abort
      else bindR (get_at (ar_data a) (int (ar_used a) - 1)) (\<lambda>du.
             Inr (du, a\<lparr>ar_used := ar_used a - 1, ar_data := (ar_data a)[ar_used a - 1 := None]\<rparr>)))"

definition key_bytes :: "bytes option \<Rightarrow> bytes" where
  "key_bytes k = (case k of None \<Rightarrow> [] | Some s \<Rightarrow> s @ [0])"

text \<open>The index behind position \<open>pos\<close> of the sorted block and the key of that element.\<close>

definition key_at :: "array \<Rightarrow> int \<Rightarrow> (nat \<times> bytes) res" where
  "key_at a pos =
     bindR (get_at (ar_sorted a) pos) (\<lambda>s. bindR (deref s UninitRead) (\<lambda>n.
     bindR (get_at (ar_data a) (int n)) (\<lambda>d. bindR (deref d NullDeref) (\<lambda>d. Inr (n, key_bytes (du_key d))))))"

text \<open>One comparison: the index of the element found, or the next position.\<close>

definition index_step :: "bool \<Rightarrow> array \<Rightarrow> bytes \<Rightarrow> nat \<Rightarrow> int \<Rightarrow> (int + nat) res" where
  "index_step al a key i pos =
     (if pos < 0 then Inr (Inl (pos + int i))
      else if pos \<ge> int (ar_used a) then Inr (Inl (pos - int i))
      else bindR (key_at a pos) (\<lambda>(n, k).
             let cmp = buffer_caseless_compare al key k
             in Inr (if cmp = 0 then Inr n else if cmp < 0 then Inl (pos - int i) else Inl (pos + int i))))"

function index_loop :: "bool \<Rightarrow> array \<Rightarrow> bytes \<Rightarrow> nat \<Rightarrow> int \<Rightarrow> (int \<times> int) res" where
  "index_loop al a key i pos =
     bindR (index_step al a key i pos) (\<lambda>r. case r of
       Inr n \<Rightarrow> Inr (int n, pos)
     | Inl pos \<Rightarrow> if i = 0 then Inr (-1, pos) else index_loop al a key (i div 2) pos)"
  by pat_completeness auto
termination by (relation "measure (\<lambda>(al, a, key, i, pos). i)") auto

declare index_loop.simps [simp del]

text \<open>The index of the element, or -1, and the position where the search ended.\<close>

definition array_get_index :: "bool \<Rightarrow> array \<Rightarrow> bytes option \<Rightarrow> (int \<times> int) res" where
  "array_get_index al a key =
     (case key of None \<Rightarrow> Inr (-1, 0)
      | Some k \<Rightarrow> let i = ar_next_power_of_2 a div 2 in index_loop al a (k @ [0]) i (int i))"

definition array_get_element :: "bool \<Rightarrow> array \<Rightarrow> bytes \<Rightarrow> data_unset option res" where
  "array_get_element al a key =
     bindR (array_get_index al a (Some key)) (\<lambda>(ndx, _).
       if ndx \<noteq> -1 then get_at (ar_data a) ndx else Inr None)"

definition array_get_unused_element :: "array \<Rightarrow> (data_unset option \<times> array) res" where
  "array_get_unused_element a =
     (if ar_size a = 0 \<or> ar_used a = ar_size a then Inr (None, a)
      else bindR (get_at (ar_data a) (int (ar_used a))) (\<lambda>d.
             Inr (d, if d \<noteq> None then a\<lparr>ar_data := (ar_data a)[ar_used a := None]\<rparr> else a)))"

text \<open>Sixteen more places, unused; the new part of the sorted block is not initialised.\<close>

definition array_grow :: "array \<Rightarrow> array" where
  "array_grow a =
     (if ar_size a = 0
      then a\<lparr>ar_size := 16, ar_data := replicate 16 None, ar_sorted := replicate 16 None\<rparr>
      else if ar_size a = ar_used a
      then a\<lparr>ar_size := ar_size a + 16, ar_data := take (ar_used a) (ar_data a) @ replicate 16 None,
             ar_sorted := ar_sorted a @ replicate 16 None\<rparr>
      else a)"

text \<open>\<open>memmove\<close> by one place to the right and the new entry.\<close>

definition sorted_insert :: "nat \<Rightarrow> nat \<Rightarrow> nat option list \<Rightarrow> nat option list res" where
  "sorted_insert pos ndx s =
     (if pos \<le> ndx \<and> ndx < length s
      then Inr ((take (pos + 1) s @ take (ndx - pos) (drop pos s) @ drop (ndx + 1) s)[pos := Some ndx])
      else Inl OutOfBounds)"

definition array_place :: "bool \<Rightarrow> array \<Rightarrow> data_unset \<Rightarrow> int \<Rightarrow> array res" where
  "array_place al a str pos =
     (let a = array_grow a; ndx = ar_used a
      in bindR (set_at (ar_data a) (int ndx) (Some str)) (\<lambda>data.
         let a = a\<lparr>ar_data := data, ar_used := ndx + 1\<rparr>
         in bindR (if pos \<noteq> int ndx
                   then if pos < 0 then Inr (pos + 1)
                        else bindR (key_at a pos) (\<lambda>(_, k).
                               Inr (if buffer_caseless_compare al (key_bytes (du_key str)) k > 0 then pos + 1 else pos))
                   else Inr pos) (\<lambda>pos.
            bindR (checkR (0 \<le> pos) OutOfBounds) (\<lambda>_.
            bindR (sorted_insert (nat pos) ndx (ar_sorted a)) (\<lambda>s.
              Inr (a\<lparr>ar_sorted := s, ar_next_power_of_2 :=
                     (if ar_next_power_of_2 a = ndx then 2 * ar_next_power_of_2 a else ar_next_power_of_2 a)\<rparr>))))))"

definition INT_MAX :: nat where
  "INT_MAX = 2147483647"

definition array_insert_unique :: "bool \<Rightarrow> array \<Rightarrow> data_unset \<Rightarrow> (int \<times> array) res" where
  "array_insert_unique al a str =
     (let (a, str) =
        (if du_key str = None \<or> du_is_index_key str
         then (a\<lparr>ar_unique_ndx := ar_unique_ndx a + 1\<rparr>,
               str\<lparr>du_key := Some (map char_byte (show_int (int (ar_unique_ndx a)))), du_is_index_key := True\<rparr>)
         else (a, str))
      in bindR (array_get_index al a (du_key str)) (\<lambda>(ndx, pos).
           if ndx \<noteq> -1
           then bindR (get_at (ar_data a) ndx) (\<lambda>d. bindR (deref d NullDeref) (\<lambda>d.
                  Inr (0, if du_type (du_value d) = du_type (du_value str)
                          then a\<lparr>ar_data := (ar_data a)[nat ndx := Some (insert_dup d str)]\<rparr> else a)))
           else if ar_used a + 1 > INT_MAX then Inr (-1, a)
           else bindR (array_place al a str pos) (\<lambda>a. Inr (0, a))))"

definition array_replace :: "bool \<Rightarrow> array \<Rightarrow> data_unset \<Rightarrow> (data_unset option \<times> array) res" where
  "array_replace al a du =
     bindR (array_get_index al a (du_key du)) (\<lambda>(ndx, _).
       if ndx = -1 then bindR (array_insert_unique al a du) (\<lambda>(_, a). Inr (None, a))
       else bindR (get_at (ar_data a) ndx) (\<lambda>old. Inr (old, a\<lparr>ar_data := (ar_data a)[nat ndx := Some du]\<rparr>)))"

definition array_get_max_key_length :: "array \<Rightarrow> nat" where
  "array_get_max_key_length a =
     fold (\<lambda>d m. max m (case d of Some d \<Rightarrow> length (takeWhile (\<lambda>c. c \<noteq> 0) (text_of (du_key d))) | None \<Rightarrow> 0))
       (take (ar_used a) (ar_data a)) 0"

end
