(* ===== verification/Lt_Host.thy ===== *)
theory Lt_Host
  imports Lt_Codec
begin

text \<open>
  The check of the \<open>Host\<close> header (\<open>request_check_hostname\<close> of \<open>request.c\<close>): an address in brackets, or a
  name or IPv4 address that is scanned from the right, label by label, with an optional port. A host
  is the bytes its buffer holds without the terminating NUL; the result 0 accepts, -1 rejects.
\<close>

section \<open>Addresses in brackets and ports\<close>

text \<open>The text behind the bracket, or nothing if it is missing or a character is not allowed.\<close>

fun v6_scan :: "nat \<Rightarrow> bytes \<Rightarrow> bytes option" where
  "v6_scan colons [] = None"
| "v6_scan colons (c # r) =
     (if c = 0 then None
      else if c = 93 then Some r
      else if c = 58 then (if colons + 1 > 7 then None else v6_scan (colons + 1) r)
      else if \<not> light_isxdigit (sint c) then None
      else v6_scan colons r)"

definition port_ok :: "bytes \<Rightarrow> bool" where
  "port_ok s \<longleftrightarrow> list_all (\<lambda>c. light_isdigit (sint c)) (takeWhile (\<lambda>c. c \<noteq> 0) s)"

definition check_v6 :: "bytes \<Rightarrow> int" where
  "check_v6 r =
     (case v6_scan 0 r of
        None \<Rightarrow> -1
      | Some r \<Rightarrow> (case r of c # r' \<Rightarrow> if c = 58 then (if port_ok r' then 0 else -1) else 0 | [] \<Rightarrow> 0))"

section \<open>Labels\<close>

datatype stage = DOMAINLABEL | TOPLABEL

record label_st =
  lb_stage :: stage
  lb_len :: int
  lb_is_ip :: int
  lb_level :: int

text \<open>One turn of the loop at index \<open>i\<close>; \<open>None\<close> is the return of -1. Behind the host is its NUL.\<close>

definition top_char :: "bytes \<Rightarrow> nat \<Rightarrow> nat \<Rightarrow> label_st \<Rightarrow> label_st option" where
  "top_char h host_len i s =
     (let c = sint (h ! i); nx = sint ((h @ [0]) ! (i + 1))
      in if c = 46
         then if i \<noteq> host_len - 1
              then if lb_len s = 0 then None
                   else if lb_is_ip s = 0 \<and> \<not> light_isalpha nx then None
                   else if lb_is_ip s \<noteq> 0 \<and> light_isdigit nx \<and> nx = 45 then None
                   else Some (s\<lparr>lb_stage := DOMAINLABEL, lb_len := 0, lb_level := lb_level s + 1,
                          lb_is_ip := (if lb_is_ip s = 0 then 0 else if \<not> light_isdigit nx then 0 else 1)\<rparr>)
              else if i = 0 then None else Some s
         else if i = 0
         then if \<not> light_isalpha c then None else Some (s\<lparr>lb_len := lb_len s + 1\<rparr>)
         else if c \<noteq> 45 \<and> \<not> light_isalnum c then None
         else Some (s\<lparr>lb_is_ip := (if lb_is_ip s = -1 \<and> \<not> light_isdigit c then 0 else lb_is_ip s),
                      lb_len := lb_len s + 1\<rparr>))"

definition domain_char :: "bytes \<Rightarrow> nat \<Rightarrow> label_st \<Rightarrow> label_st option" where
  "domain_char h i s =
     (let c = sint (h ! i); nx = sint ((h @ [0]) ! (i + 1))
      in if lb_is_ip s = 1
         then if c = 46
              then if lb_len s = 0 then None else Some (s\<lparr>lb_len := 0, lb_level := lb_level s + 1\<rparr>)
              else if \<not> light_isdigit c then None
              else Some (s\<lparr>lb_len := lb_len s + 1\<rparr>)
         else if c = 46
              then if lb_len s = 0 then None
                   else if nx = 45 then None
                   else Some (s\<lparr>lb_len := 0, lb_level := lb_level s + 1\<rparr>)
              else if i = 0
              then if \<not> light_isalnum c then None else Some (s\<lparr>lb_len := lb_len s + 1\<rparr>)
              else if c \<noteq> 45 \<and> \<not> light_isalnum c then None
              else Some (s\<lparr>lb_len := lb_len s + 1\<rparr>))"

definition host_char :: "bytes \<Rightarrow> nat \<Rightarrow> nat \<Rightarrow> label_st \<Rightarrow> label_st option" where
  "host_char h host_len i s =
     (case lb_stage s of TOPLABEL \<Rightarrow> top_char h host_len i s | DOMAINLABEL \<Rightarrow> domain_char h i s)"

text \<open>The loop from the right: \<open>host_loop h n i s\<close> has the characters below \<open>i\<close> before it.\<close>

fun host_loop :: "bytes \<Rightarrow> nat \<Rightarrow> nat \<Rightarrow> label_st \<Rightarrow> label_st option" where
  "host_loop h host_len 0 s = Some s"
| "host_loop h host_len (Suc i) s =
     (case host_char h host_len i s of None \<Rightarrow> None | Some s \<Rightarrow> host_loop h host_len i s)"

definition label_start :: label_st where
  "label_start = \<lparr>lb_stage = TOPLABEL, lb_len = 0, lb_is_ip = -1, lb_level = 0\<rparr>"

definition check_labels :: "bytes \<Rightarrow> nat \<Rightarrow> int" where
  "check_labels h host_len =
     (case host_loop h host_len host_len label_start of
        None \<Rightarrow> -1
      | Some s \<Rightarrow> if lb_is_ip s = 1 \<and> lb_level s \<noteq> 3 then -1 else if lb_len s = 0 then -1 else 0)"

definition request_check_hostname :: "bytes option \<Rightarrow> int" where
  "request_check_hostname host =
     (case host of
        None \<Rightarrow> 0
      | Some h \<Rightarrow>
          if (h @ [0]) ! 0 = 91 then check_v6 (tl h)
          else let colon = takeWhile (\<lambda>c. c \<noteq> 58) h
               in if colon \<noteq> h \<and> \<not> port_ok (drop (length colon + 1) h) then -1
                  else let host_len = length colon
                       in if host_len = 0 then -1
                          else check_labels h (if h ! (host_len - 1) = 46 then host_len - 1 else host_len))"

section \<open>What is accepted\<close>

definition host_byte :: "byte \<Rightarrow> bool" where
  "host_byte c \<longleftrightarrow> light_isalnum (sint c) \<or> c = 45 \<or> c = 46"

lemma sint_byte: "sint c = 46 \<longleftrightarrow> c = (46 :: byte)" "sint c = 45 \<longleftrightarrow> c = (45 :: byte)"
proof -
  have "sint (46 :: byte) = 46" "sint (45 :: byte) = 45" by simp_all
  then show "sint c = 46 \<longleftrightarrow> c = (46 :: byte)" "sint c = 45 \<longleftrightarrow> c = (45 :: byte)" by (metis signed_word_eqI)+
qed

lemma alnum_split: "light_isalpha c \<Longrightarrow> light_isalnum c" "light_isdigit c \<Longrightarrow> light_isalnum c"
  by (simp_all add: light_isalnum_def)

lemma host_char_byte: "host_char h n i s = Some s' \<Longrightarrow> host_byte (h ! i)"
  by (auto simp: host_char_def top_char_def domain_char_def host_byte_def Let_def sint_byte alnum_split
      split: stage.splits if_splits)

text \<open>After a dot, and at the start, the present label is empty.\<close>

lemma host_char_dot: "host_char h n i s = Some s' \<Longrightarrow> h ! i = 46 \<Longrightarrow> i \<noteq> n - 1 \<Longrightarrow> lb_len s \<noteq> 0 \<and> lb_len s' = 0"
  by (auto simp: host_char_def top_char_def domain_char_def Let_def split: stage.splits if_splits)

lemma host_loop_bytes: "host_loop h n i s = Some s' \<Longrightarrow> j < i \<Longrightarrow> host_byte (h ! j)"
  by (induction i arbitrary: s) (auto simp: less_Suc_eq dest: host_char_byte split: option.splits)

lemma host_loop_first: "host_loop h n (Suc i) s = Some s' \<Longrightarrow> \<exists>t. host_char h n 0 t = Some s'"
  by (induction i arbitrary: s) (auto split: option.splits)

lemma host_loop_labels:
  "host_loop h n i s = Some s' \<Longrightarrow> i \<le> n \<Longrightarrow> (i = n \<or> h ! i = 46 \<Longrightarrow> lb_len s = 0) \<Longrightarrow> j < i \<Longrightarrow> Suc j < n \<Longrightarrow>
   \<not> (h ! j = 46 \<and> h ! Suc j = 46)"
proof (induction i arbitrary: s)
  case (Suc i)
  obtain t where t: "host_char h n i s = Some t" "host_loop h n i t = Some s'" using Suc.prems(1) by (auto split: option.splits)
  show ?case
  proof (cases "j = i")
    case True
    moreover from this have "i \<noteq> n - 1" using Suc.prems(5) by linarith
    ultimately show ?thesis using host_char_dot [OF t(1)] Suc.prems(3) by auto
  next
    case False
    have "lb_len t = 0" if "i = n \<or> h ! i = 46"
    proof (cases "i = n - 1")
      case True
      then have "lb_len s = 0" using Suc.prems(2,3) by auto
      then show ?thesis
        using t(1) that Suc.prems(2) True
        by (auto simp: host_char_def top_char_def domain_char_def Let_def split: stage.splits if_splits)
    next
      case False
      then show ?thesis using host_char_dot [OF t(1)] that Suc.prems(2) by auto
    qed
    then show ?thesis using Suc.IH [OF t(2)] False Suc.prems by auto
  qed
qed simp

lemma check_labels_spec:
  assumes ok: "check_labels h n = 0" and n: "n \<le> length h"
  shows "n \<noteq> 0" "\<forall>c \<in> set (take n h). host_byte c" "h ! 0 \<noteq> 46" "\<And>j. Suc j < n \<Longrightarrow> \<not> (h ! j = 46 \<and> h ! Suc j = 46)"
proof -
  obtain s where s: "host_loop h n n label_start = Some s" "lb_len s \<noteq> 0"
    using ok by (auto simp: check_labels_def split: option.splits if_splits)
  then show "n \<noteq> 0" by (cases n) (auto simp: label_start_def)
  show "\<forall>c \<in> set (take n h). host_byte c"
    using host_loop_bytes [OF s(1)] n by (auto simp: in_set_conv_nth)
  obtain m where "n = Suc m" using \<open>n \<noteq> 0\<close> by (cases n) auto
  then obtain t where "host_char h n 0 t = Some s" using host_loop_first s(1) by blast
  then show "h ! 0 \<noteq> 46"
    using s(2) by (auto simp: host_char_def top_char_def domain_char_def Let_def split: stage.splits if_splits)
  show "\<not> (h ! j = 46 \<and> h ! Suc j = 46)" if "Suc j < n" for j
    using host_loop_labels [OF s(1)] that by (auto simp: label_start_def)
qed



text \<open>
  An address in brackets is not checked behind the closing bracket: whatever follows it, if not a
  colon, is accepted, slashes and dots included.
\<close>

lemma bracket_host_is_not_checked:
  assumes "\<forall>c \<in> set a. light_isxdigit (sint c)" "hd (rest @ [0]) \<noteq> 58"
  shows "request_check_hostname (Some (91 # a @ 93 # rest)) = 0"
proof -
  have x: "c \<noteq> 0 \<and> c \<noteq> 93 \<and> c \<noteq> 58" if "light_isxdigit (sint c)" for c :: byte
  proof -
    have "\<not> light_isxdigit (sint (0 :: byte))" "\<not> light_isxdigit (sint (93 :: byte))" "\<not> light_isxdigit (sint (58 :: byte))"
      by code_simp+
    then show ?thesis using that by metis
  qed
  have "v6_scan k (a @ 93 # rest) = Some rest" for k
    using assms(1) by (induction a) (auto dest: x)
  then show ?thesis using assms(2) by (cases rest) (simp_all add: request_check_hostname_def check_v6_def)
qed

lemma bracket_host_is_not_checked_example:
  "request_check_hostname (Some (map char_byte ''[1]/../../etc'')) = 0"
proof -
  have "map char_byte ''[1]/../../etc'' = 91 # [49] @ 93 # map char_byte ''/../../etc''" by code_simp
  moreover have "request_check_hostname (Some (91 # [49] @ 93 # map char_byte ''/../../etc'')) = 0"
    by (rule bracket_host_is_not_checked; code_simp)
  ultimately show ?thesis by simp
qed

end
