(* ===== verification/Lt_Request.thy ===== *)
theory Lt_Request
  imports Lt_Array Lt_Host Lt_Keyvalue
begin

text \<open>
  The parser of HTTP requests (\<open>request.c\<close>): the request line, the header lines with folding and the
  headers the server looks at itself, and the checks at the end. The text is parsed in place in a
  copy that ends with NUL; the parser cuts it into strings by writing NULs. The five pointers into
  header values that a connection keeps are positions in the array of headers, or dangling once the
  element they point to was merged into another and freed, or its block moved. Whether \<open>realloc\<close>
  moves a block is a parameter, as is the alignment of the compared keys. Logging is left out.
\<close>

section \<open>Connections\<close>

text \<open>\<open>Elem n k\<close>: the value of header number \<open>n\<close> from its \<open>k\<close>-th byte on.\<close>

datatype vptr = NullP | Elem nat nat | Dangling

record con =
  cn_request_count :: int
  cn_request :: bytes
  cn_parse :: bytes
  cn_http_status :: int
  cn_keep_alive :: bool
  cn_resp_keep_alive :: bool
  cn_header_len :: nat
  cn_allow_http11 :: bool
  rq_line :: "bytes option"
  rq_method :: int
  rq_version :: int
  rq_uri :: "bytes option"
  rq_orig_uri :: "bytes option"
  rq_headers :: array
  rq_content_length :: nat
  rq_host :: vptr
  rq_content_type :: vptr
  rq_if_modified_since :: vptr
  rq_if_none_match :: vptr
  rq_range :: vptr

record server =
  sv_split_vals :: array
  sv_max_request_size :: nat

record parse_env =
  pe_al :: bool
  pe_moves :: "bytes \<Rightarrow> bytes \<Rightarrow> bool"

text \<open>Every early return returns 0. Two of the flags are cleared by some of them, one by the others.\<close>

definition reject :: "con \<Rightarrow> int \<Rightarrow> con" where
  "reject con st = con\<lparr>cn_http_status := st, cn_keep_alive := False\<rparr>"

definition reject_close :: "con \<Rightarrow> int \<Rightarrow> con" where
  "reject_close con st = con\<lparr>cn_http_status := st, cn_keep_alive := False, cn_resp_keep_alive := False\<rparr>"

definition cstr_at :: "bytes \<Rightarrow> nat \<Rightarrow> bytes" where
  "cstr_at p k = takeWhile (\<lambda>c. c \<noteq> 0) (drop k p)"

definition slice :: "bytes \<Rightarrow> nat \<Rightarrow> nat \<Rightarrow> bytes" where
  "slice p k n = take n (drop k p)"

section \<open>Lists of values\<close>

definition is_blank :: "byte \<Rightarrow> bool" where
  "is_blank c \<longleftrightarrow> c = 32 \<or> c = 9"

text \<open>The end of a value without the blanks before it. The byte is read before the bound is tested.\<close>

function trim_end :: "bytes \<Rightarrow> int \<Rightarrow> int \<Rightarrow> int res" where
  "trim_end p start e_ndx =
     bindR (get_at p e_ndx) (\<lambda>c. if is_blank c \<and> e_ndx > start then trim_end p start (e_ndx - 1) else Inr e_ndx)"
  by pat_completeness auto
termination by (relation "measure (\<lambda>(p, start, e_ndx). nat (e_ndx - start))") auto

declare trim_end.simps [simp del]

definition set_text :: "data_unset \<Rightarrow> bytes \<Rightarrow> data_unset" where
  "set_text d v = d\<lparr>du_value := (case du_value d of DResponse _ \<Rightarrow> DResponse (Some v) | _ \<Rightarrow> DString (Some v))\<rparr>"

definition unused_string :: "array \<Rightarrow> (data_unset \<times> array) res" where
  "unused_string a =
     bindR (array_get_unused_element a) (\<lambda>(d, a). Inr (case d of None \<Rightarrow> data_string_init | Some d \<Rightarrow> d, a))"

definition put_value :: "bool \<Rightarrow> array \<Rightarrow> bytes \<Rightarrow> array res" where
  "put_value al vals v =
     bindR (unused_string vals) (\<lambda>(ds, vals). bindR (array_insert_unique al vals (set_text ds v)) (\<lambda>(_, vals). Inr vals))"

text \<open>
  States 0, 1, 2: before a value, at a value, behind the last one. \<open>s\<close> always points to the byte with
  the index \<open>i\<close>; the text is followed by its NUL.
\<close>

function split_loop :: "bool \<Rightarrow> array \<Rightarrow> bytes \<Rightarrow> nat \<Rightarrow> nat \<Rightarrow> array res" where
  "split_loop al vals b i state =
     (if i < length b
      then if state = 0 then split_loop al vals b (i + length (takeWhile is_blank (drop i b))) 1
           else if state = 1
           then let j = i + length (takeWhile (\<lambda>c. c \<noteq> 44) (drop i b))
                in bindR (trim_end (b @ [0]) (int i) (int j - 1)) (\<lambda>e_ndx.
                   bindR (put_value al vals (slice b i (nat (e_ndx - int i + 1)))) (\<lambda>vals.
                     if j < length b then split_loop al vals b (j + 1) 0 else split_loop al vals b j 2))
           else split_loop al vals b (i + 1) state
      else Inr vals)"
  by pat_completeness auto
termination
  by (relation "measure (\<lambda>(al, vals, b, i, state). 2 * (length b - i) + (if state = 0 then 1 else 0))") auto

declare split_loop.simps [simp del]

definition http_request_split_value :: "bool \<Rightarrow> array \<Rightarrow> bytes option \<Rightarrow> array res" where
  "http_request_split_value al vals b = (case b of None \<Rightarrow> Inr vals | Some b \<Rightarrow> split_loop al vals b 0 0)"

section \<open>The request line\<close>

definition request_uri_is_valid_char :: "byte \<Rightarrow> bool" where
  "request_uri_is_valid_char c \<longleftrightarrow> \<not> unat c \<le> 32 \<and> c \<noteq> 127 \<and> c \<noteq> 255"

text \<open>\<open>strtol\<close> with base 10: the value, limited to a \<open>long\<close>, and the text it did not read.\<close>

definition is_space :: "byte \<Rightarrow> bool" where
  "is_space c \<longleftrightarrow> c = 32 \<or> 9 \<le> unat c \<and> unat c \<le> 13"

definition is_num :: "byte \<Rightarrow> bool" where
  "is_num c \<longleftrightarrow> 48 \<le> unat c \<and> unat c \<le> 57"

definition num_val :: "bytes \<Rightarrow> nat" where
  "num_val ds = foldl (\<lambda>n c. 10 * n + (unat c - 48)) 0 ds"

definition strtol :: "bytes \<Rightarrow> int \<times> bytes" where
  "strtol s =
     (let t = dropWhile is_space s;
          neg = (t \<noteq> [] \<and> hd t = 45);
          u = (if t \<noteq> [] \<and> (hd t = 45 \<or> hd t = 43) then tl t else t);
          ds = takeWhile is_num u
      in if ds = [] then (0, s)
         else (if neg then max (- (2 ^ 63)) (- int (num_val ds)) else min (2 ^ 63 - 1) (int (num_val ds)),
               drop (length ds) u))"

text \<open>The numbers of \<open>HTTP/x.y\<close>, cut to an \<open>int\<close>, if the protocol has this form.\<close>

definition parse_version :: "bytes \<Rightarrow> (int \<times> int) option" where
  "parse_version proto =
     (if take 5 proto \<noteq> map char_byte ''HTTP/'' then None
      else let major = drop 5 proto; a = takeWhile (\<lambda>c. c \<noteq> 46) major; b = drop (length a + 1) major
           in if a = major \<or> a = [] \<or> b = [] then None
              else let (m, e) = strtol a; (n, e') = strtol b
                   in if e \<noteq> [] \<or> e' \<noteq> [] then None else Some (wrap32 m, wrap32 n))"

definition byte_char :: "byte \<Rightarrow> char" where
  "byte_char c = char_of (unat c)"

text \<open>The path of the request: an absolute URI loses its host.\<close>

definition uri_text :: "bytes \<Rightarrow> nat \<Rightarrow> nat \<Rightarrow> bytes" where
  "uri_text p uri proto =
     (let u = cstr_at p uri; host = takeWhile (\<lambda>c. c \<noteq> 47) (drop 7 u); n = uri + 7 + length host
      in if take 7 u = map char_byte ''http://'' \<and> host \<noteq> drop 7 u then slice p n (proto - n - 1)
         else slice p uri (proto - uri - 1))"

definition take_uri :: "con \<Rightarrow> nat \<Rightarrow> nat \<Rightarrow> con + con" where
  "take_uri con uri proto =
     (let u = uri_text (cn_parse con) uri proto; con = con\<lparr>rq_uri := Some u\<rparr>
      in if \<not> list_all request_uri_is_valid_char u then Inl (reject con 400)
         else Inr (con\<lparr>rq_orig_uri := Some u, cn_http_status := 0\<rparr>))"

definition take_version :: "con \<Rightarrow> bytes \<Rightarrow> con + con" where
  "take_version con proto =
     (case parse_version proto of
        None \<Rightarrow> Inl (reject con 400)
      | Some (major, minor) \<Rightarrow>
          if major = 1 \<and> minor = 1
          then Inr (con\<lparr>rq_version := (if cn_allow_http11 con then HTTP_VERSION_1_1 else HTTP_VERSION_1_0)\<rparr>)
          else if major = 1 \<and> minor = 0 then Inr (con\<lparr>rq_version := HTTP_VERSION_1_0\<rparr>)
          else Inl (con\<lparr>cn_http_status := 505\<rparr>))"

text \<open>\<open>Inl\<close> is a return, \<open>Inr\<close> goes on behind the line feed.\<close>

definition first_line :: "con \<Rightarrow> nat \<Rightarrow> nat \<Rightarrow> nat \<Rightarrow> nat \<Rightarrow> nat \<Rightarrow> con + con \<times> nat" where
  "first_line con i first stage method uri =
     (let p = (cn_parse con)[i := 0, i + 1 := 0];
          con = con\<lparr>cn_parse := p, rq_line := Some (take i p)\<rparr>
      in if stage \<noteq> 2 then Inl (reject_close con 400)
         else let p = p[uri - 1 := 0, first - 1 := 0];
                  con = con\<lparr>cn_parse := p\<rparr>;
                  r = get_http_method_key (map byte_char (cstr_at p method))
              in if r = -1 then Inl (reject_close con 501)
                 else case take_version (con\<lparr>rq_method := r\<rparr>) (cstr_at p first) of
                        Inl con \<Rightarrow> Inl con
                      | Inr con \<Rightarrow> (case take_uri con uri first of Inl con \<Rightarrow> Inl con | Inr con \<Rightarrow> Inr (con, i + 2)))"

function request_line :: "con \<Rightarrow> nat \<Rightarrow> nat \<Rightarrow> nat \<Rightarrow> nat \<Rightarrow> nat \<Rightarrow> (con + con \<times> nat) res" where
  "request_line con i first stage method uri =
     (if i < length (cn_parse con)
      then let c = cn_parse con ! i
           in if c = 13
              then bindR (get_at (cn_parse con) (int i + 1)) (\<lambda>d.
                     if d = 10 then Inr (first_line con i first stage method uri)
                     else request_line con (i + 1) first stage method uri)
              else if c = 32
              then if stage = 0 then request_line con (i + 1) (i + 1) 1 first uri
                   else if stage = 1 then request_line con (i + 1) (i + 1) 2 method first
                   else Inr (Inl (reject_close con 400))
              else request_line con (i + 1) first stage method uri
      else Inr (Inr (con, i)))"
  by pat_completeness auto
termination by (relation "measure (\<lambda>(con, i, first, stage, method, uri). length (cn_parse con) - i)") auto

declare request_line.simps [simp del]

section \<open>Headers the server looks at\<close>

datatype keep_alive = HTTP_CONNECTION_UNSET | HTTP_CONNECTION_KEEPALIVE | HTTP_CONNECTION_CLOSE

datatype hname =
    HConnection | HContentLength | HContentType | HExpect | HHost | HIfModifiedSince | HIfNoneMatch | HRange

definition header_names :: "(string \<times> hname) list" where
  "header_names =
     [(''Connection'', HConnection), (''Content-Length'', HContentLength), (''Content-Type'', HContentType),
      (''Expect'', HExpect), (''Host'', HHost), (''If-Modified-Since'', HIfModifiedSince),
      (''If-None-Match'', HIfNoneMatch), (''Range'', HRange)]"

text \<open>The names are sorted: the comparison goes on only while the key is greater.\<close>

fun name_chain :: "bool \<Rightarrow> bytes \<Rightarrow> (string \<times> hname) list \<Rightarrow> hname option" where
  "name_chain al key [] = None"
| "name_chain al key ((n, h) # ns) =
     (let cmp = buffer_caseless_compare al key (map char_byte n)
      in if cmp = 0 then Some h else if cmp > 0 then name_chain al key ns else None)"

datatype ptr_field = PNone | PHost | PContentType | PIfModifiedSince | PIfNoneMatch | PRange

text \<open>
  What a header does before it is stored: return at once, without or with storing it; store it and
  keep a pointer into its value; or throw it away.
\<close>

datatype action = AReturn con | AStoreReturn con | AStore con ptr_field nat | ADrop con

fun set_ptr :: "ptr_field \<Rightarrow> vptr \<Rightarrow> con \<Rightarrow> con" where
  "set_ptr PNone v con = con"
| "set_ptr PHost v con = con\<lparr>rq_host := v\<rparr>"
| "set_ptr PContentType v con = con\<lparr>rq_content_type := v\<rparr>"
| "set_ptr PIfModifiedSince v con = con\<lparr>rq_if_modified_since := v\<rparr>"
| "set_ptr PIfNoneMatch v con = con\<lparr>rq_if_none_match := v\<rparr>"
| "set_ptr PRange v con = con\<lparr>rq_range := v\<rparr>"

definition elem_value :: "array \<Rightarrow> nat \<Rightarrow> bytes option res" where
  "elem_value a n =
     bindR (get_at (ar_data a) (int n)) (\<lambda>d. bindR (deref d NullDeref) (\<lambda>d.
       Inr (case du_value d of DString v \<Rightarrow> v | DResponse v \<Rightarrow> v | _ \<Rightarrow> None)))"

text \<open>The string behind a pointer that is not null.\<close>

definition ptr_text :: "array \<Rightarrow> vptr \<Rightarrow> bytes res" where
  "ptr_text a v =
     (case v of NullP \<Rightarrow> Inl NullDeref | Dangling \<Rightarrow> Inl UseAfterFree
      | Elem n k \<Rightarrow> bindR (elem_value a n) (\<lambda>t. Inr (drop k (text_of t))))"

fun scan_connection :: "bool \<Rightarrow> data_unset option list \<Rightarrow> keep_alive \<Rightarrow> keep_alive res" where
  "scan_connection al [] ka = Inr ka"
| "scan_connection al (d # ds) ka =
     bindR (deref d NullDeref) (\<lambda>d.
       let v = text_of (case du_value d of DString v \<Rightarrow> v | DResponse v \<Rightarrow> v | _ \<Rightarrow> None)
       in if buffer_caseless_compare al v (map char_byte ''keep-alive'') = 0 then Inr HTTP_CONNECTION_KEEPALIVE
          else if buffer_caseless_compare al v (map char_byte ''close'') = 0 then Inr HTTP_CONNECTION_CLOSE
          else scan_connection al ds ka)"

definition do_connection :: "bool \<Rightarrow> server \<Rightarrow> bytes \<Rightarrow> keep_alive \<Rightarrow> (server \<times> keep_alive) res" where
  "do_connection al srv v ka =
     bindR (array_reset (sv_split_vals srv)) (\<lambda>vals.
     bindR (http_request_split_value al vals (Some v)) (\<lambda>vals.
     bindR (scan_connection al (take (ar_used vals) (ar_data vals)) ka) (\<lambda>ka.
       Inr (srv\<lparr>sv_split_vals := vals\<rparr>, ka))))"

definition do_content_length :: "con \<Rightarrow> bytes \<Rightarrow> bool \<Rightarrow> action \<times> bool" where
  "do_content_length con v cl =
     (if cl then (AReturn (reject con 400), cl)
      else if \<not> list_all is_num v then (AStoreReturn (reject con 400), cl)
      else (AStore (con\<lparr>rq_content_length := min (2 ^ 64 - 1) (num_val v)\<rparr>) PNone 0, True))"

definition do_range :: "con \<Rightarrow> bytes \<Rightarrow> action" where
  "do_range con v =
     (if rq_range con = NullP
      then if map to_lower_byte (take 6 v) = map char_byte ''bytes='' \<and> 45 \<in> set (drop 6 v)
           then AStore con PRange 6 else AStore con PNone 0
      else AReturn (reject con 400))"

definition do_if_modified_since :: "con \<Rightarrow> bytes \<Rightarrow> action res" where
  "do_if_modified_since con v =
     (if rq_if_modified_since con = NullP then Inr (AStore con PIfModifiedSince 0)
      else bindR (ptr_text (rq_headers con) (rq_if_modified_since con)) (\<lambda>t.
             Inr (if map to_lower_byte t = map to_lower_byte v then ADrop con else AReturn (reject con 400))))"

definition only_once :: "con \<Rightarrow> vptr \<Rightarrow> ptr_field \<Rightarrow> action" where
  "only_once con v f = (if v = NullP then AStore con f 0 else AReturn (reject con 400))"

definition header_action ::
  "bool \<Rightarrow> server \<Rightarrow> con \<Rightarrow> bytes \<Rightarrow> bytes \<Rightarrow> keep_alive \<Rightarrow> bool \<Rightarrow> (action \<times> server \<times> keep_alive \<times> bool) res" where
  "header_action al srv con key v ka cl =
     (case name_chain al key header_names of
        None \<Rightarrow> Inr (AStore con PNone 0, srv, ka, cl)
      | Some HConnection \<Rightarrow> bindR (do_connection al srv v ka) (\<lambda>(srv, ka). Inr (AStore con PNone 0, srv, ka, cl))
      | Some HContentLength \<Rightarrow> (let (a, cl) = do_content_length con v cl in Inr (a, srv, ka, cl))
      | Some HContentType \<Rightarrow> Inr (only_once con (rq_content_type con) PContentType, srv, ka, cl)
      | Some HExpect \<Rightarrow> Inr (AStoreReturn (reject con 417), srv, ka, cl)
      | Some HHost \<Rightarrow> Inr (only_once con (rq_host con) PHost, srv, ka, cl)
      | Some HIfModifiedSince \<Rightarrow> bindR (do_if_modified_since con v) (\<lambda>a. Inr (a, srv, ka, cl))
      | Some HIfNoneMatch \<Rightarrow> Inr (only_once con (rq_if_none_match con) PIfNoneMatch, srv, ka, cl)
      | Some HRange \<Rightarrow> Inr (do_range con v, srv, ka, cl))"

text \<open>
  Storing: a new key gets the next place; a duplicate is merged and its element freed, and with it
  what a pointer into it points to.
\<close>

definition store_header :: "bool \<Rightarrow> con \<Rightarrow> data_unset \<Rightarrow> (con \<times> bool) res" where
  "store_header al con ds =
     bindR (array_insert_unique al (rq_headers con) ds) (\<lambda>(_, a).
       Inr (con\<lparr>rq_headers := a\<rparr>, ar_used (rq_headers con) < ar_used a))"

definition stored_at :: "nat \<Rightarrow> bool \<Rightarrow> nat \<Rightarrow> vptr" where
  "stored_at n fresh k = (if fresh then Elem n k else Dangling)"

definition header_field ::
  "bool \<Rightarrow> server \<Rightarrow> con \<Rightarrow> bytes \<Rightarrow> bytes \<Rightarrow> keep_alive \<Rightarrow> bool \<Rightarrow> (server \<times> (con + con \<times> keep_alive \<times> bool)) res" where
  "header_field al srv con key v ka cl =
     bindR (unused_string (rq_headers con)) (\<lambda>(ds, a).
       let con = con\<lparr>rq_headers := a\<rparr>; ds = set_text (ds\<lparr>du_key := Some key\<rparr>) v; n = ar_used a
       in bindR (header_action al srv con key v ka cl) (\<lambda>(act, srv, ka, cl).
          case act of
            AReturn con \<Rightarrow> Inr (srv, Inl con)
          | AStoreReturn con \<Rightarrow> bindR (store_header al con ds) (\<lambda>(con, _). Inr (srv, Inl con))
          | AStore con f k \<Rightarrow> bindR (store_header al con ds) (\<lambda>(con, fresh).
              Inr (srv, Inr (set_ptr f (stored_at n fresh k) con, ka, cl)))
          | ADrop con \<Rightarrow> Inr (srv, Inr (con, ka, cl))))"

section \<open>Header lines\<close>

record head_st =
  hd_i :: nat
  hd_first :: nat
  hd_is_key :: bool
  hd_key_len :: nat
  hd_in_folding :: bool
  hd_value :: nat
  hd_key :: "nat option"
  hd_keep_alive_set :: keep_alive
  hd_con_length_set :: bool

text \<open>Characters that end a key with an error: separators, and control characters.\<close>

definition key_separators :: bytes where
  "key_separators = map char_byte ''()<>@,;'' @ [92, 34] @ map char_byte ''/[]?={}''"

function ws_scan :: "bytes \<Rightarrow> nat \<Rightarrow> nat option res" where
  "ws_scan p k =
     bindR (get_at p (int k)) (\<lambda>c.
       if is_blank c then ws_scan p (k + 1) else Inr (if c = 58 then Some k else None))"
  by pat_completeness auto
termination by (relation "measure (\<lambda>(p, k). length p - k)") (auto simp: res_simps)

declare ws_scan.simps [simp del]

datatype head_step = HReturn con | HDone con nat | HNext con head_st

definition key_char :: "con \<Rightarrow> head_st \<Rightarrow> head_step res" where
  "key_char con h =
     (let p = cn_parse con; i = hd_i h; c = p ! i
      in if c = 58
         then Inr (HNext con (h\<lparr>hd_is_key := False, hd_value := i + 1, hd_key_len := i - hd_first h, hd_i := i + 1\<rparr>))
         else if c \<in> set key_separators then Inr (HReturn (reject_close con 400))
         else if is_blank c
         then if i = hd_first h
              then Inr (HNext con (h\<lparr>hd_is_key := False, hd_in_folding := True, hd_value := i, hd_i := i + 1\<rparr>))
              else bindR (ws_scan p (i + 1)) (\<lambda>r. Inr (case r of
                     None \<Rightarrow> HReturn (reject_close con 400)
                   | Some k \<Rightarrow> HNext con (h\<lparr>hd_key_len := i - hd_first h, hd_i := k\<rparr>)))
         else if c = 13
         then bindR (get_at p (int i + 1)) (\<lambda>d.
                Inr (if d = 10 \<and> i = hd_first h then HDone (con\<lparr>cn_parse := p[i := 0, i + 1 := 0]\<rparr>) (i + 2)
                     else HReturn (reject_close con 400)))
         else if unat c < 32 \<or> c = 127 then Inr (HReturn (reject_close con 400))
         else Inr (HNext con (h\<lparr>hd_i := i + 1\<rparr>)))"

text \<open>A folded line is appended to the value stored under the last key.\<close>

definition stale :: "nat \<Rightarrow> vptr \<Rightarrow> vptr" where
  "stale n v = (case v of Elem m k \<Rightarrow> if m = n then Dangling else v | _ \<Rightarrow> v)"

definition moved :: "nat \<Rightarrow> con \<Rightarrow> con" where
  "moved n con = con\<lparr>rq_content_type := stale n (rq_content_type con), rq_if_modified_since := stale n (rq_if_modified_since con),
     rq_if_none_match := stale n (rq_if_none_match con), rq_range := stale n (rq_range con)\<rparr>"

definition append_value :: "parse_env \<Rightarrow> con \<Rightarrow> nat \<Rightarrow> bytes \<Rightarrow> con res" where
  "append_value e con n t =
     bindR (get_at (ar_data (rq_headers con)) (int n)) (\<lambda>d. bindR (deref d NullDeref) (\<lambda>d.
     bindR (elem_value (rq_headers con) n) (\<lambda>v.
       let a = rq_headers con;
           con = con\<lparr>rq_headers := a\<lparr>ar_data := (ar_data a)[n := Some (set_text d (text_of v @ t))]\<rparr>\<rparr>
       in Inr (if pe_moves e (text_of v) t then moved n con else con))))"

definition fold_line :: "parse_env \<Rightarrow> con \<Rightarrow> head_st \<Rightarrow> (con + con) res" where
  "fold_line e con h =
     (case hd_key h of
        None \<Rightarrow> Inr (Inl (reject_close con 400))
      | Some key \<Rightarrow>
          if hd_key_len h = 0 then Inr (Inl (reject_close con 400))
          else bindR (array_get_index (pe_al e) (rq_headers con) (Some (cstr_at (slice (cn_parse con) key (hd_key_len h)) 0))) (\<lambda>(ndx, _).
                 if ndx = -1 then Inr (Inr con)
                 else bindR (append_value e con (nat ndx) (cstr_at (cn_parse con) (hd_value h))) (\<lambda>con. Inr (Inr con))))"

definition strip_blanks :: "bytes \<Rightarrow> bytes" where
  "strip_blanks v = rev (dropWhile is_blank (rev v))"

definition head_next :: "head_st \<Rightarrow> head_st" where
  "head_next h = h\<lparr>hd_i := hd_i h + 2, hd_first := hd_i h + 2, hd_is_key := True, hd_value := 0, hd_in_folding := False\<rparr>"

definition end_of_line :: "parse_env \<Rightarrow> server \<Rightarrow> con \<Rightarrow> head_st \<Rightarrow> (server \<times> head_step) res" where
  "end_of_line e srv con h =
     (let i = hd_i h; p = (cn_parse con)[i := 0, i + 1 := 0]; con = con\<lparr>cn_parse := p\<rparr>
      in if hd_in_folding h
         then bindR (fold_line e con h) (\<lambda>r. Inr (srv, case r of Inl con \<Rightarrow> HReturn con | Inr con \<Rightarrow> HNext con (head_next h)))
         else let v = strip_blanks (slice p (hd_value h) (i - hd_value h));
                  h = h\<lparr>hd_key := Some (hd_first h)\<rparr>;
                  con = con\<lparr>cn_parse := p[hd_value h + length v := 0]\<rparr>
              in if v = [] then Inr (srv, HNext con (head_next h))
                 else bindR (header_field (pe_al e) srv con (slice (cn_parse con) (hd_first h) (hd_key_len h)) v
                        (hd_keep_alive_set h) (hd_con_length_set h)) (\<lambda>(srv, r). Inr (srv, case r of
                          Inl con \<Rightarrow> HReturn con
                        | Inr (con, ka, cl) \<Rightarrow>
                            HNext con (head_next (h\<lparr>hd_keep_alive_set := ka, hd_con_length_set := cl\<rparr>)))))"

text \<open>A blank at the start of a value is skipped; a tab is rejected all the same.\<close>

definition value_char :: "parse_env \<Rightarrow> server \<Rightarrow> con \<Rightarrow> head_st \<Rightarrow> (server \<times> head_step) res" where
  "value_char e srv con h =
     (let p = cn_parse con; i = hd_i h; c = p ! i
      in if c = 13
         then bindR (get_at p (int i + 1)) (\<lambda>d.
                if d = 10 then end_of_line e srv con h else Inr (srv, HReturn (reject_close con 400)))
         else if 0 \<le> sint c \<and> sint c < 32 then Inr (srv, HReturn (reject con 400))
         else Inr (srv, HNext con (h\<lparr>hd_value := (if is_blank c \<and> hd_value h = i then i + 1 else hd_value h), hd_i := i + 1\<rparr>)))"

definition head_char :: "parse_env \<Rightarrow> server \<Rightarrow> con \<Rightarrow> head_st \<Rightarrow> (server \<times> head_step) res" where
  "head_char e srv con h =
     (if hd_is_key h then bindR (key_char con h) (\<lambda>r. Inr (srv, r)) else value_char e srv con h)"

text \<open>\<open>Inl\<close> is a return; \<open>Inr\<close> the end of the header with the index behind it.\<close>

type_synonym head_end = "server \<times> (con + con \<times> nat \<times> keep_alive \<times> bool)"

lemma ws_scan_bounds: "ws_scan p k = Inr (Some j) \<Longrightarrow> k \<le> j \<and> j < length p"
  by (induction p k rule: ws_scan.induct) (auto simp: ws_scan.simps [of p for p] res_simps split: if_splits)

fun act_con :: "action \<Rightarrow> con" where
  "act_con (AReturn con) = con"
| "act_con (AStoreReturn con) = con"
| "act_con (AStore con f k) = con"
| "act_con (ADrop con) = con"

lemma reject_parse [simp]: "cn_parse (reject con st) = cn_parse con" "cn_parse (reject_close con st) = cn_parse con"
  by (simp_all add: reject_def reject_close_def)

lemma set_ptr_parse [simp]: "cn_parse (set_ptr f v con) = cn_parse con"
  by (cases f) simp_all

lemma header_action_parse:
  "header_action al srv con key v ka cl = Inr (act, srv', ka', cl') \<Longrightarrow> cn_parse (act_con act) = cn_parse con"
  by (auto simp: header_action_def do_content_length_def do_range_def do_if_modified_since_def only_once_def res_simps
      split: option.splits hname.splits if_splits)

lemma store_header_parse: "store_header al con ds = Inr (con', fresh) \<Longrightarrow> cn_parse con' = cn_parse con"
  by (auto simp: store_header_def res_simps)

lemma header_field_parse:
  assumes "header_field al srv con key v ka cl = Inr (srv', Inr (con', ka', cl'))"
  shows "cn_parse con' = cn_parse con"
proof -
  obtain ds a act srv1 ka1 cl1 where act: "header_action al srv (con\<lparr>rq_headers := a\<rparr>) key v ka cl = Inr (act, srv1, ka1, cl1)"
    and rest: "(case act of
            AReturn con \<Rightarrow> Inr (srv1, Inl con)
          | AStoreReturn con \<Rightarrow> bindR (store_header al con (set_text (ds\<lparr>du_key := Some key\<rparr>) v)) (\<lambda>(con, _). Inr (srv1, Inl con))
          | AStore con f k \<Rightarrow> bindR (store_header al con (set_text (ds\<lparr>du_key := Some key\<rparr>) v)) (\<lambda>(con, fresh).
              Inr (srv1, Inr (set_ptr f (stored_at (ar_used a) fresh k) con, ka1, cl1)))
          | ADrop con \<Rightarrow> Inr (srv1, Inr (con, ka1, cl1))) = Inr (srv', Inr (con', ka', cl'))"
    using assms by (auto simp: header_field_def Let_def bindR_eq_Inr)
  have "cn_parse (act_con act) = cn_parse con" using header_action_parse [OF act] by simp
  then show ?thesis
    using rest by (cases act) (auto simp: bindR_eq_Inr dest!: store_header_parse)
qed

lemma moved_parse [simp]: "cn_parse (moved n con) = cn_parse con"
  by (simp add: moved_def)

lemma append_value_parse: "append_value e con n t = Inr con' \<Longrightarrow> cn_parse con' = cn_parse con"
  by (auto simp: append_value_def bindR_eq_Inr Let_def)

lemma fold_line_parse: "fold_line e con h = Inr (Inr con') \<Longrightarrow> cn_parse con' = cn_parse con"
  by (auto simp: fold_line_def bindR_eq_Inr dest: append_value_parse split: option.splits if_splits)

lemma head_next_i [simp]: "hd_i (head_next h) = hd_i h + 2"
  by (simp add: head_next_def)

lemma end_of_line_parse:
  assumes "end_of_line e srv con h = Inr (srv', HNext con' h')"
  shows "length (cn_parse con') = length (cn_parse con) \<and> hd_i h' = hd_i h + 2"
proof (cases "hd_in_folding h")
  case True
  then obtain r where r: "fold_line e (con\<lparr>cn_parse := (cn_parse con)[hd_i h := 0, hd_i h + 1 := 0]\<rparr>) h = Inr r"
    "HNext con' h' = (case r of Inl con \<Rightarrow> HReturn con | Inr con \<Rightarrow> HNext con (head_next h))"
    using assms by (auto simp: end_of_line_def Let_def bindR_eq_Inr)
  then show ?thesis by (cases r) (auto dest!: fold_line_parse)
next
  case False
  let ?p = "(cn_parse con)[hd_i h := 0, hd_i h + 1 := 0]"
  let ?v = "strip_blanks (slice ?p (hd_value h) (hd_i h - hd_value h))"
  show ?thesis
  proof (cases "?v = []")
    case True
    then show ?thesis using assms False by (auto simp: end_of_line_def Let_def)
  next
    case v: False
    with assms False obtain con1 key ka cl srv1 r where
      "header_field (pe_al e) srv (con\<lparr>cn_parse := ?p[hd_value h + length ?v := 0]\<rparr>) key ?v ka cl = Inr (srv1, r)"
      "HNext con' h' = (case r of Inl con \<Rightarrow> HReturn con | Inr (con, ka, cl) \<Rightarrow>
         HNext con (head_next (h\<lparr>hd_key := Some (hd_first h), hd_keep_alive_set := ka, hd_con_length_set := cl\<rparr>)))"
      by (auto simp: end_of_line_def Let_def bindR_eq_Inr)
    then show ?thesis by (cases r) (auto dest!: header_field_parse)
  qed
qed

lemma head_char_next:
  assumes "head_char e srv con h = Inr (srv', HNext con' h')" "hd_i h < length (cn_parse con)"
  shows "length (cn_parse con') - hd_i h' < length (cn_parse con) - hd_i h"
proof (cases "hd_is_key h")
  case True
  then have k: "key_char con h = Inr (HNext con' h')" using assms(1) by (auto simp: head_char_def res_simps)
  then have "cn_parse con' = cn_parse con \<and> hd_i h < hd_i h'"
    by (auto simp: key_char_def Let_def res_simps split: if_splits option.splits dest!: ws_scan_bounds)
  then show ?thesis using assms(2) by auto
next
  case False
  then have "value_char e srv con h = Inr (srv', HNext con' h')" using assms(1) by (simp add: head_char_def)
  then show ?thesis
    using assms(2) end_of_line_parse [of e srv con h srv' con' h']
    by (auto simp: value_char_def Let_def res_simps split: if_splits)
qed

function head_loop :: "parse_env \<Rightarrow> server \<Rightarrow> con \<Rightarrow> head_st \<Rightarrow> head_end res" where
  "head_loop e srv con h =
     (if hd_i h < length (cn_parse con)
      then bindR (head_char e srv con h) (\<lambda>(srv, r). case r of
             HReturn con \<Rightarrow> Inr (srv, Inl con)
           | HDone con i \<Rightarrow> Inr (srv, Inr (con, i, hd_keep_alive_set h, hd_con_length_set h))
           | HNext con h \<Rightarrow> head_loop e srv con h)
      else Inr (srv, Inr (con, hd_i h, hd_keep_alive_set h, hd_con_length_set h)))"
  by pat_completeness auto
termination
  by (relation "measure (\<lambda>(e, srv, con, h). length (cn_parse con) - hd_i h)") (auto dest: head_char_next)

declare head_loop.simps [simp del]

section \<open>The checks at the end\<close>

definition host_text :: "con \<Rightarrow> bytes option res" where
  "host_text con =
     (case rq_host con of NullP \<Rightarrow> Inr None | Dangling \<Rightarrow> Inl UseAfterFree | Elem n _ \<Rightarrow> elem_value (rq_headers con) n)"

definition check_keep_alive :: "con \<Rightarrow> bytes option \<Rightarrow> keep_alive \<Rightarrow> con + con" where
  "check_keep_alive con host ka =
     (if rq_version con = HTTP_VERSION_1_1
      then let con = con\<lparr>cn_keep_alive := (ka \<noteq> HTTP_CONNECTION_CLOSE)\<rparr>
           in if host = None \<or> host = Some [] then Inl (reject_close con 400) else Inr con
      else Inr (con\<lparr>cn_keep_alive := (ka = HTTP_CONNECTION_KEEPALIVE)\<rparr>))"

definition check_method :: "con \<Rightarrow> bool \<Rightarrow> con + con" where
  "check_method con cl =
     (if rq_method con = HTTP_METHOD_GET \<or> rq_method con = HTTP_METHOD_HEAD
      then if cl \<and> rq_content_length con \<noteq> 0 then Inl (reject con 400) else Inr con
      else if rq_method con = HTTP_METHOD_POST
      then if \<not> cl then Inl (reject con 411) else Inr con
      else Inr con)"

definition SSIZE_MAX :: nat where
  "SSIZE_MAX = 2 ^ 63 - 1"

definition check_length :: "server \<Rightarrow> con \<Rightarrow> bool \<Rightarrow> int \<times> con" where
  "check_length srv con cl =
     (if cl
      then if rq_content_length con > SSIZE_MAX then (0, reject con 413)
           else if sv_max_request_size srv \<noteq> 0 \<and> rq_content_length con div 1024 > sv_max_request_size srv
           then (0, reject con 413)
           else (if rq_content_length con \<noteq> 0 then 1 else 0, con)
      else (0, con))"

definition request_checks :: "server \<Rightarrow> con \<Rightarrow> keep_alive \<Rightarrow> bool \<Rightarrow> (int \<times> con) res" where
  "request_checks srv con ka cl =
     bindR (host_text con) (\<lambda>host.
       case check_keep_alive con host ka of
         Inl con \<Rightarrow> Inr (0, con)
       | Inr con \<Rightarrow>
           if rq_host con \<noteq> NullP \<and> request_check_hostname host \<noteq> 0 then Inr (0, reject_close con 400)
           else case check_method con cl of Inl con \<Rightarrow> Inr (0, con) | Inr con \<Rightarrow> Inr (check_length srv con cl))"

definition http_request_parse :: "parse_env \<Rightarrow> server \<Rightarrow> con \<Rightarrow> (int \<times> server \<times> con) res" where
  "http_request_parse e srv con =
     (let text = (if cn_request_count con > 1 \<and> take 2 (cn_request con) = [13, 10] then drop 2 (cn_request con) else cn_request con);
          con = con\<lparr>cn_parse := text @ [0]\<rparr>
      in bindR (request_line con 0 0 0 0 0) (\<lambda>r. case r of
           Inl con \<Rightarrow> Inr (0, srv, con)
         | Inr (con, i) \<Rightarrow>
             if rq_uri con = Some [] then Inr (0, srv, reject_close con 400)
             else bindR (head_loop e srv con \<lparr>hd_i = i, hd_first = i, hd_is_key = True, hd_key_len = 0, hd_in_folding = False,
                      hd_value = 0, hd_key = None, hd_keep_alive_set = HTTP_CONNECTION_UNSET, hd_con_length_set = False\<rparr>)
                    (\<lambda>(srv, r). case r of
                       Inl con \<Rightarrow> Inr (0, srv, con)
                     | Inr (con, i, ka, cl) \<Rightarrow>
                         bindR (request_checks srv (con\<lparr>cn_header_len := i\<rparr>) ka cl) (\<lambda>(r, con). Inr (r, srv, con)))))"

fun strstr_crlf2 :: "bytes \<Rightarrow> bool" where
  "strstr_crlf2 s = (if take 4 s = [13, 10, 13, 10] then True else case s of [] \<Rightarrow> False | _ # r \<Rightarrow> strstr_crlf2 r)"

definition http_request_header_finished :: "bytes \<Rightarrow> bool" where
  "http_request_header_finished r \<longleftrightarrow>
     4 \<le> length r \<and> (drop (length r - 4) r = [13, 10, 13, 10] \<or> strstr_crlf2 (takeWhile (\<lambda>c. c \<noteq> 0) r))"

end
