(* ===== verification/Lt_Array_Facts.thy ===== *)
theory Lt_Array_Facts
  imports Lt_Array
begin

text \<open>
  The arrays of \<open>Lt_Array\<close> as tables: the search by halving a power of two finds what is there and the
  place of what is not (a locale over any comparison that follows a linear order, interpreted on
  \<open>buffer_caseless_compare\<close>), insertion keeps the sorted block sorted, and a sequence of insertions
  merges the values of equal keys in their order.
\<close>

section \<open>The search\<close>

locale ranked_compare =
  fixes cmp :: "'k \<Rightarrow> 'k \<Rightarrow> int" and ok :: "'k \<Rightarrow> bool" and rank :: "'k \<Rightarrow> 'r :: linorder"
  assumes cmp_less: "ok x \<Longrightarrow> ok y \<Longrightarrow> cmp x y < 0 \<longleftrightarrow> rank x < rank y"
    and cmp_greater: "ok x \<Longrightarrow> ok y \<Longrightarrow> 0 < cmp x y \<longleftrightarrow> rank y < rank x"
begin

lemma cmp_equal: "ok x \<Longrightarrow> ok y \<Longrightarrow> cmp x y = 0 \<longleftrightarrow> rank x = rank y"
  using cmp_less [of x y] cmp_greater [of x y] by (metis less_irrefl linorder_neqE)

definition probe :: "'k list \<Rightarrow> 'k \<Rightarrow> int \<Rightarrow> int" where
  "probe ks k pos = (if pos < 0 then 1 else if pos \<ge> int (length ks) then -1 else cmp k (ks ! nat pos))"

function search :: "'k list \<Rightarrow> 'k \<Rightarrow> nat \<Rightarrow> int \<Rightarrow> int option \<times> int" where
  "search ks k i pos =
     (if probe ks k pos = 0 then (Some pos, pos)
      else let pos = (if probe ks k pos < 0 then pos - int i else pos + int i)
           in if i = 0 then (None, pos) else search ks k (i div 2) pos)"
  by pat_completeness auto
termination by (relation "measure (\<lambda>(ks, k, i, pos). i)") auto

declare search.simps [simp del]

definition ordered :: "'k list \<Rightarrow> bool" where
  "ordered ks \<longleftrightarrow> (\<forall>x \<in> set ks. ok x) \<and> sorted_wrt (\<lambda>x y. rank x < rank y) ks"

lemma ordered_nth: "ordered ks \<Longrightarrow> i < j \<Longrightarrow> j < length ks \<Longrightarrow> rank (ks ! i) < rank (ks ! j)"
  by (auto simp: ordered_def sorted_wrt_iff_nth_less)

text \<open>\<open>cut ks k t\<close>: the first \<open>t\<close> keys are below \<open>k\<close>, the others above.\<close>

definition cut :: "'k list \<Rightarrow> 'k \<Rightarrow> int \<Rightarrow> bool" where
  "cut ks k t \<longleftrightarrow> 0 \<le> t \<and> t \<le> int (length ks) \<and>
     (\<forall>j < length ks. if int j < t then rank (ks ! j) < rank k else rank k < rank (ks ! j))"

lemma probe_at_cut:
  assumes "ordered ks" "ok k" "cut ks k t"
  shows "probe ks k pos \<noteq> 0" "probe ks k pos < 0 \<longleftrightarrow> t \<le> pos"
proof -
  have ks: "ok (ks ! nat pos)" if "0 \<le> pos" "pos < int (length ks)"
    using assms(1) that by (simp add: ordered_def)
  have "probe ks k pos \<noteq> 0 \<and> (probe ks k pos < 0 \<longleftrightarrow> t \<le> pos)"
  proof (cases "0 \<le> pos \<and> pos < int (length ks)")
    case True
    with assms(3) have "if pos < t then rank (ks ! nat pos) < rank k else rank k < rank (ks ! nat pos)"
      unfolding cut_def by (metis int_nat_eq nat_less_iff)
    moreover have "probe ks k pos = cmp k (ks ! nat pos)" using True by (simp add: probe_def)
    ultimately show ?thesis
      using True ks cmp_less [OF assms(2), of "ks ! nat pos"] cmp_greater [OF assms(2), of "ks ! nat pos"]
      by (cases "pos < t") (auto simp: not_less)
  next
    case False
    then show ?thesis using assms(3) by (auto simp: probe_def cut_def)
  qed
  then show "probe ks k pos \<noteq> 0" "probe ks k pos < 0 \<longleftrightarrow> t \<le> pos" by auto
qed

lemma search_absent:
  assumes "ordered ks" "ok k" "cut ks k t"
  shows "pos - 2 ^ m < t \<Longrightarrow> t \<le> pos + 2 ^ m \<Longrightarrow> \<exists>p. search ks k (2 ^ m div 2) pos = (None, p) \<and> p \<le> t \<and> t \<le> p + 1"
proof (induction m arbitrary: pos)
  case 0
  have "search ks k (2 ^ 0 div 2) pos = (None, pos)"
    using probe_at_cut [OF assms, of pos] by (simp add: search.simps [of ks k 0])
  then show ?case using 0 by auto
next
  case (Suc m)
  have i: "2 ^ Suc m div 2 = (2 ^ m :: nat)" by simp
  let ?p = "if t \<le> pos then pos - 2 ^ m else pos + 2 ^ m"
  have "search ks k (2 ^ m) pos = search ks k (2 ^ m div 2) ?p"
    using probe_at_cut [OF assms, of pos] by (subst search.simps) (simp add: Let_def)
  moreover have "?p - 2 ^ m < t" "t \<le> ?p + 2 ^ m" using Suc.prems by (auto split: if_splits)
  ultimately show ?case using Suc.IH [of ?p] unfolding i by simp
qed

lemma search_present:
  assumes "ordered ks" "ok k" "t < length ks" "rank (ks ! t) = rank k"
  shows "pos - 2 ^ m < int t \<Longrightarrow> int t < pos + 2 ^ m \<Longrightarrow> search ks k (2 ^ m div 2) pos = (Some (int t), int t)"
proof (induction m arbitrary: pos)
  have pr: "probe ks k pos = 0 \<longleftrightarrow> pos = int t" "probe ks k pos < 0 \<longleftrightarrow> int t < pos" for pos
  proof -
    have "(probe ks k pos = 0 \<longleftrightarrow> pos = int t) \<and> (probe ks k pos < 0 \<longleftrightarrow> int t < pos)" if "0 \<le> pos" "pos < int (length ks)"
    proof -
      have ok: "ok (ks ! nat pos)" using assms(1) that by (simp add: ordered_def)
      have pos: "probe ks k pos = cmp k (ks ! nat pos)" using that by (simp add: probe_def)
      consider "nat pos < t" | "nat pos = t" | "t < nat pos" by linarith
      then show ?thesis
      proof cases
        case 1
        then have "rank (ks ! nat pos) < rank k" using ordered_nth [OF assms(1) 1 assms(3)] assms(4) by simp
        then show ?thesis using cmp_greater [OF assms(2) ok] pos 1 that by auto
      next
        case 2
        then have "pos = int t" using that by simp
        then show ?thesis using cmp_equal [OF assms(2) ok] assms(4) pos 2 by simp
      next
        case 3
        then have "rank k < rank (ks ! nat pos)" using ordered_nth [OF assms(1) 3] assms(4) that by simp
        then show ?thesis using cmp_less [OF assms(2) ok] pos 3 that by auto
      qed
    qed
    then show "probe ks k pos = 0 \<longleftrightarrow> pos = int t" "probe ks k pos < 0 \<longleftrightarrow> int t < pos"
      using assms(3) by (auto simp: probe_def)
  qed
  {
    case 0
    then show ?case using pr by (simp add: search.simps [of ks k 0])
  next
    case (Suc m)
    have i: "2 ^ Suc m div 2 = (2 ^ m :: nat)" by simp
    let ?p = "if int t < pos then pos - 2 ^ m else pos + 2 ^ m"
    show ?case
    proof (cases "pos = int t")
      case True
      then show ?thesis using pr by (simp add: search.simps [of ks k])
    next
      case False
      then have "search ks k (2 ^ m) pos = search ks k (2 ^ m div 2) ?p"
        using pr [of pos] by (subst search.simps) (simp add: Let_def)
      moreover have "?p - 2 ^ m < int t" "int t < ?p + 2 ^ m" using Suc.prems False by (auto split: if_splits)
      ultimately show ?thesis using Suc.IH [of ?p] unfolding i by simp
    qed
  }
qed

lemma cut_exists:
  assumes "ordered ks" "ok k" "\<forall>x \<in> set ks. rank x \<noteq> rank k"
  shows "cut ks k (int (length (takeWhile (\<lambda>x. rank x < rank k) ks)))"
proof -
  let ?t = "length (takeWhile (\<lambda>x. rank x < rank k) ks)"
  have "if j < ?t then rank (ks ! j) < rank k else rank k < rank (ks ! j)" if j: "j < length ks" for j
  proof (cases "j < ?t")
    case True
    then have "ks ! j \<in> set (takeWhile (\<lambda>x. rank x < rank k) ks)" by (metis nth_mem takeWhile_nth)
    then show ?thesis using True by (auto dest: set_takeWhileD)
  next
    case False
    then have t: "?t < length ks" using j by simp
    have "\<not> rank (ks ! ?t) < rank k" by (rule nth_length_takeWhile [OF t])
    then have "rank k < rank (ks ! ?t)" using assms(3) t by (metis linorder_neqE nth_mem)
    moreover have "rank (ks ! ?t) \<le> rank (ks ! j)"
      using ordered_nth [OF assms(1), of ?t j] False j by (cases "?t = j") auto
    ultimately show ?thesis using False by simp
  qed
  then show ?thesis by (simp add: cut_def length_takeWhile_le)
qed

lemma ordered_insert:
  assumes o: "ordered ks" and k: "ok k" and c: "cut ks k (int t)"
  shows "ordered (take t ks @ k # drop t ks)"
proof -
  have t: "t \<le> length ks" using c by (simp add: cut_def)
  have "rank x < rank k" if "x \<in> set (take t ks)" for x
    using that c t by (auto simp: cut_def in_set_conv_nth)
  moreover have "rank k < rank x" if x: "x \<in> set (drop t ks)" for x
  proof -
    obtain j where "x = ks ! (t + j)" "t + j < length ks" using x by (auto simp: in_set_conv_nth)
    then show ?thesis using c unfolding cut_def by (metis not_add_less1 of_nat_less_iff)
  qed
  moreover have "sorted_wrt (\<lambda>x y. rank x < rank y) (take t ks @ drop t ks)" using o by (simp add: ordered_def)
  ultimately show ?thesis
    using o k unfolding ordered_def sorted_wrt_append by (auto dest: in_set_takeD in_set_dropD)
qed

end

section \<open>The comparison without case as an order\<close>

text \<open>
  Between the capital and the small letters lie six characters. A text without them is compared as
  if it were in small letters; with them the comparison is not transitive.
\<close>

definition plain_char :: "byte \<Rightarrow> bool" where
  "plain_char c \<longleftrightarrow> \<not> (91 \<le> sint c \<and> sint c \<le> 96)"

definition plain_text :: "bytes \<Rightarrow> bool" where
  "plain_text k \<longleftrightarrow> (\<forall>c \<in> set k. plain_char c) \<and> length k < 2 ^ 31"

definition lower_rank :: "bytes \<Rightarrow> int list" where
  "lower_rank k = map (\<lambda>c. sint (to_lower_byte c)) k"

definition fold_rank :: "int \<Rightarrow> int" where
  "fold_rank x = (if 65 \<le> x \<and> x \<le> 90 then x + 32 else x)"

lemma sint_to_lower: "sint (to_lower_byte c) = fold_rank (sint c)"
  by (simp add: to_lower_byte_def sint_lower fold_rank_def)

definition fold_diff :: "int \<Rightarrow> int \<Rightarrow> int" where
  "fold_diff x y =
     (if x \<noteq> y
      then if 65 \<le> x \<and> x \<le> 90 \<and> 97 \<le> y \<and> y \<le> 122 then x + 32 - y
           else if 97 \<le> x \<and> x \<le> 122 \<and> 65 \<le> y \<and> y \<le> 90 then x - (y + 32) else x - y
      else 0)"

lemma fold_case_sint: "fold_case a b = fold_diff (sint a) (sint b)"
proof -
  have eq: "a \<noteq> b \<longleftrightarrow> sint a \<noteq> sint b" by (metis signed_word_eqI)
  show ?thesis
    unfolding fold_case_def fold_diff_def Let_def eq using sint_lower [of a] sint_lower [of b] by (simp split: if_split)
qed

lemma fold_diff_rank:
  assumes "\<not> (91 \<le> x \<and> x \<le> 96)" "\<not> (91 \<le> y \<and> y \<le> 96)"
  shows "fold_diff x y < 0 \<longleftrightarrow> fold_rank x < fold_rank y" "0 < fold_diff x y \<longleftrightarrow> fold_rank y < fold_rank x"
    "fold_diff x y = 0 \<longleftrightarrow> fold_rank x = fold_rank y"
proof -
  have "x \<le> 64 \<or> 65 \<le> x \<and> x \<le> 90 \<or> 97 \<le> x \<and> x \<le> 122 \<or> 123 \<le> x" using assms(1) by linarith
  moreover have "y \<le> 64 \<or> 65 \<le> y \<and> y \<le> 90 \<or> 97 \<le> y \<and> y \<le> 122 \<or> 123 \<le> y" using assms(2) by linarith
  ultimately have "(fold_diff x y < 0 \<longleftrightarrow> fold_rank x < fold_rank y) \<and> (fold_diff x y = 0 \<longleftrightarrow> fold_rank x = fold_rank y)"
    by (elim disjE conjE; simp add: fold_diff_def fold_rank_def)
  then show "fold_diff x y < 0 \<longleftrightarrow> fold_rank x < fold_rank y" "0 < fold_diff x y \<longleftrightarrow> fold_rank y < fold_rank x"
    "fold_diff x y = 0 \<longleftrightarrow> fold_rank x = fold_rank y"
    by linarith+
qed

lemma fold_case_rank:
  assumes "plain_char a" "plain_char b"
  shows "fold_case a b < 0 \<longleftrightarrow> sint (to_lower_byte a) < sint (to_lower_byte b)"
    "0 < fold_case a b \<longleftrightarrow> sint (to_lower_byte b) < sint (to_lower_byte a)"
    "fold_case a b = 0 \<longleftrightarrow> sint (to_lower_byte a) = sint (to_lower_byte b)"
  using assms unfolding sint_to_lower fold_case_sint plain_char_def by (simp_all only: fold_diff_rank not_False_eq_True)

definition caseless_value :: "bytes \<Rightarrow> bytes \<Rightarrow> int" where
  "caseless_value a b =
     (case caseless_bytes a b of Some r \<Rightarrow> r | None \<Rightarrow> if length a = length b then 0 else int (length a) - int (length b))"

lemma caseless_value_Cons:
  "caseless_value (a # as) (b # bs) = (if fold_case a b \<noteq> 0 then fold_case a b else caseless_value as bs)"
  by (simp add: caseless_value_def split: option.split)

lemma caseless_value_Nil: "caseless_value [] bs = - int (length bs)" "caseless_value as [] = int (length as)"
  by (simp_all add: caseless_value_def)

lemma caseless_value_rank:
  "\<forall>c \<in> set a \<union> set b. plain_char c \<Longrightarrow>
   (caseless_value a b < 0 \<longleftrightarrow> lower_rank a < lower_rank b) \<and> (0 < caseless_value a b \<longleftrightarrow> lower_rank b < lower_rank a)"
proof (induction a b rule: caseless_bytes.induct [case_names both left right])
  case (both a as b bs)
  have "fold_case a b < 0 \<longleftrightarrow> sint (to_lower_byte a) < sint (to_lower_byte b)"
    "0 < fold_case a b \<longleftrightarrow> sint (to_lower_byte b) < sint (to_lower_byte a)"
    "fold_case a b = 0 \<longleftrightarrow> sint (to_lower_byte a) = sint (to_lower_byte b)"
    using both(2) by (intro fold_case_rank; simp)+
  then show ?case
    using both by (cases "fold_case a b = 0") (auto simp: lower_rank_def caseless_value_Cons)
next
  case (left b)
  then show ?case by (cases b) (auto simp: lower_rank_def caseless_value_Nil)
next
  case (right a)
  then show ?case by (cases a) (auto simp: lower_rank_def caseless_value_Nil)
qed

interpretation caseless: ranked_compare "buffer_caseless_compare al" plain_text lower_rank for al
proof
  fix x y
  assume "plain_text x" "plain_text y"
  moreover from this have "buffer_caseless_compare al x y = caseless_value x y"
    by (simp add: plain_text_def caseless_value_def caseless_compare_eq)
  ultimately show "buffer_caseless_compare al x y < 0 \<longleftrightarrow> lower_rank x < lower_rank y"
    "0 < buffer_caseless_compare al x y \<longleftrightarrow> lower_rank y < lower_rank x"
    using caseless_value_rank [of x y] by (auto simp: plain_text_def)
qed

section \<open>What an array holds\<close>

definition plain_key :: "bytes \<Rightarrow> bool" where
  "plain_key k \<longleftrightarrow> 0 \<notin> set k \<and> plain_text (k @ [0])"

definition entry_ok :: "data_unset \<Rightarrow> bool" where
  "entry_ok d \<longleftrightarrow> (\<exists>k. du_key d = Some k \<and> plain_key k)"

abbreviation key_order :: "bytes list \<Rightarrow> bool" where
  "key_order \<equiv> ranked_compare.ordered plain_text lower_rank"

definition index_of :: "array \<Rightarrow> data_unset list \<Rightarrow> nat list \<Rightarrow> bool" where
  "index_of a es idx \<longleftrightarrow> take (length es) (ar_sorted a) = map Some idx \<and> set idx = {..<length es}
     \<and> key_order (map (\<lambda>i. key_bytes (du_key (es ! i))) idx)"

definition arr_repr :: "array \<Rightarrow> data_unset list \<Rightarrow> bool" where
  "arr_repr a es \<longleftrightarrow> length (ar_data a) = ar_size a \<and> length (ar_sorted a) = ar_size a \<and> ar_used a = length es
     \<and> length es \<le> ar_size a \<and> take (length es) (ar_data a) = map Some es \<and> (\<forall>e \<in> set es. entry_ok e)
     \<and> (\<exists>m. ar_next_power_of_2 a = 2 ^ m) \<and> length es \<le> ar_next_power_of_2 a \<and> (\<exists>idx. index_of a es idx)"

definition same_key :: "bytes \<Rightarrow> data_unset \<Rightarrow> bool" where
  "same_key k d \<longleftrightarrow> map to_lower_byte (text_of (du_key d)) = map to_lower_byte k"

lemma lower_rank_key: "lower_rank (j @ [0]) = lower_rank (k @ [0]) \<longleftrightarrow> map to_lower_byte j = map to_lower_byte k"
proof -
  have "map (\<lambda>c. sint (to_lower_byte c)) j = map (\<lambda>c. sint (to_lower_byte c)) k \<longleftrightarrow>
      map sint (map to_lower_byte j) = map sint (map to_lower_byte k)" by (simp add: comp_def)
  also have "\<dots> \<longleftrightarrow> map to_lower_byte j = map to_lower_byte k"
    by (intro inj_map_eq_map injI) (metis signed_word_eqI)
  finally show ?thesis by (simp add: lower_rank_def)
qed

lemma same_key_rank: "entry_ok d \<Longrightarrow> lower_rank (key_bytes (du_key d)) = lower_rank (k @ [0]) \<longleftrightarrow> same_key k d"
  by (auto simp: entry_ok_def key_bytes_def same_key_def text_of_def lower_rank_key)

lemma array_init_repr: "arr_repr array_init []"
proof -
  have "key_order []" by (simp add: caseless.ordered_def)
  then have "index_of array_init [] []" by (simp add: index_of_def array_init_def)
  moreover have "\<exists>m. (1 :: nat) = 2 ^ m" by (rule exI [of _ 0]) simp
  ultimately show ?thesis by (auto simp: arr_repr_def array_init_def)
qed

lemma index_length:
  assumes "arr_repr a es" "index_of a es idx"
  shows "length idx = length es"
proof -
  have "length (take (length es) (ar_sorted a)) = length es" using assms(1) by (simp add: arr_repr_def)
  then show ?thesis using assms(2) by (metis index_of_def length_map)
qed

lemma repr_key_at:
  assumes "arr_repr a es" "index_of a es idx" "0 \<le> pos" "pos < int (length es)"
  shows "key_at a pos = Inr (idx ! nat pos, key_bytes (du_key (es ! (idx ! nat pos))))"
proof -
  have p: "nat pos < length es" "nat pos < length idx" using assms index_length by auto
  then have n: "idx ! nat pos < length es" using assms(2) by (metis index_of_def lessThan_iff nth_mem)
  have "ar_sorted a ! nat pos = Some (idx ! nat pos)"
    using assms(2) p unfolding index_of_def by (metis nth_map nth_take)
  moreover have "ar_data a ! (idx ! nat pos) = Some (es ! (idx ! nat pos))"
    using assms(1) n unfolding arr_repr_def by (metis nth_map nth_take)
  ultimately show ?thesis
    using assms(1,3,4) n by (simp add: key_at_def arr_repr_def deref_def)
qed

lemma index_loop_search:
  assumes "arr_repr a es" "index_of a es idx"
  defines "ks \<equiv> map (\<lambda>i. key_bytes (du_key (es ! i))) idx"
  shows "index_loop al a key i pos =
    Inr (case caseless.search al ks key i pos of (Some p, q) \<Rightarrow> (int (idx ! nat p), q) | (None, q) \<Rightarrow> (-1, q))"
proof (induction i arbitrary: pos rule: less_induct)
  case (less i)
  let ?next = "if caseless.probe al ks key pos < 0 then pos - int i else pos + int i"
  have len: "length ks = length es" "ar_used a = length es"
    using assms(1) index_length [OF assms(1,2)] by (simp_all add: ks_def arr_repr_def)
  have step: "index_step al a key i pos =
      Inr (if caseless.probe al ks key pos = 0 then Inr (idx ! nat pos) else Inl ?next)"
  proof (cases "0 \<le> pos \<and> pos < int (length es)")
    case True
    then have "ks ! nat pos = key_bytes (du_key (es ! (idx ! nat pos)))"
      using index_length [OF assms(1,2)] by (simp add: ks_def nat_less_iff)
    with True show ?thesis
      using repr_key_at [OF assms(1,2), of pos] len by (simp add: index_step_def caseless.probe_def Let_def)
  next
    case False
    then show ?thesis using len by (auto simp: index_step_def caseless.probe_def)
  qed
  show ?case
  proof (cases "caseless.probe al ks key pos = 0 \<or> i = 0")
    case True
    then show ?thesis
      unfolding index_loop.simps [of al a key i] step caseless.search.simps [of al ks key i] by (auto simp: Let_def)
  next
    case False
    then have "index_loop al a key i pos = index_loop al a key (i div 2) ?next"
      unfolding index_loop.simps [of al a key i] step by simp
    moreover have "caseless.search al ks key i pos = caseless.search al ks key (i div 2) ?next"
      using False unfolding caseless.search.simps [of al ks key i] by (simp add: Let_def)
    ultimately show ?thesis using less [of "i div 2" ?next] False by simp
  qed
qed

text \<open>The first probe lies in the middle of the next power of two, so every place is in reach.\<close>

lemma half_window:
  "int (2 ^ m div 2) - 2 ^ m < int t" "t \<le> 2 ^ m \<Longrightarrow> int t \<le> int (2 ^ m div 2) + 2 ^ m"
  "t < 2 ^ m \<Longrightarrow> int t < int (2 ^ m div 2) + 2 ^ m"
proof -
  have p: "int (2 ^ m) = 2 ^ m" by simp
  have "2 ^ m div 2 < (2 ^ m :: nat)" by simp
  then have "int (2 ^ m div 2) < 2 ^ m" unfolding p [symmetric] by (simp only: of_nat_less_iff)
  then show "int (2 ^ m div 2) - 2 ^ m < int t" by linarith
  show "int t \<le> int (2 ^ m div 2) + 2 ^ m" if "t \<le> 2 ^ m"
    using that unfolding p [symmetric] of_nat_add [symmetric] of_nat_le_iff by (rule trans_le_add2)
  show "int t < int (2 ^ m div 2) + 2 ^ m" if "t < 2 ^ m"
    using that unfolding p [symmetric] of_nat_add [symmetric] of_nat_less_iff by (rule trans_less_add2)
qed

lemma get_index_present:
  assumes r: "arr_repr a es" and k: "plain_key k" and n: "n < length es" "same_key k (es ! n)"
  shows "\<exists>p. array_get_index al a (Some k) = Inr (int n, p)"
proof -
  obtain m idx where m: "ar_next_power_of_2 a = 2 ^ m" and idx: "index_of a es idx" using r by (auto simp: arr_repr_def)
  let ?ks = "map (\<lambda>i. key_bytes (du_key (es ! i))) idx"
  obtain t where t: "t < length idx" "idx ! t = n" using idx n(1) by (metis in_set_conv_nth index_of_def lessThan_iff)
  have "entry_ok (es ! n)" using r n(1) by (simp add: arr_repr_def)
  then have rank: "lower_rank (?ks ! t) = lower_rank (k @ [0])" using same_key_rank n(2) t by simp
  have "length idx \<le> 2 ^ m" using r m index_length [OF r idx] by (simp add: arr_repr_def)
  then have half: "t < 2 ^ m" using t(1) by (rule less_le_trans [rotated])
  have "caseless.search al ?ks (k @ [0]) (2 ^ m div 2) (int (2 ^ m div 2)) = (Some (int t), int t)"
    using idx k t rank half_window half by (intro caseless.search_present) (auto simp: index_of_def plain_key_def)
  then show ?thesis
    using index_loop_search [OF r idx, of al "k @ [0]" "2 ^ m div 2" "int (2 ^ m div 2)"] t(2)
    by (simp add: array_get_index_def m Let_def)
qed

lemma get_index_absent:
  assumes r: "arr_repr a es" and idx: "index_of a es idx" and k: "plain_key k" and n: "\<forall>e \<in> set es. \<not> same_key k e"
  shows "\<exists>p t. array_get_index al a (Some k) = Inr (-1, p) \<and> p \<le> t \<and> t \<le> p + 1 \<and>
    caseless.cut (map (\<lambda>i. key_bytes (du_key (es ! i))) idx) (k @ [0]) t"
proof -
  obtain m where m: "ar_next_power_of_2 a = 2 ^ m" using r by (auto simp: arr_repr_def)
  let ?ks = "map (\<lambda>i. key_bytes (du_key (es ! i))) idx"
  let ?t = "int (length (takeWhile (\<lambda>x. lower_rank x < lower_rank (k @ [0])) ?ks))"
  have es: "es ! i \<in> set es" if "i \<in> set idx" for i using idx that by (simp add: index_of_def)
  have "lower_rank x \<noteq> lower_rank (k @ [0])" if "x \<in> set ?ks" for x
    using that es n r same_key_rank [of "es ! i" k for i] by (auto simp: arr_repr_def)
  then have cut: "caseless.cut ?ks (k @ [0]) ?t"
    using idx k by (intro caseless.cut_exists) (auto simp: index_of_def plain_key_def)
  have "length idx \<le> 2 ^ m" using r m index_length [OF r idx] by (simp add: arr_repr_def)
  then have t: "length (takeWhile (\<lambda>x. lower_rank x < lower_rank (k @ [0])) ?ks) \<le> 2 ^ m"
    by (rule le_trans [rotated]) (metis length_map length_takeWhile_le)
  obtain p where p: "caseless.search al ?ks (k @ [0]) (2 ^ m div 2) (int (2 ^ m div 2)) = (None, p)" "p \<le> ?t" "?t \<le> p + 1"
    using caseless.search_absent [OF _ _ cut half_window(1) half_window(2) [OF t], where al = al] idx k by (auto simp: index_of_def plain_key_def)
  then have "array_get_index al a (Some k) = Inr (-1, p)"
    using index_loop_search [OF r idx, of al "k @ [0]" "2 ^ m div 2" "int (2 ^ m div 2)"]
    by (simp add: array_get_index_def m Let_def)
  then show ?thesis using p cut by blast
qed

section \<open>Insertion\<close>

lemma grow_repr:
  assumes "arr_repr a es" "index_of a es idx"
  shows "arr_repr (array_grow a) es" "index_of (array_grow a) es idx" "length es < ar_size (array_grow a)"
proof -
  show i: "index_of (array_grow a) es idx" using assms by (auto simp: index_of_def array_grow_def arr_repr_def)
  then show "arr_repr (array_grow a) es"
    using assms(1) unfolding arr_repr_def by (auto simp: array_grow_def)
  show "length es < ar_size (array_grow a)" using assms(1) by (auto simp: array_grow_def arr_repr_def)
qed

lemma sorted_insert_spec:
  assumes "take n s = map Some idx" "t \<le> n" "n < length s"
  shows "\<exists>s'. sorted_insert t n s = Inr s' \<and> length s' = length s \<and>
    take (n + 1) s' = map Some (take t idx @ n # drop t idx)"
proof -
  let ?s = "take t s @ Some n # take (n - t) (drop t s) @ drop (n + 1) s"
  have "take (t + 1) s = take t s @ [s ! t]" using assms by (simp add: take_Suc_conv_app_nth)
  then have "(take (t + 1) s @ take (n - t) (drop t s) @ drop (n + 1) s)[t := Some n] = ?s"
    using assms(2,3) by (simp add: list_update_append)
  then have eq: "sorted_insert t n s = Inr ?s" using assms(2,3) by (simp add: sorted_insert_def)
  have "take t s = map Some (take t idx)"
    using assms(1,2) by (metis min.absorb1 take_map take_take)
  moreover have "take (n - t) (drop t s) = map Some (drop t idx)"
    using assms(1) by (metis drop_map drop_take)
  moreover have "length idx = n" using assms(1,3) by (metis length_map length_take min.absorb4)
  ultimately have "take (n + 1) ?s = map Some (take t idx @ n # drop t idx)"
    using assms(2) by (simp add: Suc_diff_le)
  moreover have "length ?s = length s" using assms(2,3) by simp
  ultimately show ?thesis using eq by blast
qed

lemma place_position:
  assumes r: "arr_repr a es" and idx: "index_of a es idx" and k: "plain_key k" and pos: "pos \<le> t" "t \<le> pos + 1"
    and cut: "caseless.cut (map (\<lambda>i. key_bytes (du_key (es ! i))) idx) (k @ [0]) t"
    and a': "ar_sorted a' = ar_sorted a" "ar_data a' = (ar_data a)[length es := d]"
  shows "(if pos \<noteq> int (length es)
     then if pos < 0 then Inr (pos + 1)
          else bindR (key_at a' pos) (\<lambda>(_, j). Inr (if buffer_caseless_compare al (k @ [0]) j > 0 then pos + 1 else pos))
     else Inr pos) = Inr t"
proof -
  let ?ks = "map (\<lambda>i. key_bytes (du_key (es ! i))) idx"
  have len: "length ?ks = length es" using index_length [OF r idx] by simp
  have t: "0 \<le> t" "t \<le> int (length es)" using cut len by (simp_all add: caseless.cut_def)
  consider "pos = int (length es)" | "pos < 0" | "0 \<le> pos" "pos < int (length es)" using pos t by linarith
  then show ?thesis
  proof cases
    case 3
    have n: "nat pos < length idx" using 3 index_length [OF r idx] by simp
    then have lt: "idx ! nat pos < length es" using idx by (metis index_of_def lessThan_iff nth_mem)
    have "ar_sorted a ! nat pos = Some (idx ! nat pos)"
      using idx 3 n unfolding index_of_def by (metis nat_less_iff nth_map nth_take)
    moreover have "get_at ((ar_data a)[length es := d]) (int (idx ! nat pos)) = get_at (ar_data a) (int (idx ! nat pos))"
      using lt by (simp add: get_at_def)
    ultimately have "key_at a' pos = key_at a pos" by (simp add: key_at_def a' get_at_def deref_def)
    also have "\<dots> = Inr (idx ! nat pos, ?ks ! nat pos)" using repr_key_at [OF r idx 3] n by simp
    finally have key: "key_at a' pos = Inr (idx ! nat pos, ?ks ! nat pos)" .
    have "plain_text (?ks ! nat pos)" using idx n by (auto simp: index_of_def caseless.ordered_def)
    then have "0 < buffer_caseless_compare al (k @ [0]) (?ks ! nat pos) \<longleftrightarrow> lower_rank (?ks ! nat pos) < lower_rank (k @ [0])"
      using k by (intro caseless.cmp_greater) (auto simp: plain_key_def)
    also have "\<dots> \<longleftrightarrow> pos < t"
      using cut n len 3 unfolding caseless.cut_def by (metis int_nat_eq length_map not_less_iff_gr_or_eq)
    finally show ?thesis using 3 key pos by auto
  qed (use pos t in auto)
qed

lemma place_spec:
  assumes r: "arr_repr a es" and idx: "index_of a es idx" and d: "entry_ok d" "du_key d = Some k"
    and pos: "pos \<le> t" "t \<le> pos + 1"
    and cut: "caseless.cut (map (\<lambda>i. key_bytes (du_key (es ! i))) idx) (k @ [0]) t"
  shows "\<exists>a'. array_place al a d pos = Inr a' \<and> arr_repr a' (es @ [d])"
proof -
  let ?g = "array_grow a" and ?n = "length es"
  note g = grow_repr [OF r idx]
  have k: "plain_key k" using d by (simp add: entry_ok_def)
  have gf: "ar_used ?g = ?n" "length (ar_data ?g) = ar_size ?g" "length (ar_sorted ?g) = ar_size ?g"
    "take ?n (ar_data ?g) = map Some es" "take ?n (ar_sorted ?g) = map Some idx"
    using g(1,2) by (simp_all add: arr_repr_def index_of_def)
  let ?b = "?g\<lparr>ar_data := (ar_data ?g)[?n := Some d], ar_used := ?n + 1\<rparr>"
  let ?np = "if ar_next_power_of_2 ?g = ?n then 2 * ar_next_power_of_2 ?g else ar_next_power_of_2 ?g"
  have t: "0 \<le> t" "t \<le> int ?n" using cut index_length [OF r idx] by (simp_all add: caseless.cut_def)
  obtain s where s: "sorted_insert (nat t) ?n (ar_sorted ?g) = Inr s" "length s = ar_size ?g"
      "take (?n + 1) s = map Some (take (nat t) idx @ ?n # drop (nat t) idx)"
    using sorted_insert_spec [OF gf(5), of "nat t"] t g(3) gf(3) by (auto simp: nat_le_iff)
  let ?a = "?b\<lparr>ar_sorted := s, ar_next_power_of_2 := ?np\<rparr>"
  have "array_place al a d pos = Inr ?a"
    unfolding array_place_def Let_def gf(1) key_bytes_def d(2) option.case
    using g(3) gf(2) place_position [OF g(1,2) k pos cut, of ?b "Some d" al] t(1) s(1) by simp
  moreover have "index_of ?a (es @ [d]) (take (nat t) idx @ ?n # drop (nat t) idx)"
  proof -
    have lt: "i < ?n" if "i \<in> set idx" for i using that idx by (simp add: index_of_def)
    have key: "map (\<lambda>i. key_bytes (du_key ((es @ [d]) ! i))) xs = map (\<lambda>i. key_bytes (du_key (es ! i))) xs"
      if "set xs \<subseteq> set idx" for xs
    proof (intro map_cong refl)
      fix i
      assume "i \<in> set xs"
      then have "i < ?n" using that lt by blast
      then show "key_bytes (du_key ((es @ [d]) ! i)) = key_bytes (du_key (es ! i))" by (simp add: nth_append)
    qed
    have "set (take (nat t) idx) \<union> set (drop (nat t) idx) = set idx" by (metis append_take_drop_id set_append)
    then have "set (take (nat t) idx @ ?n # drop (nat t) idx) = insert ?n (set idx)" by simp
    also have "set idx = {..<?n}" using idx by (simp add: index_of_def)
    also have "insert ?n {..<?n} = {..<length (es @ [d])}" by (simp add: lessThan_Suc)
    finally have set: "set (take (nat t) idx @ ?n # drop (nat t) idx) = {..<length (es @ [d])}" .
    have "key_order (take (nat t) (map (\<lambda>i. key_bytes (du_key (es ! i))) idx) @ (k @ [0]) #
        drop (nat t) (map (\<lambda>i. key_bytes (du_key (es ! i))) idx))"
      using idx k cut t(1) by (intro caseless.ordered_insert) (auto simp: index_of_def plain_key_def)
    moreover have "key_bytes (du_key ((es @ [d]) ! ?n)) = k @ [0]" using d(2) by (simp add: key_bytes_def)
    ultimately have "key_order (map (\<lambda>i. key_bytes (du_key ((es @ [d]) ! i))) (take (nat t) idx @ ?n # drop (nat t) idx))"
      by (simp only: map_append list.map key set_take_subset set_drop_subset take_map drop_map)
    then show ?thesis using s(3) set by (simp add: index_of_def)
  qed
  moreover have "take (?n + 1) ((ar_data ?g)[?n := Some d]) = map Some (es @ [d])"
    using gf g(3) by (simp add: take_Suc_conv_app_nth)
  moreover have "\<exists>m. ?np = 2 ^ m" "?n + 1 \<le> ?np"
    using g(1) unfolding arr_repr_def by (auto intro: exI [of _ "Suc m" for m])
  ultimately have "arr_repr ?a (es @ [d])" using r d(1) g(3) gf s(2) unfolding arr_repr_def by auto
  then show ?thesis using \<open>array_place al a d pos = Inr ?a\<close> by blast
qed

text \<open>Insertion into the list of elements: a duplicate is merged, a new key goes to the end.\<close>

fun ins_entry :: "data_unset \<Rightarrow> data_unset list \<Rightarrow> data_unset list" where
  "ins_entry d [] = [d]"
| "ins_entry d (e # es) =
     (if same_key (text_of (du_key d)) e
      then (if du_type (du_value e) = du_type (du_value d) then insert_dup e d else e) # es
      else e # ins_entry d es)"

lemma ins_entry_new: "\<forall>e \<in> set es. \<not> same_key (text_of (du_key d)) e \<Longrightarrow> ins_entry d es = es @ [d]"
  by (induction es) auto

lemma ins_entry_old:
  "n < length es \<Longrightarrow> same_key (text_of (du_key d)) (es ! n) \<Longrightarrow>
   \<forall>i < n. \<not> same_key (text_of (du_key d)) (es ! i) \<Longrightarrow>
   ins_entry d es =
     (if du_type (du_value (es ! n)) = du_type (du_value d) then es[n := insert_dup (es ! n) d] else es)"
proof (induction es arbitrary: n)
  case (Cons e es)
  show ?case
  proof (cases n)
    case 0
    then show ?thesis using Cons.prems by simp
  next
    case (Suc j)
    then have "\<not> same_key (text_of (du_key d)) e" using Cons.prems(3) by force
    moreover have "\<forall>i < j. \<not> same_key (text_of (du_key d)) (es ! i)" using Cons.prems(3) Suc by force
    ultimately show ?thesis using Cons.IH [of j] Cons.prems Suc by auto
  qed
qed simp

lemma insert_dup_key [simp]: "du_key (insert_dup d e) = du_key d"
  by (simp add: insert_dup_def)

lemma repr_update:
  assumes r: "arr_repr a es" and n: "n < length es" and d: "du_key d = du_key (es ! n)"
  shows "arr_repr (a\<lparr>ar_data := (ar_data a)[n := Some d]\<rparr>) (es[n := d])"
proof -
  obtain idx where idx: "index_of a es idx" using r by (auto simp: arr_repr_def)
  have key: "du_key (es[n := d] ! i) = du_key (es ! i)" for i using d n by (cases "i = n") simp_all
  have "index_of (a\<lparr>ar_data := (ar_data a)[n := Some d]\<rparr>) (es[n := d]) idx"
    using idx by (simp add: index_of_def key)
  moreover have "entry_ok e" if "e \<in> set (es[n := d])" for e
  proof -
    obtain i where "i < length es" "e = es[n := d] ! i" using \<open>e \<in> set (es[n := d])\<close> by (auto simp: in_set_conv_nth)
    moreover then have "entry_ok (es ! i)" using r by (simp add: arr_repr_def)
    ultimately show ?thesis by (simp add: entry_ok_def key)
  qed
  moreover have "take (length es) ((ar_data a)[n := Some d]) = map Some (es[n := d])"
    using r by (simp add: arr_repr_def take_update_swap map_update)
  ultimately show ?thesis using r unfolding arr_repr_def by auto
qed

text \<open>An array that never held more elements than now has no old ones to offer.\<close>

definition arr_new :: "array \<Rightarrow> bool" where
  "arr_new a \<longleftrightarrow> length (ar_data a) = ar_size a \<and> (\<forall>i. ar_used a \<le> i \<and> i < ar_size a \<longrightarrow> ar_data a ! i = None)"

lemma grow_new: "arr_new a \<Longrightarrow> ar_used a \<le> ar_size a \<Longrightarrow> arr_new (array_grow a) \<and> ar_used (array_grow a) = ar_used a"
  by (auto simp: arr_new_def array_grow_def nth_append)

lemma place_fields:
  assumes "array_place al a d pos = Inr a'"
  shows "ar_data a' = (ar_data (array_grow a))[ar_used (array_grow a) := Some d] \<and> ar_used a' = ar_used (array_grow a) + 1
    \<and> ar_size a' = ar_size (array_grow a)"
  using assms by (auto simp: array_place_def Let_def bindR_eq_Inr set_at_Inr)

lemma insert_refines:
  assumes r: "arr_repr a es" and d: "entry_ok d" "\<not> du_is_index_key d" and room: "length es < INT_MAX"
  shows "\<exists>a'. array_insert_unique al a d = Inr (0, a') \<and> arr_repr a' (ins_entry d es) \<and> (arr_new a \<longrightarrow> arr_new a')"
proof -
  obtain k where k: "du_key d = Some k" "plain_key k" using d(1) by (auto simp: entry_ok_def)
  obtain idx where idx: "index_of a es idx" using r by (auto simp: arr_repr_def)
  have used: "ar_used a = length es" "length es \<le> length (ar_data a)" using r by (simp_all add: arr_repr_def)
  have data: "ar_data a ! i = Some (es ! i)" if "i < length es" for i
    using r that unfolding arr_repr_def by (metis nth_map nth_take)
  show ?thesis
  proof (cases "\<exists>n < length es. same_key k (es ! n)")
    case True
    then obtain n where n: "n < length es" "same_key k (es ! n)" "\<forall>i < n. \<not> same_key k (es ! i)"
      using exists_least_iff [of "\<lambda>n. n < length es \<and> same_key k (es ! n)"] by (metis less_trans)
    obtain p where "array_get_index al a (Some k) = Inr (int n, p)" using get_index_present [OF r k(2) n(1,2)] by blast
    then have "array_insert_unique al a d = Inr (0, if du_type (du_value (es ! n)) = du_type (du_value d)
        then a\<lparr>ar_data := (ar_data a)[n := Some (insert_dup (es ! n) d)]\<rparr> else a)"
      using k(1) d(2) data n(1) used by (simp add: array_insert_unique_def deref_def)
    moreover have "ins_entry d es = (if du_type (du_value (es ! n)) = du_type (du_value d) then es[n := insert_dup (es ! n) d] else es)"
      using n k(1) by (intro ins_entry_old) (simp_all add: text_of_def)
    moreover have "arr_new (a\<lparr>ar_data := (ar_data a)[n := Some x]\<rparr>)" if "arr_new a" for x
      using that n(1) used(1) by (auto simp: arr_new_def nth_list_update)
    ultimately show ?thesis using repr_update [OF r n(1), of "insert_dup (es ! n) d"] r by simp
  next
    case False
    then have new: "\<forall>e \<in> set es. \<not> same_key k e" by (auto simp: in_set_conv_nth)
    obtain p t where p: "array_get_index al a (Some k) = Inr (-1, p)" "p \<le> t" "t \<le> p + 1"
        "caseless.cut (map (\<lambda>i. key_bytes (du_key (es ! i))) idx) (k @ [0]) t"
      using get_index_absent [OF r idx k(2) new, of al] by blast
    obtain a' where a': "array_place al a d p = Inr a'" "arr_repr a' (es @ [d])"
      using place_spec [OF r idx d(1) k(1) p(2-4), of al] by blast
    then have ins: "array_insert_unique al a d = Inr (0, a')"
      using k(1) d(2) p(1) used room by (simp add: array_insert_unique_def)
    have "arr_new a'" if "arr_new a"
      using place_fields [OF a'(1)] grow_new [OF that] r by (auto simp: arr_new_def arr_repr_def nth_list_update)
    then show ?thesis using ins a'(2) ins_entry_new [of es d] new k(1) by (simp add: text_of_def)
  qed
qed

lemma lookup_refines:
  assumes r: "arr_repr a es" and k: "plain_key k"
  shows "array_get_element al a k = Inr (find (same_key k) es)"
proof (cases "find (same_key k) es")
  case None
  then have "\<forall>e \<in> set es. \<not> same_key k e" by (simp add: find_None_iff)
  moreover obtain idx where "index_of a es idx" using r by (auto simp: arr_repr_def)
  ultimately obtain p where "array_get_index al a (Some k) = Inr (-1, p)" using get_index_absent [OF r _ k] by blast
  then show ?thesis using None by (simp add: array_get_element_def)
next
  case (Some e)
  then obtain n where n: "n < length es" "same_key k (es ! n)" "e = es ! n" by (auto simp: find_Some_iff)
  obtain p where "array_get_index al a (Some k) = Inr (int n, p)" using get_index_present [OF r k n(1,2)] by blast
  moreover have "ar_data a ! n = Some (es ! n)" "n < length (ar_data a)"
    using r n(1) unfolding arr_repr_def by (metis nth_map nth_take, simp)
  ultimately show ?thesis using Some n(3) by (simp add: array_get_element_def)
qed

section \<open>Headers\<close>

lemma plain_keyI: "0 \<notin> set k \<Longrightarrow> list_all plain_char k \<Longrightarrow> length k < 64 \<Longrightarrow> plain_key k"
  by (auto simp: plain_key_def plain_text_def list_all_iff plain_char_def)

fun insert_all :: "bool \<Rightarrow> data_unset list \<Rightarrow> array \<Rightarrow> array res" where
  "insert_all al [] a = Inr a"
| "insert_all al (d # ds) a = bindR (array_insert_unique al a d) (\<lambda>(_, a). insert_all al ds a)"

lemma ins_entry_length: "length (ins_entry d es) \<le> Suc (length es)"
  by (induction es) auto

lemma insert_all_refines:
  "arr_repr a es \<Longrightarrow> \<forall>d \<in> set ds. entry_ok d \<and> \<not> du_is_index_key d \<Longrightarrow> length es + length ds \<le> INT_MAX \<Longrightarrow>
   \<exists>a'. insert_all al ds a = Inr a' \<and> arr_repr a' (fold ins_entry ds es)"
proof (induction ds arbitrary: a es)
  case (Cons d ds)
  obtain a' where a': "array_insert_unique al a d = Inr (0, a')" "arr_repr a' (ins_entry d es)"
    using insert_refines [OF Cons.prems(1), of d al] Cons.prems(2,3) by auto
  have "length (ins_entry d es) + length ds \<le> INT_MAX" using Cons.prems(3) ins_entry_length [of d es] by simp
  then show ?case using Cons.IH [OF a'(2)] a'(1) Cons.prems(2) by simp
qed simp

definition header :: "bytes \<times> bytes \<Rightarrow> data_unset" where
  "header = (\<lambda>(k, v). data_string_init\<lparr>du_key := Some k, du_value := DString (Some v)\<rparr>)"

definition values_of :: "bytes \<Rightarrow> (bytes \<times> bytes) list \<Rightarrow> bytes list" where
  "values_of k kvs = map snd (filter (\<lambda>(j, v). map to_lower_byte j = map to_lower_byte k) kvs)"

fun join_values :: "bytes list \<Rightarrow> bytes" where
  "join_values [] = []"
| "join_values (v # vs) = v @ concat (map (\<lambda>w. [44, 32] @ w) vs)"

lemma join_values_snoc: "vs \<noteq> [] \<Longrightarrow> join_values (vs @ [w]) = join_values vs @ [44, 32] @ w"
  by (cases vs) simp_all

lemma find_ins_entry:
  "find (same_key k) (ins_entry d es) =
     (if same_key k d
      then (case find (same_key k) es of
              None \<Rightarrow> Some d
            | Some e \<Rightarrow> Some (if du_type (du_value e) = du_type (du_value d) then insert_dup e d else e))
      else find (same_key k) es)"
proof -
  have same: "same_key (text_of (du_key d)) e \<longleftrightarrow> same_key k e" if "same_key k d" for e
    using that by (auto simp: same_key_def)
  have other: "\<not> same_key k e" if "same_key (text_of (du_key d)) e" "\<not> same_key k d" for e
    using that by (auto simp: same_key_def)
  have dup: "same_key k (insert_dup e d) \<longleftrightarrow> same_key k e" for e by (simp add: same_key_def)
  show ?thesis
  proof (cases "same_key k d")
    case True
    then show ?thesis by (induction es) (simp_all add: same dup)
  next
    case False
    then show ?thesis by (induction es) (auto simp: dup dest: other)
  qed
qed

lemma find_headers:
  "(values_of k kvs = [] \<longrightarrow> find (same_key k) (fold ins_entry (map header kvs) []) = None) \<and>
   (values_of k kvs \<noteq> [] \<longrightarrow> (\<exists>d. find (same_key k) (fold ins_entry (map header kvs) []) = Some d \<and>
      du_value d = DString (Some (join_values (values_of k kvs)))))"
proof (induction kvs rule: rev_induct)
  case (snoc kv kvs)
  obtain j v where kv: "kv = (j, v)" by force
  have h: "same_key k (header kv) \<longleftrightarrow> map to_lower_byte j = map to_lower_byte k"
    "du_value (header kv) = DString (Some v)"
    by (simp_all add: kv header_def same_key_def text_of_def)
  show ?case
  proof (cases "map to_lower_byte j = map to_lower_byte k")
    case True
    then have vs: "values_of k (kvs @ [kv]) = values_of k kvs @ [v]" by (simp add: values_of_def kv)
    show ?thesis
    proof (cases "values_of k kvs = []")
      case True
      then show ?thesis using snoc vs h \<open>map to_lower_byte j = _\<close> by (simp add: find_ins_entry)
    next
      case False
      then obtain e where "find (same_key k) (fold ins_entry (map header kvs) []) = Some e"
          "du_value e = DString (Some (join_values (values_of k kvs)))" using snoc by blast
      then show ?thesis
        using vs h \<open>map to_lower_byte j = _\<close> join_values_snoc [OF False, of v]
        by (simp add: find_ins_entry insert_dup_def data_string_insert_dup_def text_of_def)
    qed
  next
    case False
    then have "values_of k (kvs @ [kv]) = values_of k kvs" by (simp add: values_of_def kv)
    then show ?thesis using snoc h False by (simp add: find_ins_entry)
  qed
qed (simp add: values_of_def)

text \<open>
  C26. An array of headers is a table without case: after any sequence of insertions a lookup finds
  nothing if no key equals the name up to case, and otherwise the values given under it, in their
  order and with a comma and a space between. The keys contain none of the six characters between
  the capital and the small letters.
\<close>

theorem headers_are_merged:
  assumes "\<forall>kv \<in> set kvs. plain_key (fst kv)" "plain_key k" "length kvs \<le> INT_MAX"
  shows "\<exists>a. insert_all al (map header kvs) array_init = Inr a \<and>
    (case values_of k kvs of
       [] \<Rightarrow> array_get_element al a k = Inr None
     | v # vs \<Rightarrow> \<exists>d. array_get_element al a k = Inr (Some d) \<and> du_value d = DString (Some (join_values (v # vs))))"
proof -
  have "entry_ok (header kv) \<and> \<not> du_is_index_key (header kv)" if "kv \<in> set kvs" for kv
    using assms(1) that by (auto simp: header_def entry_ok_def data_string_init_def split: prod.split)
  then obtain a where a: "insert_all al (map header kvs) array_init = Inr a"
      "arr_repr a (fold ins_entry (map header kvs) [])"
    using insert_all_refines [OF array_init_repr, of "map header kvs" al] assms(3) by auto
  then show ?thesis
    using find_headers [of k kvs] lookup_refines [OF a(2) assms(2), of al] by (cases "values_of k kvs") auto
qed

theorem headers_are_merged_witness:
  "\<exists>a. insert_all True (map header [(map char_byte ''Cookie'', [1]), (map char_byte ''Host'', [2]), (map char_byte ''cookie'', [3])])
       array_init = Inr a \<and>
     (\<exists>d. array_get_element True a (map char_byte ''COOKIE'') = Inr (Some d) \<and> du_value d = DString (Some [1, 44, 32, 3]))"
proof -
  have p: "plain_key (map char_byte ''Cookie'')" "plain_key (map char_byte ''Host'')" "plain_key (map char_byte ''cookie'')"
    "plain_key (map char_byte ''COOKIE'')" by (rule plain_keyI; code_simp)+
  have v: "values_of (map char_byte ''COOKIE'') [(map char_byte ''Cookie'', [1]), (map char_byte ''Host'', [2]), (map char_byte ''cookie'', [3])] = [[1], [3]]"
    by code_simp
  show ?thesis
    using headers_are_merged [of "[(map char_byte ''Cookie'', [1]), (map char_byte ''Host'', [2]), (map char_byte ''cookie'', [3])]"
        "map char_byte ''COOKIE''" True] p v
    by (simp add: INT_MAX_def)
qed

text \<open>
  With an underscore in a key the table loses entries: \<open>_\<close> lies between the capital and the small
  letters, so after the headers \<open>HOST\<close> and \<open>H_\<close>, whatever their values, a lookup of \<open>Host\<close> finds nothing.
\<close>

lemma underscore_hides_header:
  "\<exists>a. insert_all al (map header [(map char_byte ''HOST'', v), (map char_byte ''H_'', w)]) array_init = Inr a \<and>
     array_get_element al a (map char_byte ''Host'') = Inr None"
proof -
  have key: "map char_byte ''HOST'' = [72, 79, 83, 84]" "map char_byte ''H_'' = [72, 95]" "map char_byte ''Host'' = [72, 111, 115, 116]"
    by code_simp+
  have cmp: "buffer_caseless_compare al [72, 95, 0] [72, 79, 83, 84, 0] = 16"
    "buffer_caseless_compare al [72, 111, 115, 116, 0] [72, 95, 0] = 16"
  proof -
    have "caseless_bytes [72, 95, 0] [72, 79, 83, 84, 0] = Some 16" "caseless_bytes [72, 111, 115, 116, 0] [72, 95, 0] = Some 16"
      by code_simp+
    then show "buffer_caseless_compare al [72, 95, 0] [72, 79, 83, 84, 0] = 16"
      "buffer_caseless_compare al [72, 111, 115, 116, 0] [72, 95, 0] = 16"
      by (simp_all add: caseless_compare_eq)
  qed
  show ?thesis
    unfolding key
    by (simp add: header_def data_string_init_def array_init_def array_insert_unique_def array_get_index_def index_loop.simps
        index_step_def key_at_def array_place_def array_grow_def sorted_insert_def deref_def key_bytes_def INT_MAX_def cmp Let_def
        array_get_element_def get_at_def set_at_def)
qed

end
