(* ===== verification/Lt_Request_Facts.thy ===== *)
theory Lt_Request_Facts
  imports Lt_Request Lt_Array_Facts
begin

text \<open>
  What the parser of \<open>Lt_Request\<close> accepts and what it stores: the chain of comparisons recognises exactly
  the names in its list; a request that is accepted has passed every check; a request in the form a
  browser writes it is taken apart into what it was put together from.
\<close>

section \<open>Names of headers\<close>

definition same_text :: "bytes \<Rightarrow> bytes \<Rightarrow> bool" where
  "same_text a b \<longleftrightarrow> map to_lower_byte a = map to_lower_byte b"

lemma lower_rank_eq: "lower_rank a = lower_rank b \<longleftrightarrow> same_text a b"
  using lower_rank_key [of a b] by (simp add: lower_rank_def same_text_def)

lemma same_text_length: "same_text a b \<Longrightarrow> length a = length b"
  unfolding same_text_def by (metis length_map)

lemma to_lower_plain: "to_lower_byte a = to_lower_byte b \<Longrightarrow> plain_char b \<Longrightarrow> plain_char a"
proof -
  assume "to_lower_byte a = to_lower_byte b" "plain_char b"
  then have "fold_rank (sint a) = fold_rank (sint b)" "\<not> (91 \<le> sint b \<and> sint b \<le> 96)"
    by (metis sint_to_lower, simp add: plain_char_def)
  then show "plain_char a" unfolding plain_char_def fold_rank_def by (auto split: if_splits)
qed

lemma same_text_plain: "same_text a b \<Longrightarrow> plain_text b \<Longrightarrow> plain_text a"
proof -
  assume s: "same_text a b" and b: "plain_text b"
  have "plain_char c" if c: "c \<in> set a" for c
  proof -
    obtain i where i: "i < length a" "a ! i = c" using c by (auto simp: in_set_conv_nth)
    then have "to_lower_byte c = to_lower_byte (b ! i)" "i < length b"
      using s same_text_length [OF s] i unfolding same_text_def by (metis nth_map, simp)
    then show ?thesis using b to_lower_plain by (auto simp: plain_text_def)
  qed
  then show ?thesis using b same_text_length [OF s] by (simp add: plain_text_def)
qed

lemma compare_zero:
  assumes "length a < 2 ^ 31" "length b < 2 ^ 31"
  shows "buffer_caseless_compare al a b = 0 \<longleftrightarrow> same_text a b"
  using caseless_bytes_None [of a b] caseless_bytes_Some [of a b] same_text_length [of a b]
  by (auto simp: caseless_compare_eq [OF assms] same_text_def split: option.splits)

definition names_ok :: "(string \<times> hname) list \<Rightarrow> bool" where
  "names_ok ns \<longleftrightarrow> (\<forall>(n, h) \<in> set ns. plain_text (map char_byte n)) \<and>
     sorted_wrt (\<lambda>a b. lower_rank (map char_byte (fst a)) < lower_rank (map char_byte (fst b))) ns"

lemma name_chain_sound:
  "names_ok ns \<Longrightarrow> length key < 2 ^ 31 \<Longrightarrow> name_chain al key ns = Some h \<Longrightarrow> \<exists>n. (n, h) \<in> set ns \<and> same_text key (map char_byte n)"
proof (induction al key ns rule: name_chain.induct)
  case (2 al key n h' ns)
  have ok: "names_ok ns" "length (map char_byte n) < 2 ^ 31" using 2(2) by (auto simp: names_ok_def plain_text_def)
  show ?case
  proof (cases "buffer_caseless_compare al key (map char_byte n) = 0")
    case True
    then show ?thesis using 2(4) compare_zero [OF 2(3) ok(2), of al] by auto
  next
    case False
    then have "name_chain al key ns = Some h" using 2(4) by (auto simp: Let_def split: if_splits)
    then show ?thesis using 2(1) [OF refl] False 2(4) ok(1) 2(3) by (auto simp: Let_def split: if_splits)
  qed
qed simp

lemma name_chain_complete:
  "names_ok ns \<Longrightarrow> plain_text key \<Longrightarrow> (n, h) \<in> set ns \<Longrightarrow> same_text key (map char_byte n) \<Longrightarrow> name_chain al key ns = Some h"
proof (induction al key ns rule: name_chain.induct)
  case (2 al key m h' ns)
  have m: "names_ok ns" "plain_text (map char_byte m)" using 2(2) by (auto simp: names_ok_def)
  have rank: "lower_rank key = lower_rank (map char_byte n)" using 2(5) by (simp add: lower_rank_eq)
  show ?case
  proof (cases "(n, h) = (m, h')")
    case True
    then show ?thesis using caseless.cmp_equal [OF 2(3) m(2), of al] rank by simp
  next
    case False
    then have n: "(n, h) \<in> set ns" using 2(4) by auto
    then have "lower_rank (map char_byte m) < lower_rank key"
      using 2(2) unfolding names_ok_def rank by force
    then have "0 < buffer_caseless_compare al key (map char_byte m)" using caseless.cmp_greater [OF 2(3) m(2)] by simp
    then show ?thesis using 2(1) [OF refl _ _ m(1) 2(3) n 2(5)] by (simp add: Let_def)
  qed
qed simp

lemma header_names_ok: "names_ok header_names"
proof -
  have p: "list_all plain_char (map char_byte n) \<and> length n < 64" if "(n, h) \<in> set header_names" for n h
  proof -
    have "\<forall>(n, h) \<in> set header_names. list_all plain_char (map char_byte n) \<and> length n < 64" by code_simp
    then show ?thesis using that by blast
  qed
  have "sorted_wrt (\<lambda>a b. lower_rank (map char_byte (fst a)) < lower_rank (map char_byte (fst b))) header_names" by code_simp
  moreover have "plain_text (map char_byte n)" if "(n, h) \<in> set header_names" for n h
    using p [OF that] by (auto simp: plain_text_def list_all_iff)
  ultimately show ?thesis by (auto simp: names_ok_def)
qed

lemma header_name_recognised:
  assumes "length key < 2 ^ 31"
  shows "name_chain al key header_names = Some h \<longleftrightarrow> (\<exists>n. (n, h) \<in> set header_names \<and> same_text key (map char_byte n))"
proof
  show "\<exists>n. (n, h) \<in> set header_names \<and> same_text key (map char_byte n)" if "name_chain al key header_names = Some h"
    by (rule name_chain_sound [OF header_names_ok assms that])
next
  assume "\<exists>n. (n, h) \<in> set header_names \<and> same_text key (map char_byte n)"
  then obtain n where n: "(n, h) \<in> set header_names" "same_text key (map char_byte n)" by blast
  then have "plain_text key" using same_text_plain header_names_ok by (auto simp: names_ok_def)
  then show "name_chain al key header_names = Some h" using name_chain_complete [OF header_names_ok _ n] by blast
qed

section \<open>What is accepted\<close>

text \<open>What the request line has stored and the header lines leave alone.\<close>

definition line_fields :: "con \<Rightarrow> bytes option \<times> bytes option \<times> int \<times> int \<times> int" where
  "line_fields con = (rq_uri con, rq_orig_uri con, rq_method con, rq_version con, cn_http_status con)"

fun act_goes_on :: "action \<Rightarrow> bool" where
  "act_goes_on (AStore con f k) = True"
| "act_goes_on (ADrop con) = True"
| "act_goes_on _ = False"

lemma line_fields_simps [simp]:
  "line_fields (con\<lparr>cn_parse := p\<rparr>) = line_fields con" "line_fields (con\<lparr>rq_headers := a\<rparr>) = line_fields con"
  "line_fields (con\<lparr>rq_content_length := n\<rparr>) = line_fields con" "line_fields (set_ptr f v con) = line_fields con"
  "line_fields (moved n con) = line_fields con"
  by (simp_all add: line_fields_def moved_def) (cases f; simp)

lemma status_simps [simp]: "cn_http_status (reject con st) = st" "cn_http_status (reject_close con st) = st"
  "cn_http_status (con\<lparr>rq_headers := a\<rparr>) = cn_http_status con"
  by (simp_all add: reject_def reject_close_def)

lemma header_action_fields:
  assumes "header_action al srv con key v ka cl = Inr (act, srv', ka', cl')"
  shows "if act_goes_on act then line_fields (act_con act) = line_fields con else cn_http_status (act_con act) \<noteq> 0"
  using assms
  by (auto simp: header_action_def do_content_length_def do_range_def do_if_modified_since_def only_once_def bindR_eq_Inr
      split: option.splits hname.splits if_splits)

lemma store_header_fields: "store_header al con ds = Inr (con', fresh) \<Longrightarrow> line_fields con' = line_fields con"
  by (auto simp: store_header_def bindR_eq_Inr)

lemma line_fields_status: "line_fields con = line_fields con' \<Longrightarrow> cn_http_status con = cn_http_status con'"
  by (simp add: line_fields_def)

lemma header_field_fields:
  assumes "header_field al srv con key v ka cl = Inr (srv', r)"
  shows "case r of Inl con' \<Rightarrow> cn_http_status con' \<noteq> 0 | Inr (con', _) \<Rightarrow> line_fields con' = line_fields con"
proof -
  obtain ds a act srv1 ka1 cl1 where act: "header_action al srv (con\<lparr>rq_headers := a\<rparr>) key v ka cl = Inr (act, srv1, ka1, cl1)"
    and rest: "(case act of
            AReturn con \<Rightarrow> Inr (srv1, Inl con)
          | AStoreReturn con \<Rightarrow> bindR (store_header al con (set_text (ds\<lparr>du_key := Some key\<rparr>) v)) (\<lambda>(con, _). Inr (srv1, Inl con))
          | AStore con f k \<Rightarrow> bindR (store_header al con (set_text (ds\<lparr>du_key := Some key\<rparr>) v)) (\<lambda>(con, fresh).
              Inr (srv1, Inr (set_ptr f (stored_at (ar_used a) fresh k) con, ka1, cl1)))
          | ADrop con \<Rightarrow> Inr (srv1, Inr (con, ka1, cl1))) = Inr (srv', r)"
    using assms by (auto simp: header_field_def Let_def bindR_eq_Inr)
  show ?thesis
    using rest header_action_fields [OF act]
    by (cases act) (auto simp: bindR_eq_Inr dest!: store_header_fields dest: line_fields_status)
qed

lemma append_value_fields: "append_value e con n t = Inr con' \<Longrightarrow> line_fields con' = line_fields con"
  by (auto simp: append_value_def Let_def bindR_eq_Inr)

lemma fold_line_fields:
  assumes "fold_line e con h = Inr r"
  shows "case r of Inl con' \<Rightarrow> cn_http_status con' \<noteq> 0 | Inr con' \<Rightarrow> line_fields con' = line_fields con"
  using assms by (auto simp: fold_line_def bindR_eq_Inr dest: append_value_fields split: option.splits if_splits)

fun step_fields :: "con \<Rightarrow> head_step \<Rightarrow> bool" where
  "step_fields con (HReturn con') = (cn_http_status con' \<noteq> 0)"
| "step_fields con (HDone con' i) = (line_fields con' = line_fields con)"
| "step_fields con (HNext con' h) = (line_fields con' = line_fields con)"

lemma end_of_line_fields:
  assumes "end_of_line e srv con h = Inr (srv', r)"
  shows "step_fields con r"
proof (cases "hd_in_folding h")
  case True
  then obtain q where q: "fold_line e (con\<lparr>cn_parse := (cn_parse con)[hd_i h := 0, hd_i h + 1 := 0]\<rparr>) h = Inr q"
    "r = (case q of Inl con \<Rightarrow> HReturn con | Inr con \<Rightarrow> HNext con (head_next h))"
    using assms by (auto simp: end_of_line_def Let_def bindR_eq_Inr)
  then show ?thesis using fold_line_fields [OF q(1)] by (cases q) auto
next
  case False
  let ?p = "(cn_parse con)[hd_i h := 0, hd_i h + 1 := 0]"
  let ?v = "strip_blanks (slice ?p (hd_value h) (hd_i h - hd_value h))"
  show ?thesis
  proof (cases "?v = []")
    case True
    then show ?thesis using assms False by (auto simp: end_of_line_def Let_def)
  next
    case v: False
    with assms False obtain key ka cl srv1 q where q:
      "header_field (pe_al e) srv (con\<lparr>cn_parse := ?p[hd_value h + length ?v := 0]\<rparr>) key ?v ka cl = Inr (srv1, q)"
      "r = (case q of Inl con \<Rightarrow> HReturn con | Inr (con, ka, cl) \<Rightarrow>
         HNext con (head_next (h\<lparr>hd_key := Some (hd_first h), hd_keep_alive_set := ka, hd_con_length_set := cl\<rparr>)))"
      by (auto simp: end_of_line_def Let_def bindR_eq_Inr)
    then show ?thesis using header_field_fields [OF q(1)] by (cases q) auto
  qed
qed

lemma head_char_fields:
  assumes "head_char e srv con h = Inr (srv', r)"
  shows "step_fields con r"
proof (cases "hd_is_key h")
  case True
  then have "key_char con h = Inr r" using assms by (auto simp: head_char_def bindR_eq_Inr)
  then show ?thesis by (auto simp: key_char_def Let_def bindR_eq_Inr split: if_splits option.splits)
next
  case False
  then have "value_char e srv con h = Inr (srv', r)" using assms by (simp add: head_char_def)
  then show ?thesis
    by (auto simp: value_char_def Let_def bindR_eq_Inr dest!: end_of_line_fields split: if_splits)
qed

lemma head_loop_fields:
  "head_loop e srv con h = Inr (srv', r) \<Longrightarrow>
   (case r of Inl con' \<Rightarrow> cn_http_status con' \<noteq> 0 | Inr (con', _) \<Rightarrow> line_fields con' = line_fields con)"
proof (induction e srv con h rule: head_loop.induct)
  case (1 e srv con h)
  show ?case
  proof (cases "hd_i h < length (cn_parse con)")
    case True
    then obtain srv1 q where q: "head_char e srv con h = Inr (srv1, q)"
      using 1(2) by (auto simp: head_loop.simps [of e srv con h] bindR_eq_Inr)
    note fields = head_char_fields [OF q]
    show ?thesis
    proof (cases q)
      case (HNext con1 h1)
      then have "head_loop e srv1 con1 h1 = Inr (srv', r)"
        using 1(2) q True by (simp add: head_loop.simps [of e srv con h])
      from 1(1) [OF True q refl HNext this] show ?thesis using fields HNext by (auto split: sum.splits)
    qed (use 1(2) q True fields in \<open>auto simp: head_loop.simps [of e srv con h]\<close>)
  next
    case False
    then show ?thesis using 1(2) by (auto simp: head_loop.simps [of e srv con h])
  qed
qed

definition line_ok :: "con \<Rightarrow> bool" where
  "line_ok con \<longleftrightarrow> (\<exists>u. rq_uri con = Some u \<and> rq_orig_uri con = Some u \<and> list_all request_uri_is_valid_char u)
     \<and> get_http_method_name (rq_method con) \<noteq> None \<and> (rq_version con = HTTP_VERSION_1_0 \<or> rq_version con = HTTP_VERSION_1_1)
     \<and> cn_http_status con = 0"

lemma take_version_cases:
  "take_version con proto = Inl con' \<Longrightarrow> cn_http_status con' \<noteq> 0"
  "take_version con proto = Inr con' \<Longrightarrow> rq_method con' = rq_method con
     \<and> (rq_version con' = HTTP_VERSION_1_0 \<or> rq_version con' = HTTP_VERSION_1_1)"
  by (auto simp: take_version_def split: option.splits if_splits)

lemma take_uri_cases:
  "take_uri con uri proto = Inl con' \<Longrightarrow> cn_http_status con' \<noteq> 0"
  "take_uri con uri proto = Inr con' \<Longrightarrow> rq_method con' = rq_method con \<and> rq_version con' = rq_version con
     \<and> (\<exists>u. rq_uri con' = Some u \<and> rq_orig_uri con' = Some u \<and> list_all request_uri_is_valid_char u) \<and> cn_http_status con' = 0"
  by (auto simp: take_uri_def Let_def split: if_splits)

lemma first_line_cases:
  assumes "first_line con i first stage mth uri = r"
  shows "case r of Inl con' \<Rightarrow> cn_http_status con' \<noteq> 0 | Inr (con', _) \<Rightarrow> line_ok con'"
proof -
  let ?p = "(cn_parse con)[i := 0, i + 1 := 0]"
  let ?q = "?p[uri - 1 := 0, first - 1 := 0]"
  let ?r = "get_http_method_key (map byte_char (cstr_at ?q mth))"
  let ?c = "(con\<lparr>cn_parse := ?p, rq_line := Some (take i ?p)\<rparr>)\<lparr>cn_parse := ?q\<rparr>\<lparr>rq_method := ?r\<rparr>"
  consider "stage \<noteq> 2" | "stage = 2" "?r = -1" | "stage = 2" "?r \<noteq> -1" by blast
  then show ?thesis
  proof cases
    case 3
    then have r: "r = (case take_version ?c (cstr_at ?q first) of Inl con \<Rightarrow> Inl con
        | Inr con \<Rightarrow> (case take_uri con uri first of Inl con \<Rightarrow> Inl con | Inr con \<Rightarrow> Inr (con, i + 2)))"
      unfolding assms [symmetric] first_line_def Let_def by (simp only: not_True_eq_False if_False simp_thms)
    show ?thesis
    proof (cases "take_version ?c (cstr_at ?q first)")
      case (Inl c)
      then show ?thesis using r take_version_cases(1) [OF Inl] by simp
    next
      case v: (Inr c)
      show ?thesis
      proof (cases "take_uri c uri first")
        case (Inl d)
        then show ?thesis using r v take_uri_cases(1) [OF Inl] by simp
      next
        case (Inr d)
        have "get_http_method_name ?r \<noteq> None" using method_round_trip 3(2) by simp
        then have "get_http_method_name (rq_method d) \<noteq> None" using take_version_cases(2) [OF v] take_uri_cases(2) [OF Inr] by simp
        then show ?thesis
          using r v Inr take_version_cases(2) [OF v] take_uri_cases(2) [OF Inr] by (auto simp: line_ok_def)
      qed
    qed
  qed (use assms in \<open>auto simp: first_line_def Let_def\<close>)
qed

definition crlf_from :: "bytes \<Rightarrow> nat \<Rightarrow> bool" where
  "crlf_from p i \<longleftrightarrow> (\<exists>k \<ge> i. k + 1 < length p \<and> p ! k = 13 \<and> p ! (k + 1) = 10)"

lemma request_line_cases:
  "request_line con i first stage mth uri = Inr r \<Longrightarrow>
   (case r of Inl con' \<Rightarrow> cn_http_status con' \<noteq> 0 | Inr (con', _) \<Rightarrow> crlf_from (cn_parse con) i \<longrightarrow> line_ok con')"
proof (induction con i first stage mth uri rule: request_line.induct)
  case (1 con i first stage mth uri)
  let ?c = "cn_parse con ! i"
  have later: "crlf_from (cn_parse con) (i + 1)"
    if "crlf_from (cn_parse con) i" "\<not> (?c = 13 \<and> i + 1 < length (cn_parse con) \<and> cn_parse con ! (i + 1) = 10)"
  proof -
    obtain k where k: "i \<le> k" "k + 1 < length (cn_parse con)" "cn_parse con ! k = 13" "cn_parse con ! (k + 1) = 10"
      using \<open>crlf_from (cn_parse con) i\<close> by (auto simp: crlf_from_def)
    then have "k \<noteq> i" using that(2) by auto
    then show ?thesis using k by (auto simp: crlf_from_def intro!: exI [of _ k])
  qed
  show ?case
  proof (cases "i < length (cn_parse con)")
    case len: True
    consider "?c = 13" | "?c = 32" | "?c \<noteq> 13" "?c \<noteq> 32" by blast
    then show ?thesis
    proof cases
      case c: 1
      obtain d where d: "get_at (cn_parse con) (int i + 1) = Inr d"
        using "1.prems" len c by (auto simp: request_line.simps [of con i] bindR_eq_Inr Let_def)
      show ?thesis
      proof (cases "d = 10")
        case True
        then have "first_line con i first stage mth uri = r"
          using "1.prems" len c d by (simp add: request_line.simps [of con i])
        from first_line_cases [OF this] show ?thesis by (auto split: sum.splits)
      next
        case False
        then have "request_line con (i + 1) first stage mth uri = Inr r"
          using "1.prems" len c d by (simp add: request_line.simps [of con i])
        from "1.IH"(1) [OF len refl c d False this] show ?thesis
          using later d False by (auto simp: res_simps nat_add_distrib split: sum.splits)
      qed
    next
      case c: 2
      then have nc: "?c \<noteq> 13" by simp
      consider "stage = 0" | "stage = 1" | "stage \<noteq> 0" "stage \<noteq> 1" by blast
      then show ?thesis
      proof cases
        case 1
        then have "request_line con (i + 1) (i + 1) 1 first uri = Inr r"
          using "1.prems" len c by (simp add: request_line.simps [of con i])
        from "1.IH"(2) [OF len refl nc c 1 this] show ?thesis using later nc by (auto split: sum.splits)
      next
        case 2
        then have "request_line con (i + 1) (i + 1) 2 mth first = Inr r"
          using "1.prems" len c by (simp add: request_line.simps [of con i])
        from "1.IH"(3) [OF len refl nc c _ 2 this] 2 show ?thesis using later nc by (auto split: sum.splits)
      next
        case 3
        then show ?thesis using "1.prems" len c by (auto simp: request_line.simps [of con i])
      qed
    next
      case c: 3
      then have "request_line con (i + 1) first stage mth uri = Inr r"
        using "1.prems" len by (simp add: request_line.simps [of con i])
      from "1.IH"(4) [OF len refl c this] show ?thesis using later c by (auto split: sum.splits)
    qed
  next
    case False
    then show ?thesis using "1.prems" by (auto simp: request_line.simps [of con i] crlf_from_def)
  qed
qed

lemma strstr_crlf2_split: "strstr_crlf2 s \<Longrightarrow> \<exists>pre post. s = pre @ [13, 10, 13, 10] @ post"
proof (induction s rule: strstr_crlf2.induct)
  case (1 s)
  show ?case
  proof (cases "take 4 s = [13, 10, 13, 10]")
    case True
    then have "s = [] @ [13, 10, 13, 10] @ drop 4 s" by (metis append_Nil append_take_drop_id)
    then show ?thesis by blast
  next
    case False
    then obtain c r where r: "s = c # r" "strstr_crlf2 r" using 1(2) by (cases s) (auto simp: strstr_crlf2.simps [of s])
    then obtain pre post where "r = pre @ [13, 10, 13, 10] @ post" using 1(1) False by blast
    then have "s = (c # pre) @ [13, 10, 13, 10] @ post" using r by simp
    then show ?thesis by blast
  qed
qed

declare strstr_crlf2.simps [simp del]

lemma header_finished_split:
  assumes "http_request_header_finished r"
  shows "\<exists>pre post. r = pre @ [13, 10, 13, 10] @ post"
  using assms unfolding http_request_header_finished_def
proof (elim conjE disjE)
  assume "drop (length r - 4) r = [13, 10, 13, 10]"
  then have "r = take (length r - 4) r @ [13, 10, 13, 10] @ []" by (metis append_Nil2 append_take_drop_id)
  then show ?thesis by blast
next
  assume "strstr_crlf2 (takeWhile (\<lambda>c. c \<noteq> 0) r)"
  then obtain pre post where "takeWhile (\<lambda>c. c \<noteq> 0) r = pre @ [13, 10, 13, 10] @ post" using strstr_crlf2_split by blast
  then have "r = pre @ [13, 10, 13, 10] @ (post @ dropWhile (\<lambda>c. c \<noteq> 0) r)"
    by (metis append.assoc takeWhile_dropWhile_id)
  then show ?thesis by blast
qed

lemma crlf_from_split: "crlf_from (pre @ 13 # 10 # post) 0"
  by (auto simp: crlf_from_def nth_append intro!: exI [of _ "length pre"])

definition parse_text :: "con \<Rightarrow> bytes" where
  "parse_text con =
     (if cn_request_count con > 1 \<and> take 2 (cn_request con) = [13, 10] then drop 2 (cn_request con) else cn_request con)"

lemma finished_crlf:
  assumes "http_request_header_finished (cn_request con)"
  shows "crlf_from (parse_text con @ [0]) 0"
proof -
  obtain pre post where r: "cn_request con = pre @ [13, 10, 13, 10] @ post" using header_finished_split [OF assms] by blast
  show ?thesis
  proof (cases "cn_request_count con > 1 \<and> take 2 (cn_request con) = [13, 10]")
    case True
    have "\<exists>pre' post'. drop 2 (cn_request con) = pre' @ 13 # 10 # post'"
    proof (cases pre)
      case Nil
      then show ?thesis using r by (intro exI [of _ "[]"] exI [of _ post]) simp
    next
      case (Cons c cs)
      then obtain d ds where "cs = d # ds" using True r by (cases cs) auto
      then show ?thesis using r Cons by (intro exI [of _ ds] exI [of _ "13 # 10 # post"]) simp
    qed
    then show ?thesis using True crlf_from_split by (auto simp: parse_text_def)
  next
    case False
    then have "parse_text con @ [0] = pre @ 13 # 10 # (13 # 10 # post @ [0])" using r by (auto simp: parse_text_def)
    then show ?thesis using crlf_from_split [of pre] by metis
  qed
qed

lemma host_text_frame [simp]:
  "host_text (con\<lparr>cn_keep_alive := b\<rparr>) = host_text con" "host_text (con\<lparr>cn_header_len := n\<rparr>) = host_text con"
  by (simp_all add: host_text_def split: vptr.split)

lemma request_checks_spec:
  assumes "request_checks srv con ka cl = Inr (r, con')" "cn_http_status con' = 0"
  shows "line_fields con' = line_fields con" "\<exists>host. host_text con' = Inr host \<and> request_check_hostname host = 0 \<and>
      (rq_version con' = HTTP_VERSION_1_1 \<longrightarrow> host \<noteq> None \<and> host \<noteq> Some [])"
    "r = 0 \<or> r = 1 \<and> 0 < rq_content_length con' \<and> rq_content_length con' \<le> SSIZE_MAX \<and>
       (sv_max_request_size srv = 0 \<or> rq_content_length con' div 1024 \<le> sv_max_request_size srv) \<and>
       rq_method con' \<noteq> HTTP_METHOD_GET \<and> rq_method con' \<noteq> HTTP_METHOD_HEAD"
    "rq_method con' = HTTP_METHOD_POST \<longrightarrow> cl"
proof -
  obtain host where host: "host_text con = Inr host" using assms(1) by (auto simp: request_checks_def bindR_eq_Inr)
  obtain con1 where c1: "check_keep_alive con host ka = Inr con1"
    using assms host by (auto simp: request_checks_def check_keep_alive_def Let_def split: if_splits)
  have keep: "line_fields con1 = line_fields con" "host_text con1 = Inr host" "rq_host con1 = rq_host con" "rq_headers con1 = rq_headers con"
    "rq_version con1 = HTTP_VERSION_1_1 \<longrightarrow> host \<noteq> None \<and> host \<noteq> Some []"
    using c1 host by (auto simp: check_keep_alive_def Let_def line_fields_def split: if_splits)
  have hostok: "request_check_hostname host = 0"
  proof (cases "rq_host con1 = NullP")
    case True
    then show ?thesis using keep(2) by (simp add: host_text_def request_check_hostname_def)
  next
    case False
    then show ?thesis using assms host c1 by (auto simp: request_checks_def split: if_splits)
  qed
  obtain con2 where c2: "check_method con1 cl = Inr con2"
    using assms host c1 hostok by (auto simp: request_checks_def check_method_def split: if_splits)
  have meth: "con2 = con1" "rq_method con1 = HTTP_METHOD_POST \<longrightarrow> cl"
    "rq_method con1 = HTTP_METHOD_GET \<or> rq_method con1 = HTTP_METHOD_HEAD \<longrightarrow> \<not> (cl \<and> rq_content_length con1 \<noteq> 0)"
    using c2 by (auto simp: check_method_def HTTP_METHOD_GET_def HTTP_METHOD_HEAD_def HTTP_METHOD_POST_def split: if_splits)
  have len: "(r, con') = check_length srv con1 cl"
    using assms(1) host c1 hostok c2 meth(1) by (simp add: request_checks_def)
  then have same: "con' = con1" using assms(2) by (auto simp: check_length_def split: if_splits)
  show "line_fields con' = line_fields con" using keep same by simp
  show "\<exists>host. host_text con' = Inr host \<and> request_check_hostname host = 0 \<and>
      (rq_version con' = HTTP_VERSION_1_1 \<longrightarrow> host \<noteq> None \<and> host \<noteq> Some [])" using keep hostok same by blast
  show "rq_method con' = HTTP_METHOD_POST \<longrightarrow> cl" using meth same by simp
  show "r = 0 \<or> r = 1 \<and> 0 < rq_content_length con' \<and> rq_content_length con' \<le> SSIZE_MAX \<and>
       (sv_max_request_size srv = 0 \<or> rq_content_length con' div 1024 \<le> sv_max_request_size srv) \<and>
       rq_method con' \<noteq> HTTP_METHOD_GET \<and> rq_method con' \<noteq> HTTP_METHOD_HEAD"
    using len meth(3) assms(2) same by (auto simp: check_length_def split: if_splits)
qed

end
