(* ===== verification/Lt_Request_Round.thy ===== *)
theory Lt_Request_Round
  imports Lt_Request_Facts
begin

text \<open>
  A request written the way a browser writes it, line by line, and read again by the parser of
  \<open>Lt_Request\<close>: method, path and headers come out as they went in.
\<close>

section \<open>Lines\<close>

definition key_ok :: "byte \<Rightarrow> bool" where
  "key_ok c \<longleftrightarrow> c \<noteq> 58 \<and> c \<notin> set key_separators \<and> \<not> is_blank c \<and> \<not> unat c < 32 \<and> c \<noteq> 127"

definition value_ok :: "byte \<Rightarrow> bool" where
  "value_ok c \<longleftrightarrow> \<not> (0 \<le> sint c \<and> sint c < 32)"

definition render_line :: "bytes \<times> bytes \<Rightarrow> bytes" where
  "render_line = (\<lambda>(k, v). k @ [58, 32] @ v @ [13, 10])"

definition head_loop_next :: "parse_env \<Rightarrow> server \<times> head_step \<Rightarrow> head_st \<Rightarrow> head_end res" where
  "head_loop_next e r h = (case r of
     (srv, HReturn con) \<Rightarrow> Inr (srv, Inl con)
   | (srv, HDone con i) \<Rightarrow> Inr (srv, Inr (con, i, hd_keep_alive_set h, hd_con_length_set h))
   | (srv, HNext con h) \<Rightarrow> head_loop e srv con h)"

lemma head_loop_step:
  "hd_i h < length (cn_parse con) \<Longrightarrow> head_loop e srv con h = bindR (head_char e srv con h) (\<lambda>r. head_loop_next e r h)"
  by (subst head_loop.simps) (simp add: head_loop_next_def split_def)

lemma key_run:
  "hd_is_key h \<Longrightarrow> hd_i h + n \<le> length (cn_parse con) \<Longrightarrow> (\<And>j. j < n \<Longrightarrow> key_ok (cn_parse con ! (hd_i h + j))) \<Longrightarrow>
   head_loop e srv con h = head_loop e srv con (h\<lparr>hd_i := hd_i h + n\<rparr>)"
proof (induction n arbitrary: h)
  case (Suc n)
  have "key_ok (cn_parse con ! hd_i h)" using Suc.prems(3) [of 0] by simp
  then have "key_char con h = Inr (HNext con (h\<lparr>hd_i := hd_i h + 1\<rparr>))"
    by (auto simp: key_char_def key_ok_def is_blank_def Let_def)
  then have "head_loop e srv con h = head_loop e srv con (h\<lparr>hd_i := hd_i h + 1\<rparr>)"
    using Suc.prems(1,2) by (subst head_loop_step) (simp_all add: head_char_def head_loop_next_def)
  also have "\<dots> = head_loop e srv con ((h\<lparr>hd_i := hd_i h + 1\<rparr>)\<lparr>hd_i := hd_i (h\<lparr>hd_i := hd_i h + 1\<rparr>) + n\<rparr>)"
    using Suc.prems Suc.prems(3) [of "Suc j" for j] by (intro Suc.IH) simp_all
  finally show ?case by (simp add: add.commute add.left_commute)
qed simp

lemma value_13: "value_ok c \<Longrightarrow> c \<noteq> 13"
  by (auto simp: value_ok_def)

lemma value_run:
  "\<not> hd_is_key h \<Longrightarrow> hd_i h + n \<le> length (cn_parse con) \<Longrightarrow>
   (\<And>j. j < n \<Longrightarrow> value_ok (cn_parse con ! (hd_i h + j)) \<and> (is_blank (cn_parse con ! (hd_i h + j)) \<longrightarrow> hd_value h \<noteq> hd_i h + j)) \<Longrightarrow>
   head_loop e srv con h = head_loop e srv con (h\<lparr>hd_i := hd_i h + n\<rparr>)"
proof (induction n arbitrary: h)
  case (Suc n)
  have v: "value_ok (cn_parse con ! hd_i h)" "is_blank (cn_parse con ! hd_i h) \<longrightarrow> hd_value h \<noteq> hd_i h"
    using Suc.prems(3) [of 0] by simp_all
  have "value_char e srv con h = Inr (srv, HNext con (h\<lparr>hd_i := hd_i h + 1\<rparr>))"
    using v value_13 [OF v(1)] by (auto simp: value_char_def value_ok_def Let_def)
  then have "head_loop e srv con h = head_loop e srv con (h\<lparr>hd_i := hd_i h + 1\<rparr>)"
    using Suc.prems(1,2) by (subst head_loop_step) (simp_all add: head_char_def head_loop_next_def)
  also have "\<dots> = head_loop e srv con ((h\<lparr>hd_i := hd_i h + 1\<rparr>)\<lparr>hd_i := hd_i (h\<lparr>hd_i := hd_i h + 1\<rparr>) + n\<rparr>)"
    using Suc.prems Suc.prems(3) [of "Suc j" for j] by (intro Suc.IH) simp_all
  finally show ?case by (simp add: add.commute add.left_commute)
qed simp

definition line_good :: "bytes \<times> bytes \<Rightarrow> bool" where
  "line_good = (\<lambda>(k, v). k \<noteq> [] \<and> list_all key_ok k \<and> v \<noteq> [] \<and> list_all value_ok v \<and> \<not> is_blank (hd v) \<and> \<not> is_blank (last v))"

definition after_line :: "head_st \<Rightarrow> nat \<Rightarrow> nat \<Rightarrow> nat \<Rightarrow> keep_alive \<Rightarrow> bool \<Rightarrow> head_st" where
  "after_line h n first klen ka cl = h\<lparr>hd_i := n, hd_first := n, hd_is_key := True, hd_key_len := klen, hd_in_folding := False,
     hd_value := 0, hd_key := Some first, hd_keep_alive_set := ka, hd_con_length_set := cl\<rparr>"

lemma strip_blanks_id: "v \<noteq> [] \<Longrightarrow> \<not> is_blank (last v) \<Longrightarrow> strip_blanks v = v"
  by (cases v rule: rev_cases) (simp_all add: strip_blanks_def)

text \<open>A header line is read up to its end, where its field is stored.\<close>

lemma key_part:
  assumes p: "cn_parse con = pre @ render_line (k, v) @ rest" and good: "line_good (k, v)"
    and h: "hd_i h = length pre" "hd_first h = length pre" "hd_is_key h"
  shows "head_loop e srv con h = head_loop e srv con (h\<lparr>hd_is_key := False, hd_value := length pre + length k + 2,
    hd_key_len := length k, hd_i := length pre + length k + 2\<rparr>)"
proof -
  let ?n = "length pre + length k"
  have nth: "cn_parse con ! (length pre + j) = (k @ [58, 32] @ v @ [13, 10] @ rest) ! j" for j
    by (simp add: p render_line_def nth_append)
  have len: "?n + 2 < length (cn_parse con)" by (simp add: p render_line_def)
  have "key_ok (cn_parse con ! (hd_i h + j))" if "j < length k" for j
    using good that nth [of j] h(1) by (simp add: line_good_def nth_append list_all_length)
  then have "head_loop e srv con h = head_loop e srv con (h\<lparr>hd_i := ?n\<rparr>)"
    using key_run [of h "length k" con e srv] h len by simp
  also have "\<dots> = head_loop e srv con (h\<lparr>hd_is_key := False, hd_value := ?n + 1, hd_key_len := length k, hd_i := ?n + 1\<rparr>)"
  proof -
    have "cn_parse con ! ?n = 58" using nth [of "length k"] by simp
    then have "key_char con (h\<lparr>hd_i := ?n\<rparr>) =
        Inr (HNext con (h\<lparr>hd_is_key := False, hd_value := ?n + 1, hd_key_len := length k, hd_i := ?n + 1\<rparr>))"
      using h by (simp add: key_char_def Let_def)
    then show ?thesis using h len by (subst head_loop_step) (simp_all add: head_char_def head_loop_next_def)
  qed
  also have "\<dots> = head_loop e srv con (h\<lparr>hd_is_key := False, hd_value := ?n + 2, hd_key_len := length k, hd_i := ?n + 2\<rparr>)"
  proof -
    have "cn_parse con ! (?n + 1) = 32" using nth [of "length k + 1"] by (simp add: nth_append)
    then have "value_char e srv con (h\<lparr>hd_is_key := False, hd_value := ?n + 1, hd_key_len := length k, hd_i := ?n + 1\<rparr>) =
        Inr (srv, HNext con (h\<lparr>hd_is_key := False, hd_value := ?n + 2, hd_key_len := length k, hd_i := ?n + 2\<rparr>))"
      by (simp add: value_char_def is_blank_def Let_def)
    then show ?thesis using len by (subst head_loop_step) (simp_all add: head_char_def head_loop_next_def)
  qed
  finally show ?thesis by simp
qed

lemma head_line:
  assumes p: "cn_parse con = pre @ render_line (k, v) @ rest" and good: "line_good (k, v)"
    and h: "hd_i h = length pre" "hd_first h = length pre" "hd_is_key h" "\<not> hd_in_folding h"
  shows "head_loop e srv con h =
    bindR (header_field (pe_al e) srv (con\<lparr>cn_parse := pre @ k @ [58, 32] @ v @ [0, 0] @ rest\<rparr>) k v
      (hd_keep_alive_set h) (hd_con_length_set h)) (\<lambda>(srv, r). case r of
        Inl con \<Rightarrow> Inr (srv, Inl con)
      | Inr (con, ka, cl) \<Rightarrow>
          head_loop e srv con (after_line h (length pre + length k + length v + 4) (length pre) (length k) ka cl))"
proof -
  let ?n = "length pre + length k + 2"
  let ?h = "h\<lparr>hd_is_key := False, hd_value := ?n, hd_key_len := length k, hd_i := ?n\<rparr>"
  let ?g = "?h\<lparr>hd_i := ?n + length v\<rparr>"
  let ?p = "pre @ k @ [58, 32] @ v @ [0, 0] @ rest"
  have v: "v \<noteq> []" "list_all value_ok v" "\<not> is_blank (hd v)" "\<not> is_blank (last v)" using good by (auto simp: line_good_def)
  have nth: "cn_parse con ! (?n + j) = (v @ [13, 10] @ rest) ! j" for j
    by (simp add: p render_line_def nth_append)
  have len: "?n + length v + 1 < length (cn_parse con)" by (simp add: p render_line_def)
  have "head_loop e srv con h = head_loop e srv con ?h" using key_part [OF p good h(1-3)] .
  also have "\<dots> = head_loop e srv con ?g"
  proof -
    have "value_ok (cn_parse con ! (?n + j)) \<and> (is_blank (cn_parse con ! (?n + j)) \<longrightarrow> ?n \<noteq> ?n + j)" if "j < length v" for j
      using v that nth [of j] by (cases "j = 0") (auto simp: nth_append list_all_length hd_conv_nth)
    then show ?thesis using value_run [of ?h "length v" con e srv] len by simp
  qed
  also have "\<dots> = bindR (end_of_line e srv con ?g) (\<lambda>r. head_loop_next e r ?g)"
  proof -
    have "cn_parse con ! (?n + length v) = 13" using nth [of "length v"] by simp
    moreover have "get_at (cn_parse con) (int (?n + length v) + 1) = Inr 10"
    proof -
      have idx: "nat (int (?n + length v) + 1) = ?n + (length v + 1)" by linarith
      have "(v @ [13, 10] @ rest) ! (length v + 1) = 10" by (simp add: nth_append)
      then show ?thesis using len nth [of "length v + 1"] unfolding get_at_def idx by simp
    qed
    ultimately have "value_char e srv con ?g = end_of_line e srv con ?g" by (simp add: value_char_def Let_def)
    then show ?thesis using len by (subst head_loop_step) (simp_all add: head_char_def)
  qed
  also have "\<dots> = bindR (header_field (pe_al e) srv (con\<lparr>cn_parse := ?p\<rparr>) k v
      (hd_keep_alive_set h) (hd_con_length_set h)) (\<lambda>(srv, r). case r of
        Inl con \<Rightarrow> Inr (srv, Inl con)
      | Inr (con, ka, cl) \<Rightarrow>
          head_loop e srv con (after_line h (length pre + length k + length v + 4) (length pre) (length k) ka cl))"
  proof -
    have upd: "(cn_parse con)[?n + length v := 0, ?n + length v + 1 := 0] = ?p"
      by (simp add: p render_line_def list_update_append)
    have val: "slice ?p ?n (?n + length v - ?n) = v" by (simp add: slice_def)
    have again: "?p[?n + length v := 0] = ?p" by (simp add: list_update_append)
    have key: "slice ?p (length pre) (length k) = k" by (simp add: slice_def)
    have "end_of_line e srv con ?g =
        bindR (header_field (pe_al e) srv (con\<lparr>cn_parse := ?p\<rparr>) k v (hd_keep_alive_set h) (hd_con_length_set h)) (\<lambda>(srv, r).
          Inr (srv, case r of Inl con \<Rightarrow> HReturn con | Inr (con, ka, cl) \<Rightarrow>
            HNext con (after_line h (length pre + length k + length v + 4) (length pre) (length k) ka cl)))"
      using h v upd val again key
      by (simp add: end_of_line_def Let_def strip_blanks_id)
        (rule bindR_cong [OF refl], auto simp: head_next_def after_line_def split: sum.split)
    then show ?thesis
      by (simp add: bindR_assoc head_loop_next_def split_def)
        (rule bindR_cong, auto simp: head_loop_next_def split: sum.split)
  qed
  finally show ?thesis .
qed

section \<open>Storing a field\<close>

lemma unused_string_new: "arr_new a \<Longrightarrow> ar_used a \<le> ar_size a \<Longrightarrow> unused_string a = Inr (data_string_init, a)"
  by (auto simp: unused_string_def array_get_unused_element_def arr_new_def)


definition heads :: "con \<Rightarrow> data_unset list \<Rightarrow> bool" where
  "heads con es \<longleftrightarrow> arr_repr (rq_headers con) es \<and> arr_new (rq_headers con)"

lemma heads_parse [simp]: "heads (con\<lparr>cn_parse := p\<rparr>) es = heads con es"
  by (simp add: heads_def)

lemma header_eq: "set_text (data_string_init\<lparr>du_key := Some k\<rparr>) v = header (k, v)"
  by (simp add: set_text_def data_string_init_def header_def)

lemma header_ok: "plain_key k \<Longrightarrow> entry_ok (header (k, v)) \<and> \<not> du_is_index_key (header (k, v))"
  by (simp add: header_def entry_ok_def data_string_init_def)

text \<open>A field whose name asks for nothing but storing it, with a pointer kept or not.\<close>

lemma stored_field:
  assumes h: "heads con es" and k: "plain_key k" and room: "length es < INT_MAX"
    and act: "\<And>a. header_action al srv (con\<lparr>rq_headers := a\<rparr>) k v ka cl = Inr (AStore (con\<lparr>rq_headers := a\<rparr>) f off, srv, ka, cl)"
  shows "\<exists>a. header_field al srv con k v ka cl =
      Inr (srv, Inr (set_ptr f (stored_at (length es) (length es < length (ins_entry (header (k, v)) es)) off) (con\<lparr>rq_headers := a\<rparr>), ka, cl)) \<and>
    heads (con\<lparr>rq_headers := a\<rparr>) (ins_entry (header (k, v)) es)"
proof -
  have r: "arr_repr (rq_headers con) es" "arr_new (rq_headers con)" using h by (simp_all add: heads_def)
  have used: "ar_used (rq_headers con) = length es" "ar_used (rq_headers con) \<le> ar_size (rq_headers con)"
    using r(1) by (simp_all add: arr_repr_def)
  obtain a where a: "array_insert_unique al (rq_headers con) (header (k, v)) = Inr (0, a)"
      "arr_repr a (ins_entry (header (k, v)) es)" "arr_new a"
    using insert_refines [OF r(1), of "header (k, v)" al] header_ok [OF k] room r(2) by auto
  have "ar_used a = length (ins_entry (header (k, v)) es)" using a(2) by (simp add: arr_repr_def)
  then have "store_header al con (header (k, v)) =
      Inr (con\<lparr>rq_headers := a\<rparr>, length es < length (ins_entry (header (k, v)) es))"
    using a(1) used(1) by (simp add: store_header_def)
  then have "header_field al srv con k v ka cl =
      Inr (srv, Inr (set_ptr f (stored_at (length es) (length es < length (ins_entry (header (k, v)) es)) off) (con\<lparr>rq_headers := a\<rparr>), ka, cl))"
    using act [of "rq_headers con"] unused_string_new [OF r(2) used(2)] used(1)
    by (simp add: header_field_def header_eq Let_def)
  then show ?thesis using a by (auto simp: heads_def)
qed

definition quiet :: "bytes \<Rightarrow> bool" where
  "quiet k \<longleftrightarrow> plain_key k \<and> (\<forall>(n, h) \<in> set header_names. \<not> same_text k (map char_byte n))"

lemma plain_key_length: "plain_key k \<Longrightarrow> length k < 2 ^ 31"
  by (simp add: plain_key_def plain_text_def)

lemma quiet_name: "quiet k \<Longrightarrow> name_chain al k header_names = None"
proof -
  assume q: "quiet k"
  then have "name_chain al k header_names \<noteq> Some h" for h
    using header_name_recognised [OF plain_key_length, of k al h] by (auto simp: quiet_def)
  then show ?thesis by (cases "name_chain al k header_names") auto
qed

lemma quiet_field:
  assumes "heads con es" "quiet k" "length es < INT_MAX"
  shows "\<exists>a. header_field al srv con k v ka cl = Inr (srv, Inr (con\<lparr>rq_headers := a\<rparr>, ka, cl)) \<and>
    heads (con\<lparr>rq_headers := a\<rparr>) (ins_entry (header (k, v)) es)"
proof -
  have "plain_key k" using assms(2) by (simp add: quiet_def)
  moreover have "header_action al srv (con\<lparr>rq_headers := a\<rparr>) k v ka cl = Inr (AStore (con\<lparr>rq_headers := a\<rparr>) PNone 0, srv, ka, cl)" for a
    using quiet_name [OF assms(2)] by (simp add: header_action_def)
  ultimately show ?thesis using stored_field [OF assms(1) _ assms(3), of k al srv v ka cl PNone 0] by simp
qed

section \<open>Runs of header lines\<close>

definition at_line :: "head_st \<Rightarrow> nat \<Rightarrow> keep_alive \<Rightarrow> bool \<Rightarrow> bool" where
  "at_line h n ka cl \<longleftrightarrow> hd_i h = n \<and> hd_first h = n \<and> hd_is_key h \<and> \<not> hd_in_folding h \<and> hd_keep_alive_set h = ka \<and> hd_con_length_set h = cl"

lemma at_after_line: "at_line (after_line h n first klen ka cl) n ka cl"
  by (simp add: at_line_def after_line_def)

lemma quiet_lines:
  "cn_parse con = pre @ concat (map render_line hs) @ rest \<Longrightarrow> heads con es \<Longrightarrow> at_line h (length pre) ka cl \<Longrightarrow>
   \<forall>kv \<in> set hs. line_good kv \<and> quiet (fst kv) \<Longrightarrow> length es + length hs \<le> INT_MAX \<Longrightarrow>
   \<exists>a pre' h'. head_loop e srv con h = head_loop e srv (con\<lparr>rq_headers := a, cn_parse := pre' @ rest\<rparr>) h' \<and>
     length pre' = length pre + length (concat (map render_line hs)) \<and>
     heads (con\<lparr>rq_headers := a\<rparr>) (fold ins_entry (map header hs) es) \<and> at_line h' (length pre') ka cl"
proof (induction hs arbitrary: con pre es h)
  case Nil
  have same: "con\<lparr>rq_headers := rq_headers con, cn_parse := pre @ rest\<rparr> = con" using Nil.prems(1) by (cases con) simp
  show ?case
  proof (intro exI conjI)
    show "head_loop e srv con h = head_loop e srv (con\<lparr>rq_headers := rq_headers con, cn_parse := pre @ rest\<rparr>) h"
      by (simp only: same)
  qed (use Nil.prems in simp_all)
next
  case (Cons kv hs)
  obtain k v where kv: "kv = (k, v)" by force
  let ?p = "(pre @ k @ [58, 32] @ v @ [0, 0])" and ?rest = "concat (map render_line hs) @ rest"
  let ?c = "con\<lparr>cn_parse := ?p @ ?rest\<rparr>"
  let ?h = "after_line h (length pre + length k + length v + 4) (length pre) (length k) ka cl"
  have lenp: "length ?p = length pre + length k + length v + 4" by simp
  obtain a where a: "header_field (pe_al e) srv ?c k v ka cl = Inr (srv, Inr (?c\<lparr>rq_headers := a\<rparr>, ka, cl))"
      "heads (?c\<lparr>rq_headers := a\<rparr>) (ins_entry (header kv) es)"
    using quiet_field [of ?c es k "pe_al e" srv v ka cl] Cons.prems kv by auto
  have step: "head_loop e srv con h = head_loop e srv (?c\<lparr>rq_headers := a\<rparr>) ?h"
    using head_line [of con pre k v ?rest h e srv] Cons.prems(1,3,4) kv a(1) by (simp add: at_line_def)
  have "length (ins_entry (header kv) es) + length hs \<le> INT_MAX"
    using ins_entry_length [of "header kv" es] Cons.prems(5) by simp
  then obtain a' pre' h' where r:
      "head_loop e srv (?c\<lparr>rq_headers := a\<rparr>) ?h = head_loop e srv (?c\<lparr>rq_headers := a\<rparr>\<lparr>rq_headers := a', cn_parse := pre' @ rest\<rparr>) h'"
      "length pre' = length ?p + length (concat (map render_line hs))"
      "heads (?c\<lparr>rq_headers := a\<rparr>\<lparr>rq_headers := a'\<rparr>) (fold ins_entry (map header hs) (ins_entry (header kv) es))" "at_line h' (length pre') ka cl"
    using Cons.IH [of "?c\<lparr>rq_headers := a\<rparr>" ?p "ins_entry (header kv) es" ?h] a(2) Cons.prems(4)
      at_after_line [of h "length ?p"] unfolding lenp by auto
  show ?case
    using r step kv by (intro exI [of _ a'] exI [of _ pre'] exI [of _ h']) (simp add: render_line_def heads_def)
qed

lemma end_line:
  assumes "cn_parse con = pre @ [13, 10] @ rest" "at_line h (length pre) ka cl"
  shows "head_loop e srv con h = Inr (srv, Inr (con\<lparr>cn_parse := pre @ [0, 0] @ rest\<rparr>, length pre + 2, ka, cl))"
proof -
  have "cn_parse con ! length pre = 13" "get_at (cn_parse con) (int (length pre) + 1) = Inr 10"
    by (simp_all add: assms(1) get_at_def nat_add_distrib nth_append)
  then have "key_char con h = Inr (HDone (con\<lparr>cn_parse := pre @ [0, 0] @ rest\<rparr>) (length pre + 2))"
    using assms by (simp add: key_char_def at_line_def Let_def key_separators_def is_blank_def list_update_append char_byte_def)
  then show ?thesis
    using assms by (subst head_loop_step) (simp_all add: head_char_def head_loop_next_def at_line_def)
qed

section \<open>The request line\<close>

lemma line_run:
  "i + n \<le> length (cn_parse con) \<Longrightarrow> (\<And>j. j < n \<Longrightarrow> cn_parse con ! (i + j) \<noteq> 13 \<and> cn_parse con ! (i + j) \<noteq> 32) \<Longrightarrow>
   request_line con i first stage method uri = request_line con (i + n) first stage method uri"
proof (induction n arbitrary: i)
  case (Suc n)
  have "request_line con i first stage method uri = request_line con (i + 1) first stage method uri"
    using Suc.prems(1) Suc.prems(2) [of 0] by (subst request_line.simps) (simp add: Let_def)
  also have "\<dots> = request_line con (i + 1 + n) first stage method uri"
    using Suc.prems(1) Suc.prems(2) [of "Suc j" for j] by (intro Suc.IH) simp_all
  finally show ?case by simp
qed simp

lemma line_text:
  assumes "cn_parse con = pre @ w @ c # post" "13 \<notin> set w" "32 \<notin> set w" "length pre = i"
  shows "request_line con i first stage method uri = request_line con (i + length w) first stage method uri"
    "cn_parse con ! (i + length w) = c" "i + length w < length (cn_parse con)"
proof -
  have "cn_parse con ! (i + j) \<noteq> 13 \<and> cn_parse con ! (i + j) \<noteq> 32" if "j < length w" for j
  proof -
    have "w ! j \<in> set w" using that by simp
    then have "w ! j \<noteq> 13 \<and> w ! j \<noteq> 32" using assms(2,3) by metis
    then show ?thesis using assms(1,4) that by (simp add: nth_append)
  qed
  then show "request_line con i first stage method uri = request_line con (i + length w) first stage method uri"
    using assms by (intro line_run) simp_all
qed (use assms(1) assms(4) [symmetric] in \<open>simp_all add: nth_append\<close>)

definition proto11 :: bytes where
  "proto11 = map char_byte ''HTTP/1.1''"

definition cut_line :: "bytes \<Rightarrow> bytes \<Rightarrow> bytes \<Rightarrow> bytes" where
  "cut_line m u rest = m @ [0] @ u @ [0] @ proto11 @ [0, 0] @ rest"

lemma cstr_at_append: "0 \<notin> set s \<Longrightarrow> cstr_at (pre @ s @ 0 # post) (length pre) = s"
  by (simp add: cstr_at_def takeWhile_append)

lemma first_line_good:
  assumes p: "cn_parse con = m @ [32] @ u @ [32] @ proto11 @ [13, 10] @ rest"
    and m: "get_http_method_key (map byte_char m) \<noteq> -1" "0 \<notin> set m"
    and u: "list_all request_uri_is_valid_char u" "hd u = 47" "u \<noteq> []" and v: "cn_allow_http11 con"
  shows "first_line con (length m + length u + 2 + length proto11) (length m + length u + 2) 2 0 (length m + 1) =
    Inr (con\<lparr>cn_parse := cut_line m u rest, rq_line := Some (m @ [32] @ u @ [32] @ proto11), rq_method := get_http_method_key (map byte_char m),
      rq_version := HTTP_VERSION_1_1, rq_uri := Some u, rq_orig_uri := Some u, cn_http_status := 0\<rparr>,
      length (cut_line m u []))"
proof -
  let ?i = "length m + length u + 2 + length proto11" and ?f = "length m + length u + 2"
  let ?p = "(cn_parse con)[?i := 0, ?i + 1 := 0]"
  have p1: "?p = m @ [32] @ u @ [32] @ proto11 @ [0, 0] @ rest" by (simp add: p list_update_append)
  have p2: "?p[length m + 1 - 1 := 0, ?f - 1 := 0] = cut_line m u rest"
    unfolding p1 by (simp add: list_update_append cut_line_def)
  have u0: "0 \<notin> set u" using u(1) by (auto simp: list_all_iff request_uri_is_valid_char_def)
  have meth: "cstr_at (cut_line m u rest) 0 = m" using cstr_at_append [OF m(2), of "[]"] by (simp add: cut_line_def)
  have uri: "cstr_at (cut_line m u rest) (length m + 1) = u"
    using cstr_at_append [OF u0, of "m @ [0]"] by (simp add: cut_line_def)
  have "0 \<notin> set proto11" by code_simp
  then have proto: "cstr_at (cut_line m u rest) ?f = proto11"
    using cstr_at_append [of proto11 "m @ [0] @ u @ [0]"] by (simp add: cut_line_def)
  have ver: "parse_version proto11 = Some (1, 1)" by code_simp
  have abs: "take 7 u \<noteq> map char_byte ''http://''"
  proof
    assume "take 7 u = map char_byte ''http://''"
    moreover have "hd (take 7 u) = hd u" using u(3) by simp
    moreover have "hd (map char_byte ''http://'') \<noteq> (47 :: byte)" by code_simp
    ultimately show False using u(2) by simp
  qed
  have path: "uri_text (cut_line m u rest) (length m + 1) ?f = u"
    unfolding uri_text_def uri Let_def using abs by (simp add: slice_def cut_line_def)
  have cut: "take ?i ?p = m @ [32] @ u @ [32] @ proto11" unfolding p1 by simp
  let ?c = "(con\<lparr>cn_parse := ?p, rq_line := Some (m @ [32] @ u @ [32] @ proto11)\<rparr>)\<lparr>cn_parse := cut_line m u rest\<rparr>
      \<lparr>rq_method := get_http_method_key (map byte_char m)\<rparr>"
  have tv: "take_version ?c proto11 = Inr (?c\<lparr>rq_version := HTTP_VERSION_1_1\<rparr>)" using v by (simp add: take_version_def ver)
  have tu: "take_uri c (length m + 1) ?f = Inr (c\<lparr>rq_uri := Some u, rq_orig_uri := Some u, cn_http_status := 0\<rparr>)"
    if "cn_parse c = cut_line m u rest" for c
    unfolding take_uri_def that path Let_def using u(1) by simp
  have "first_line con ?i ?f 2 0 (length m + 1) = (case take_version ?c proto11 of Inl con \<Rightarrow> Inl con
      | Inr con \<Rightarrow> (case take_uri con (length m + 1) ?f of Inl con \<Rightarrow> Inl con | Inr con \<Rightarrow> Inr (con, ?i + 2)))"
    unfolding first_line_def Let_def cut p2 meth proto using m(1) by (simp only: if_False not_True_eq_False simp_thms)
  also have "\<dots> = Inr ((?c\<lparr>rq_version := HTTP_VERSION_1_1\<rparr>)\<lparr>rq_uri := Some u, rq_orig_uri := Some u, cn_http_status := 0\<rparr>, ?i + 2)"
  proof -
    have "cn_parse (?c\<lparr>rq_version := HTTP_VERSION_1_1\<rparr>) = cut_line m u rest" by simp
    from tu [OF this] show ?thesis unfolding tv sum.case by (simp only: sum.case)
  qed
  finally show ?thesis by (simp add: cut_line_def)
qed

lemma byte_char_inverse: "char_byte (byte_char c) = c"
proof -
  have "unat c < 256" using unsigned_less [of c] by simp
  then show ?thesis by (simp add: char_byte_def byte_char_def)
qed

lemma method_bytes:
  assumes "get_http_method_key (map byte_char m) \<noteq> -1"
  shows "m \<noteq> []" "0 \<notin> set m" "13 \<notin> set m" "32 \<notin> set m"
proof -
  have all: "\<forall>(k, n) \<in> set http_methods. n \<noteq> [] \<and> 0 \<notin> set (map char_byte n) \<and> 13 \<notin> set (map char_byte n) \<and> 32 \<notin> set (map char_byte n)"
    by code_simp
  have "(get_http_method_key (map byte_char m), map byte_char m) \<in> set http_methods"
    using get_key_in assms unfolding get_http_method_key_def by blast
  moreover have "map char_byte (map byte_char m) = m" by (simp add: comp_def byte_char_inverse)
  ultimately show "m \<noteq> []" "0 \<notin> set m" "13 \<notin> set m" "32 \<notin> set m" using all by fastforce+
qed

lemma request_line_good:
  assumes p: "cn_parse con = m @ [32] @ u @ [32] @ proto11 @ [13, 10] @ rest"
    and m: "get_http_method_key (map byte_char m) \<noteq> -1"
    and u: "list_all request_uri_is_valid_char u" "hd u = 47" "u \<noteq> []" and v: "cn_allow_http11 con"
  shows "request_line con 0 0 0 0 0 =
    Inr (Inr (con\<lparr>cn_parse := cut_line m u rest, rq_line := Some (m @ [32] @ u @ [32] @ proto11), rq_method := get_http_method_key (map byte_char m),
      rq_version := HTTP_VERSION_1_1, rq_uri := Some u, rq_orig_uri := Some u, cn_http_status := 0\<rparr>,
      length (cut_line m u [])))"
proof -
  have uc: "13 \<notin> set u" "32 \<notin> set u" using u(1) by (auto simp: list_all_iff request_uri_is_valid_char_def)
  have pc: "13 \<notin> set proto11" "32 \<notin> set proto11" by code_simp+
  note mc = method_bytes [OF m]
  let ?a = "length m" and ?b = "length m + 1 + length u"
  have p': "cn_parse con = (m @ [32] @ u @ [32]) @ proto11 @ 13 # 10 # rest" using p by simp
  note s1 = line_text [of con "[]" m 32 "u @ [32] @ proto11 @ [13, 10] @ rest" 0]
  note s2 = line_text [of con "m @ [32]" u 32 "proto11 @ [13, 10] @ rest" "?a + 1"]
  note s3 = line_text [OF p' pc, of "?b + 1"]
  have "request_line con 0 0 0 0 0 = request_line con ?a 0 0 0 0" using s1(1) p mc by simp
  also have "\<dots> = request_line con (?a + 1) (?a + 1) 1 0 0"
    using s1(2,3) p mc by (subst request_line.simps) simp
  also have "\<dots> = request_line con ?b (?a + 1) 1 0 0" using s2(1) p uc by simp
  also have "\<dots> = request_line con (?b + 1) (?b + 1) 2 0 (?a + 1)"
    using s2(2,3) p uc by (subst request_line.simps) simp
  also have "\<dots> = request_line con (?b + 1 + length proto11) (?b + 1) 2 0 (?a + 1)" using s3(1) by simp
  also have "\<dots> = Inr (first_line con (?b + 1 + length proto11) (?b + 1) 2 0 (?a + 1))"
  proof -
    have "cn_parse con ! (?b + 1 + length proto11) = 13" "?b + 1 + length proto11 < length (cn_parse con)" using s3(2,3) by simp_all
    moreover have "get_at (cn_parse con) (int (?b + 1 + length proto11) + 1) = Inr 10"
    proof -
      have "nat (int (?b + 1 + length proto11) + 1) = length (m @ [32] @ u @ [32] @ proto11 @ [13])" by simp
      moreover have "cn_parse con = (m @ [32] @ u @ [32] @ proto11 @ [13]) @ 10 # rest" using p by simp
      moreover have "((m @ [32] @ u @ [32] @ proto11 @ [13]) @ 10 # rest) ! length (m @ [32] @ u @ [32] @ proto11 @ [13]) = 10"
        by (rule nth_append_length)
      ultimately show ?thesis unfolding get_at_def by simp
    qed
    ultimately show ?thesis by (subst request_line.simps) (simp add: Let_def)
  qed
  finally show ?thesis using first_line_good [OF p m mc(2) u v] by (simp add: add.commute add.left_commute)
qed

section \<open>A whole request\<close>

definition render :: "bytes \<Rightarrow> bytes \<Rightarrow> (bytes \<times> bytes) list \<Rightarrow> bytes" where
  "render m u hs = m @ [32] @ u @ [32] @ proto11 @ [13, 10] @ concat (map render_line hs) @ [13, 10]"

lemma fold_ins_keys: "e \<in> set (fold ins_entry ds es) \<Longrightarrow> \<exists>d \<in> set ds \<union> set es. du_key e = du_key d"
proof (induction ds arbitrary: es)
  case (Cons d ds)
  have "\<exists>y \<in> insert d (set es). du_key x = du_key y" if "x \<in> set (ins_entry d es)" for x
    using that by (induction es) (auto split: if_splits)
  then show ?case using Cons.IH [of "ins_entry d es"] Cons.prems by fastforce
qed auto

lemma ins_entry_nth:
  "n < length es \<Longrightarrow> \<not> same_key (text_of (du_key d)) (es ! n) \<Longrightarrow> ins_entry d es ! n = es ! n"
proof (induction es arbitrary: n)
  case (Cons e es)
  then show ?case by (cases n) auto
qed simp

lemma ins_entry_grows: "length es \<le> length (ins_entry d es)"
  by (induction es) auto

lemma fold_ins_nth:
  "n < length es \<Longrightarrow> \<forall>d \<in> set ds. \<not> same_key (text_of (du_key d)) (es ! n) \<Longrightarrow> fold ins_entry ds es ! n = es ! n"
proof (induction ds arbitrary: es)
  case (Cons d ds)
  then show ?case using ins_entry_nth [of n es d] ins_entry_grows [of es d] by simp
qed simp

definition is_host :: "bytes \<Rightarrow> bool" where
  "is_host k \<longleftrightarrow> same_text k (map char_byte ''Host'')"

lemma quiet_not_host: "quiet j \<Longrightarrow> is_host k \<Longrightarrow> \<not> same_text j k"
  by (auto simp: quiet_def is_host_def same_text_def header_names_def)

lemma header_key [simp]: "du_key (header (k, v)) = Some k" "du_value (header (k, v)) = DString (Some v)"
  by (simp_all add: header_def)

lemma same_key_header: "same_key k (header (j, v)) \<longleftrightarrow> same_text j k"
  by (simp add: same_key_def same_text_def text_of_def)

lemma elem_value_repr: "arr_repr a es \<Longrightarrow> n < length es \<Longrightarrow> es ! n = header (k, v) \<Longrightarrow> elem_value a n = Inr (Some v)"
proof -
  assume r: "arr_repr a es" and n: "n < length es" "es ! n = header (k, v)"
  then have "ar_data a ! n = Some (header (k, v))" "n < length (ar_data a)"
    unfolding arr_repr_def by (metis nth_map nth_take, simp)
  then show ?thesis by (simp add: elem_value_def deref_def)
qed

lemma host_field:
  assumes "heads con es" "is_host k" "plain_key k" "length es < INT_MAX" "rq_host con = NullP" "\<forall>e \<in> set es. \<not> same_key k e"
  shows "\<exists>a. header_field al srv con k v ka cl = Inr (srv, Inr (con\<lparr>rq_headers := a, rq_host := Elem (length es) 0\<rparr>, ka, cl)) \<and>
    heads (con\<lparr>rq_headers := a\<rparr>) (es @ [header (k, v)])"
proof -
  have "name_chain al k header_names = Some HHost"
    using header_name_recognised [OF plain_key_length [OF assms(3)], of al HHost] assms(2)
    by (auto simp: is_host_def header_names_def)
  then have act: "header_action al srv (con\<lparr>rq_headers := a\<rparr>) k v ka cl = Inr (AStore (con\<lparr>rq_headers := a\<rparr>) PHost 0, srv, ka, cl)" for a
    using assms(5) by (simp add: header_action_def only_once_def)
  have ins: "ins_entry (header (k, v)) es = es @ [header (k, v)]"
    using assms(6) by (intro ins_entry_new) (simp add: text_of_def)
  show ?thesis using stored_field [OF assms(1,3,4) act] by (simp add: ins stored_at_def)
qed

lemma host_line:
  assumes p: "cn_parse con = pre @ render_line (k, v) @ rest" and good: "line_good (k, v)" and h: "at_line h (length pre) ka cl"
    and k: "is_host k" "plain_key k" and c: "heads con es" "length es < INT_MAX" "rq_host con = NullP" "\<forall>e \<in> set es. \<not> same_key k e"
  shows "\<exists>a pre' h'. head_loop e srv con h =
      head_loop e srv (con\<lparr>rq_headers := a, rq_host := Elem (length es) 0, cn_parse := pre' @ rest\<rparr>) h' \<and>
    length pre' = length pre + length (render_line (k, v)) \<and> heads (con\<lparr>rq_headers := a\<rparr>) (es @ [header (k, v)]) \<and>
    at_line h' (length pre') ka cl"
proof -
  let ?p = "pre @ k @ [58, 32] @ v @ [0, 0]"
  let ?c = "con\<lparr>cn_parse := ?p @ rest\<rparr>"
  let ?h = "after_line h (length pre + length k + length v + 4) (length pre) (length k) ka cl"
  have lenp: "length ?p = length pre + length k + length v + 4" by simp
  obtain a where a: "header_field (pe_al e) srv ?c k v ka cl = Inr (srv, Inr (?c\<lparr>rq_headers := a, rq_host := Elem (length es) 0\<rparr>, ka, cl))"
      "heads (?c\<lparr>rq_headers := a\<rparr>) (es @ [header (k, v)])"
    using host_field [of ?c es k "pe_al e" srv v ka cl] k c by auto
  have order: "?c\<lparr>rq_headers := a, rq_host := Elem (length es) 0\<rparr> = con\<lparr>rq_headers := a, rq_host := Elem (length es) 0, cn_parse := ?p @ rest\<rparr>"
    by (cases con) simp
  have "head_loop e srv con h = head_loop e srv (?c\<lparr>rq_headers := a, rq_host := Elem (length es) 0\<rparr>) ?h"
    using head_line [OF p good, of h e srv] h a(1) by (simp add: at_line_def)
  then have "head_loop e srv con h = head_loop e srv (con\<lparr>rq_headers := a, rq_host := Elem (length es) 0, cn_parse := ?p @ rest\<rparr>) ?h"
    unfolding order .
  moreover have "at_line ?h (length ?p) ka cl" using at_after_line [of h "length ?p"] unfolding lenp by simp
  moreover have "length ?p = length pre + length (render_line (k, v))" by (simp add: render_line_def)
  moreover have "heads (con\<lparr>rq_headers := a\<rparr>) (es @ [header (k, v)])" using a(2) by (simp add: heads_def)
  ultimately show ?thesis by blast
qed

lemma fold_ins_length: "length es \<le> length (fold ins_entry ds es)" "length (fold ins_entry ds es) \<le> length es + length ds"
proof (induction ds arbitrary: es)
  case (Cons d ds)
  case 1
  then show ?case using Cons(1) [of "ins_entry d es"] ins_entry_grows [of es d] by simp
next
  case (Cons d ds)
  case 2
  then show ?case using Cons(2) [of "ins_entry d es"] ins_entry_length [of d es] by simp
qed simp_all

lemma quiet_entries:
  assumes "\<forall>kv \<in> set hs. quiet (fst kv)" "is_host k" "e \<in> set (fold ins_entry (map header hs) [])"
  shows "\<not> same_key k e"
proof -
  obtain d where "d \<in> set (map header hs)" "du_key e = du_key d" using fold_ins_keys [OF assms(3)] by auto
  then obtain j w where "(j, w) \<in> set hs" "du_key e = Some j" by auto
  then show ?thesis
    using quiet_not_host [OF _ assms(2), of j] assms(1) by (fastforce simp: same_key_def same_text_def text_of_def)
qed

lemma host_entry:
  assumes q: "\<forall>kv \<in> set hs2. quiet (fst kv)" and k: "is_host k"
  shows "fold ins_entry (map header hs2) (es @ [header (k, v)]) ! length es = header (k, v)"
    "length es < length (fold ins_entry (map header hs2) (es @ [header (k, v)]))"
proof -
  have "\<not> same_key (text_of (du_key d)) (header (k, v))" if d: "d \<in> set (map header hs2)" for d
  proof -
    obtain j w where "d = header (j, w)" "quiet j" using d q by auto
    then show ?thesis using quiet_not_host [OF _ k, of j] by (auto simp: same_key_header text_of_def same_text_def)
  qed
  then show "fold ins_entry (map header hs2) (es @ [header (k, v)]) ! length es = header (k, v)"
    using fold_ins_nth [of "length es" "es @ [header (k, v)]" "map header hs2"] by simp
  show "length es < length (fold ins_entry (map header hs2) (es @ [header (k, v)]))"
    using fold_ins_length(1) [of "es @ [header (k, v)]" "map header hs2"] by simp
qed

lemma head_lines_good:
  assumes p: "cn_parse con = pre @ concat (map render_line (hs1 @ (hk, hv) # hs2)) @ [13, 10] @ rest"
    and c: "heads con []" "rq_host con = NullP" and h: "at_line h (length pre) ka cl"
    and hs: "\<forall>kv \<in> set (hs1 @ hs2). line_good kv \<and> quiet (fst kv)" "line_good (hk, hv)" "is_host hk" "plain_key hk"
    and room: "length (hs1 @ (hk, hv) # hs2) \<le> INT_MAX"
  shows "\<exists>con'. head_loop e srv con h = Inr (srv, Inr (con', length pre + length (concat (map render_line (hs1 @ (hk, hv) # hs2))) + 2, ka, cl)) \<and>
    line_fields con' = line_fields con \<and> heads con' (fold ins_entry (map header (hs1 @ (hk, hv) # hs2)) []) \<and>
    host_text con' = Inr (Some hv) \<and> rq_host con' \<noteq> NullP \<and> rq_content_length con' = rq_content_length con"
proof -
  let ?l = "render_line (hk, hv)" and ?t = "concat (map render_line hs2) @ ([13, 10] @ rest)"
  let ?es = "fold ins_entry (map header hs1) []"
  have p1: "cn_parse con = pre @ concat (map render_line hs1) @ (?l @ ?t)" using p by simp
  have q: "\<forall>kv \<in> set hs1. line_good kv \<and> quiet (fst kv)" "\<forall>kv \<in> set hs2. line_good kv \<and> quiet (fst kv)" using hs(1) by auto
  have room1: "length ([] :: data_unset list) + length hs1 \<le> INT_MAX" "length ?es < INT_MAX"
    "length (?es @ [header (hk, hv)]) + length hs2 \<le> INT_MAX"
    using room fold_ins_length(2) [of "map header hs1" "[]"] by simp_all
  obtain a1 pre1 h1 where r1: "head_loop e srv con h = head_loop e srv (con\<lparr>rq_headers := a1, cn_parse := pre1 @ ?l @ ?t\<rparr>) h1"
      "length pre1 = length pre + length (concat (map render_line hs1))" "heads (con\<lparr>rq_headers := a1\<rparr>) ?es" "at_line h1 (length pre1) ka cl"
    using quiet_lines [OF p1 c(1) h q(1) room1(1), of e srv] by blast
  let ?c1 = "con\<lparr>rq_headers := a1, cn_parse := pre1 @ ?l @ ?t\<rparr>"
  have other: "\<forall>e \<in> set ?es. \<not> same_key hk e" using quiet_entries [of hs1 hk] q(1) hs(3) by blast
  have c1: "cn_parse ?c1 = pre1 @ ?l @ ?t" "heads ?c1 ?es" "rq_host ?c1 = NullP" using r1(3) c(2) by (simp_all add: heads_def)
  obtain a2 pre2 h2 where r2: "head_loop e srv ?c1 h1 =
      head_loop e srv (?c1\<lparr>rq_headers := a2, rq_host := Elem (length ?es) 0, cn_parse := pre2 @ ?t\<rparr>) h2"
      "length pre2 = length pre1 + length ?l" "heads (?c1\<lparr>rq_headers := a2\<rparr>) (?es @ [header (hk, hv)])" "at_line h2 (length pre2) ka cl"
    using host_line [OF c1(1) hs(2) r1(4) hs(3,4) c1(2) room1(2) c1(3) other, of e srv] by blast
  let ?c2 = "?c1\<lparr>rq_headers := a2, rq_host := Elem (length ?es) 0, cn_parse := pre2 @ ?t\<rparr>"
  have c2: "cn_parse ?c2 = pre2 @ concat (map render_line hs2) @ ([13, 10] @ rest)" "heads ?c2 (?es @ [header (hk, hv)])"
    using r2(3) by (simp_all add: heads_def)
  obtain a3 pre3 h3 where r3: "head_loop e srv ?c2 h2 = head_loop e srv (?c2\<lparr>rq_headers := a3, cn_parse := pre3 @ ([13, 10] @ rest)\<rparr>) h3"
      "length pre3 = length pre2 + length (concat (map render_line hs2))"
      "heads (?c2\<lparr>rq_headers := a3\<rparr>) (fold ins_entry (map header hs2) (?es @ [header (hk, hv)]))" "at_line h3 (length pre3) ka cl"
    using quiet_lines [OF c2 r2(4) q(2) room1(3), of e srv] by blast
  let ?c3 = "?c2\<lparr>rq_headers := a3, cn_parse := pre3 @ ([13, 10] @ rest)\<rparr>"
  let ?c4 = "?c3\<lparr>cn_parse := pre3 @ [0, 0] @ rest\<rparr>"
  have fin: "head_loop e srv con h = Inr (srv, Inr (?c4, length pre3 + 2, ka, cl))"
    using r1(1) r2(1) r3(1) end_line [OF _ r3(4), of ?c3 rest e srv] by simp
  have "ins_entry (header (hk, hv)) ?es = ?es @ [header (hk, hv)]" using other by (intro ins_entry_new) (simp add: text_of_def)
  then have all: "fold ins_entry (map header (hs1 @ (hk, hv) # hs2)) [] = fold ins_entry (map header hs2) (?es @ [header (hk, hv)])" by simp
  have "elem_value a3 (length ?es) = Inr (Some hv)"
    using elem_value_repr host_entry [of hs2 hk ?es hv] q(2) hs(3) r3(3) by (auto simp: heads_def)
  then show ?thesis
    using fin r3(3) all r1(2) r2(2) r3(2) by (intro exI [of _ ?c4]) (simp add: host_text_def heads_def line_fields_def)
qed

lemma checks_good:
  assumes "host_text con = Inr (Some hv)" "hv \<noteq> []" "request_check_hostname (Some hv) = 0"
    "rq_version con = HTTP_VERSION_1_1" "rq_method con \<noteq> HTTP_METHOD_POST"
  shows "request_checks srv con HTTP_CONNECTION_UNSET False = Inr (0, con\<lparr>cn_keep_alive := True\<rparr>)"
  using assms by (simp add: request_checks_def check_keep_alive_def check_method_def check_length_def Let_def)

definition head_start :: "nat \<Rightarrow> head_st" where
  "head_start i = \<lparr>hd_i = i, hd_first = i, hd_is_key = True, hd_key_len = 0, hd_in_folding = False, hd_value = 0, hd_key = None,
     hd_keep_alive_set = HTTP_CONNECTION_UNSET, hd_con_length_set = False\<rparr>"

lemma parse_steps:
  assumes "request_line (con\<lparr>cn_parse := parse_text con @ [0]\<rparr>) 0 0 0 0 0 = Inr (Inr (con1, i))" "rq_uri con1 \<noteq> Some []"
    "head_loop e srv con1 (head_start i) = Inr (srv, Inr (con2, j, ka, cl))"
    "request_checks srv (con2\<lparr>cn_header_len := j\<rparr>) ka cl = Inr (r, con3)"
  shows "http_request_parse e srv con = Inr (r, srv, con3)"
  using assms by (simp add: http_request_parse_def Let_def parse_text_def head_start_def)

text \<open>The lines of a request that the parser takes as they are.\<close>

definition lines_good :: "(bytes \<times> bytes) list \<Rightarrow> bytes \<times> bytes \<Rightarrow> (bytes \<times> bytes) list \<Rightarrow> bool" where
  "lines_good hs1 host hs2 \<longleftrightarrow> (\<forall>kv \<in> set (hs1 @ hs2). line_good kv \<and> quiet (fst kv)) \<and>
     line_good host \<and> is_host (fst host) \<and> plain_key (fst host) \<and> request_check_hostname (Some (snd host)) = 0 \<and>
     length (hs1 @ host # hs2) \<le> INT_MAX"

definition fresh_con :: "con \<Rightarrow> bool" where
  "fresh_con con \<longleftrightarrow> rq_headers con = array_init \<and> rq_host con = NullP \<and> cn_allow_http11 con"

lemma parse_good:
  assumes con: "fresh_con con" "cn_request con = render m u (hs1 @ host # hs2) @ body"
    and m: "get_http_method_key (map byte_char m) \<noteq> -1" "get_http_method_key (map byte_char m) \<noteq> HTTP_METHOD_POST"
    and u: "list_all request_uri_is_valid_char u" "hd u = 47" "u \<noteq> []" and good: "lines_good hs1 host hs2"
  shows "\<exists>con'. http_request_parse e srv con = Inr (0, srv, con') \<and>
    line_fields con' = (Some u, Some u, get_http_method_key (map byte_char m), HTTP_VERSION_1_1, 0) \<and>
    cn_keep_alive con' \<and> cn_header_len con' = length (render m u (hs1 @ host # hs2)) \<and>
    host_text con' = Inr (Some (snd host)) \<and> heads con' (fold ins_entry (map header (hs1 @ host # hs2)) [])"
proof -
  obtain hk hv where host: "host = (hk, hv)" by (cases host)
  let ?hs = "hs1 @ (hk, hv) # hs2" and ?m = "get_http_method_key (map byte_char m)"
  let ?rest = "concat (map render_line ?hs) @ [13, 10] @ (body @ [0])"
  have pt: "parse_text con = cn_request con"
    using con(2) method_bytes [OF m(1)] by (cases m) (auto simp: parse_text_def render_def)
  have "cn_parse (con\<lparr>cn_parse := parse_text con @ [0]\<rparr>) = m @ [32] @ u @ [32] @ proto11 @ [13, 10] @ ?rest"
    using con(2) pt by (simp add: render_def host)
  note line = request_line_good [OF this m(1) u]
  let ?c1 = "con\<lparr>cn_parse := cut_line m u ?rest, rq_line := Some (m @ [32] @ u @ [32] @ proto11), rq_method := ?m,
      rq_version := HTTP_VERSION_1_1, rq_uri := Some u, rq_orig_uri := Some u, cn_http_status := 0\<rparr>"
  let ?i = "length (cut_line m u [])"
  have line1: "request_line (con\<lparr>cn_parse := parse_text con @ [0]\<rparr>) 0 0 0 0 0 = Inr (Inr (?c1, ?i))"
    using line con(1) by (simp add: fresh_con_def)
  have c1: "cn_parse ?c1 = cut_line m u [] @ ?rest" "heads ?c1 []" "rq_host ?c1 = NullP"
    using con(1) array_init_repr by (simp_all add: cut_line_def heads_def fresh_con_def arr_new_def array_init_def)
  have g: "\<forall>kv \<in> set (hs1 @ hs2). line_good kv \<and> quiet (fst kv)" "line_good (hk, hv)" "is_host hk" "plain_key hk"
    "request_check_hostname (Some hv) = 0" "length ?hs \<le> INT_MAX"
    using good by (simp_all add: lines_good_def host)
  have "at_line (head_start ?i) ?i HTTP_CONNECTION_UNSET False" by (simp add: at_line_def head_start_def)
  from head_lines_good [OF c1 this g(1-4,6), of e srv]
  obtain c2 where c2: "head_loop e srv ?c1 (head_start ?i) =
      Inr (srv, Inr (c2, ?i + length (concat (map render_line ?hs)) + 2, HTTP_CONNECTION_UNSET, False))"
      "line_fields c2 = line_fields ?c1" "heads c2 (fold ins_entry (map header ?hs) [])" "host_text c2 = Inr (Some hv)"
    by blast
  let ?c3 = "c2\<lparr>cn_header_len := ?i + length (concat (map render_line ?hs)) + 2\<rparr>"
  have f: "line_fields c2 = (Some u, Some u, ?m, HTTP_VERSION_1_1, 0)" using c2(2) by (simp add: line_fields_def)
  have "request_checks srv ?c3 HTTP_CONNECTION_UNSET False = Inr (0, ?c3\<lparr>cn_keep_alive := True\<rparr>)"
    using c2(4) g(2,5) m(2) f by (intro checks_good [of _ hv]) (simp_all add: line_good_def line_fields_def)
  from parse_steps [OF line1 _ c2(1) this] u(3)
  have "http_request_parse e srv con = Inr (0, srv, ?c3\<lparr>cn_keep_alive := True\<rparr>)" by simp
  moreover have "?i + length (concat (map render_line ?hs)) + 2 = length (render m u ?hs)"
    by (simp add: cut_line_def render_def)
  ultimately show ?thesis
    using f c2(3,4) by (intro exI [of _ "?c3\<lparr>cn_keep_alive := True\<rparr>"]) (simp add: host line_fields_def heads_def)
qed

text \<open>
  C25. A request that is accepted (status 0) is sane: its path is not empty and has no blanks or control
  characters, method and version are known, a \<open>Host\<close> passed the check and is there for HTTP/1.1, and
  a body is announced only by a length in range and not for \<open>GET\<close> or \<open>HEAD\<close>.
\<close>

theorem accepted_request_is_sane:
  assumes "http_request_header_finished (cn_request con)" "http_request_parse e srv con = Inr (r, srv', con')" "cn_http_status con' = 0"
  shows "(\<exists>u. rq_uri con' = Some u \<and> u \<noteq> [] \<and> list_all request_uri_is_valid_char u) \<and>
    get_http_method_name (rq_method con') \<noteq> None \<and>
    (rq_version con' = HTTP_VERSION_1_0 \<or> rq_version con' = HTTP_VERSION_1_1) \<and>
    (\<exists>host. host_text con' = Inr host \<and> request_check_hostname host = 0 \<and>
       (rq_version con' = HTTP_VERSION_1_1 \<longrightarrow> host \<noteq> None \<and> host \<noteq> Some [])) \<and>
    (r = 0 \<or> r = 1 \<and> 0 < rq_content_length con' \<and> rq_content_length con' \<le> SSIZE_MAX \<and>
       (sv_max_request_size srv' = 0 \<or> rq_content_length con' div 1024 \<le> sv_max_request_size srv') \<and>
       rq_method con' \<noteq> HTTP_METHOD_GET \<and> rq_method con' \<noteq> HTTP_METHOD_HEAD)"
proof -
  let ?c = "con\<lparr>cn_parse := parse_text con @ [0]\<rparr>"
  obtain q where q: "request_line ?c 0 0 0 0 0 = Inr q"
    using assms(2) by (auto simp: http_request_parse_def Let_def parse_text_def bindR_eq_Inr)
  note line = request_line_cases [OF q]
  have "\<exists>con1 i. q = Inr (con1, i)"
    using assms(2,3) q line by (cases q) (auto simp: http_request_parse_def Let_def parse_text_def)
  then obtain con1 i where q1: "q = Inr (con1, i)" by blast
  have ok: "line_ok con1" using line q1 finished_crlf [OF assms(1)] by simp
  have uri: "rq_uri con1 \<noteq> Some []"
    using assms(2,3) q q1 by (auto simp: http_request_parse_def Let_def parse_text_def)
  then obtain h srv1 w where w: "head_loop e srv con1 h = Inr (srv1, w)"
      and rest: "(case w of Inl con \<Rightarrow> Inr (0, srv1, con)
         | Inr (con, i, ka, cl) \<Rightarrow> bindR (request_checks srv1 (con\<lparr>cn_header_len := i\<rparr>) ka cl) (\<lambda>(r, con). Inr (r, srv1, con))) =
         Inr (r, srv', con')"
    using assms(2) q q1 by (auto simp: http_request_parse_def Let_def parse_text_def bindR_eq_Inr)
  note head = head_loop_fields [OF w]
  obtain con2 j ka cl where w1: "w = Inr (con2, j, ka, cl)"
    using rest head assms(3) by (cases w) auto
  have chk: "request_checks srv1 (con2\<lparr>cn_header_len := j\<rparr>) ka cl = Inr (r, con')" "srv' = srv1"
    using rest w1 by (auto simp: bindR_eq_Inr)
  note spec = request_checks_spec [OF chk(1) assms(3)]
  have same: "line_fields con' = line_fields con1" using spec(1) head w1 by (simp add: line_fields_def)
  then show ?thesis
    using ok uri spec(2,3) chk(2) by (auto simp: line_ok_def line_fields_def)
qed

text \<open>The smallest request of HTTP/1.1, and what the parser makes of it.\<close>

abbreviation small_host :: "bytes \<times> bytes" where
  "small_host \<equiv> (map char_byte ''Host'', map char_byte ''iitb'')"

lemma small_good:
  "get_http_method_key (map byte_char (map char_byte ''GET'')) = HTTP_METHOD_GET" "list_all request_uri_is_valid_char [47]" "lines_good [] small_host []"
proof -
  show "get_http_method_key (map byte_char (map char_byte ''GET'')) = HTTP_METHOD_GET" "list_all request_uri_is_valid_char [47]" by code_simp+
  have "line_good small_host" "is_host (fst small_host)" "request_check_hostname (Some (snd small_host)) = 0" by code_simp+
  moreover have "plain_key (fst small_host)" unfolding fst_conv by (rule plain_keyI; code_simp)
  ultimately show "lines_good [] small_host []" by (simp add: lines_good_def INT_MAX_def)
qed

definition small_con :: con where
  "small_con = \<lparr>cn_request_count = 1, cn_request = render (map char_byte ''GET'') [47] [small_host], cn_parse = [], cn_http_status = 0,
     cn_keep_alive = False, cn_resp_keep_alive = False, cn_header_len = 0, cn_allow_http11 = True, rq_line = None, rq_method = -1,
     rq_version = -1, rq_uri = None, rq_orig_uri = None, rq_headers = array_init, rq_content_length = 0, rq_host = NullP,
     rq_content_type = NullP, rq_if_modified_since = NullP, rq_if_none_match = NullP, rq_range = NullP\<rparr>"

theorem accepted_request_is_sane_witness:
  "\<exists>con'. http_request_parse \<lparr>pe_al = True, pe_moves = (\<lambda>_ _. False)\<rparr> \<lparr>sv_split_vals = array_init, sv_max_request_size = 0\<rparr> small_con =
      Inr (0, \<lparr>sv_split_vals = array_init, sv_max_request_size = 0\<rparr>, con') \<and>
    (\<exists>u. rq_uri con' = Some u \<and> u \<noteq> [] \<and> list_all request_uri_is_valid_char u) \<and> get_http_method_name (rq_method con') \<noteq> None"
proof -
  let ?e = "\<lparr>pe_al = True, pe_moves = (\<lambda>_ _. False)\<rparr>" and ?s = "\<lparr>sv_split_vals = array_init, sv_max_request_size = 0\<rparr>"
  have c: "fresh_con small_con" "cn_request small_con = render (map char_byte ''GET'') [47] ([] @ small_host # []) @ []"
    by (simp_all add: fresh_con_def small_con_def)
  have fin: "http_request_header_finished (cn_request small_con)" unfolding small_con_def con.simps by code_simp
  obtain con' where p: "http_request_parse ?e ?s small_con = Inr (0, ?s, con')" "cn_http_status con' = 0"
    using parse_good [OF c _ _ _ _ _ small_good(3), of ?e ?s] small_good(1,2)
    by (auto simp: line_fields_def HTTP_METHOD_GET_def HTTP_METHOD_POST_def)
  show ?thesis using accepted_request_is_sane [OF fin p] p(1) by blast
qed



definition byte_range :: "bytes \<Rightarrow> bool" where
  "byte_range v \<longleftrightarrow> map to_lower_byte (take 6 v) = map char_byte ''bytes='' \<and> 45 \<in> set (drop 6 v)"

text \<open>The key of the header \<open>Range\<close>.\<close>

abbreviation range_key :: bytes where
  "range_key \<equiv> map char_byte ''Range''"

lemma range_action:
  assumes "rq_range con = NullP"
  shows "header_action al srv (con\<lparr>rq_headers := a\<rparr>) range_key v ka cl =
    Inr (AStore (con\<lparr>rq_headers := a\<rparr>) (if byte_range v then PRange else PNone) (if byte_range v then 6 else 0), srv, ka, cl)"
proof -
  have "length range_key < 2 ^ 31" by simp
  then have "name_chain al range_key header_names = Some HRange"
    using header_name_recognised [of range_key al HRange] by (auto simp: same_text_def header_names_def)
  then show ?thesis using assms by (simp add: header_action_def do_range_def byte_range_def)
qed

text \<open>
  The pointer to the range of a request dangles if a header \<open>Range\<close> that is no byte range is followed
  by one that is: the pointer is set to the second one, which is then merged into the first and freed.
\<close>

lemma second_range_is_freed:
  assumes "fresh_con con" "rq_range con = NullP" "\<not> byte_range v" "byte_range w"
  shows "\<exists>con1 con2. header_field al srv con range_key v ka cl = Inr (srv, Inr (con1, ka, cl)) \<and>
    header_field al srv con1 range_key w ka cl = Inr (srv, Inr (con2, ka, cl)) \<and>
    ptr_text (rq_headers con2) (rq_range con2) = Inl UseAfterFree"
proof -
  have k: "plain_key range_key" by (rule plain_keyI; code_simp)
  have c: "heads con []" using assms(1) array_init_repr by (simp add: heads_def fresh_con_def arr_new_def array_init_def)
  have max: "0 < INT_MAX" "1 < INT_MAX" by (simp_all add: INT_MAX_def)
  have dup: "ins_entry (header (range_key, w)) [header (range_key, v)] =
      [insert_dup (header (range_key, v)) (header (range_key, w))]"
    by (simp add: same_key_header same_text_def text_of_def)
  obtain a where a: "header_field al srv con range_key v ka cl = Inr (srv, Inr (con\<lparr>rq_headers := a\<rparr>, ka, cl))"
      "heads (con\<lparr>rq_headers := a\<rparr>) [header (range_key, v)]"
    using stored_field [OF c k _ range_action [OF assms(2)], of al srv v ka cl] assms(3) max by (auto simp: Let_def)
  have r: "rq_range (con\<lparr>rq_headers := a\<rparr>) = NullP" using assms(2) by simp
  have room: "length [header (range_key, v)] < INT_MAX" using max by simp
  have old: "\<not> length [header (range_key, v)] < length (ins_entry (header (range_key, w)) [header (range_key, v)])" unfolding dup by simp
  obtain b where "header_field al srv (con\<lparr>rq_headers := a\<rparr>) range_key w ka cl =
      Inr (srv, Inr (con\<lparr>rq_headers := a, rq_headers := b, rq_range := Dangling\<rparr>, ka, cl))"
    using stored_field [OF a(2) k room range_action [OF r], of al srv w ka cl] assms(4)
    unfolding stored_at_def if_not_P [OF old] by (simp only: if_True set_ptr.simps) blast
  then show ?thesis using a(1) by (intro exI conjI) (auto simp: ptr_text_def)
qed

lemma second_range_is_freed_example:
  "\<exists>con1 con2. header_field True \<lparr>sv_split_vals = array_init, sv_max_request_size = 0\<rparr> small_con range_key (map char_byte ''none'')
      HTTP_CONNECTION_UNSET False = Inr (\<lparr>sv_split_vals = array_init, sv_max_request_size = 0\<rparr>, Inr (con1, HTTP_CONNECTION_UNSET, False)) \<and>
    header_field True \<lparr>sv_split_vals = array_init, sv_max_request_size = 0\<rparr> con1 range_key (map char_byte ''bytes=0-1'')
      HTTP_CONNECTION_UNSET False = Inr (\<lparr>sv_split_vals = array_init, sv_max_request_size = 0\<rparr>, Inr (con2, HTTP_CONNECTION_UNSET, False)) \<and>
    ptr_text (rq_headers con2) (rq_range con2) = Inl UseAfterFree"
proof (rule second_range_is_freed)
  show "fresh_con small_con" "rq_range small_con = NullP" by (simp_all add: fresh_con_def small_con_def)
  show "\<not> byte_range (map char_byte ''none'')" "byte_range (map char_byte ''bytes=0-1'')" by code_simp+
qed

end
