(* ===== verification/Lt_Conn_Read.thy ===== *)
theory Lt_Conn_Read
  imports Lt_Chunk_Facts Lt_Request_Round
begin

text \<open>
  Reading from a client (\<open>connections.c\<close>): one \<open>read\<close> into a new chunk of the read queue, the search for
  the empty line that ends the header, which may lie across two chunks, and the copying of a body into
  memory or temporary files. The server is built without OpenSSL; what \<open>ioctl\<close>, \<open>read\<close>, \<open>write\<close>, \<open>open\<close>
  and \<open>mkstemp\<close> answer is a parameter, and descriptors written to or closed are returned as effects.
\<close>

section \<open>Connections\<close>

datatype connection_state =
    CON_STATE_CONNECT | CON_STATE_REQUEST_START | CON_STATE_READ | CON_STATE_REQUEST_END | CON_STATE_READ_POST
  | CON_STATE_HANDLE_REQUEST | CON_STATE_RESPONSE_START | CON_STATE_WRITE | CON_STATE_RESPONSE_END
  | CON_STATE_ERROR | CON_STATE_CLOSE

datatype connection_type = DIRECT | EXTERNAL

text \<open>
  The request, its status and the flags the parser sets are the record \<open>con\<close> of \<open>Lt_Request\<close>. Two bits of
  \<open>parsed_response\<close> are kept, those for \<open>Content-Length\<close> and \<open>Connection\<close>.
\<close>

record connection =
  cx_req :: con
  cx_id :: nat
  cx_state :: connection_state
  cx_fd :: int
  cx_is_ssl :: bool
  cx_is_readable :: bool
  cx_is_writable :: bool
  cx_read_idle_ts :: int
  cx_close_timeout_ts :: int
  cx_write_request_ts :: int
  cx_connection_start :: int
  cx_request_start :: int
  cx_loops_per_request :: nat
  cx_file_started :: bool
  cx_file_finished :: bool
  cx_got_response :: bool
  cx_write_queue :: chunkqueue
  cx_read_queue :: chunkqueue
  cx_content_queue :: chunkqueue
  cx_traffic_limit_reached :: bool
  cx_bytes_written :: int
  cx_bytes_written_cur_second :: int
  cx_bytes_read :: int
  cx_bytes_header :: int
  cx_has_content_length :: bool
  cx_has_connection :: bool
  cx_resp_headers :: array
  cx_resp_content_length :: int
  cx_chunked :: bool
  cx_uri_path :: bytes
  cx_physical_path :: bytes
  cx_mode :: connection_type
  cx_conf_error_handler :: bytes
  cx_errorfile_prefix :: bytes
  cx_server_tag :: bytes
  cx_kbytes_per_second :: int
  cx_global_kbytes_per_second :: int
  cx_max_read_idle :: int
  cx_max_keep_alive_idle :: int
  cx_max_write_idle :: int
  cx_error_handler :: bytes
  cx_error_handler_saved_status :: int
  cx_in_error_handler :: bool

definition connection_set_state :: "connection \<Rightarrow> connection_state \<Rightarrow> connection" where
  "connection_set_state con st = con\<lparr>cx_state := st\<rparr>"

definition set_status :: "connection \<Rightarrow> int \<Rightarrow> connection" where
  "set_status con st = con\<lparr>cx_req := (cx_req con)\<lparr>cn_http_status := st\<rparr>\<rparr>"

definition set_keep_alive :: "connection \<Rightarrow> bool \<Rightarrow> connection" where
  "set_keep_alive con b = con\<lparr>cx_req := (cx_req con)\<lparr>cn_keep_alive := b\<rparr>\<rparr>"

text \<open>The part of the configuration that is used here, as it is copied to a connection.\<close>

record specific_config =
  sc_allow_http11 :: bool
  sc_error_handler :: bytes
  sc_errorfile_prefix :: bytes
  sc_server_tag :: bytes
  sc_is_ssl :: bool
  sc_kbytes_per_second :: int
  sc_global_kbytes_per_second :: int
  sc_max_read_idle :: int
  sc_max_keep_alive_idle :: int
  sc_max_write_idle :: int

definition config_setup_connection :: "specific_config \<Rightarrow> connection \<Rightarrow> connection" where
  "config_setup_connection s con =
     con\<lparr>cx_req := (cx_req con)\<lparr>cn_allow_http11 := sc_allow_http11 s\<rparr>, cx_conf_error_handler := sc_error_handler s,
         cx_errorfile_prefix := sc_errorfile_prefix s, cx_server_tag := sc_server_tag s, cx_is_ssl := sc_is_ssl s,
         cx_kbytes_per_second := sc_kbytes_per_second s, cx_global_kbytes_per_second := sc_global_kbytes_per_second s,
         cx_max_read_idle := sc_max_read_idle s, cx_max_keep_alive_idle := sc_max_keep_alive_idle s,
         cx_max_write_idle := sc_max_write_idle s\<rparr>"

text \<open>\<open>calloc\<close> clears everything: the state is \<open>CON_STATE_CONNECT\<close>, the method 0, which is \<open>GET\<close>.\<close>

definition req_zero :: con where
  "req_zero = \<lparr>cn_request_count = 0, cn_request = [], cn_parse = [], cn_http_status = 0, cn_keep_alive = False,
     cn_resp_keep_alive = False, cn_header_len = 0, cn_allow_http11 = False, rq_line = None, rq_method = 0, rq_version = 0,
     rq_uri = None, rq_orig_uri = None, rq_headers = array_init, rq_content_length = 0, rq_host = NullP,
     rq_content_type = NullP, rq_if_modified_since = NullP, rq_if_none_match = NullP, rq_range = NullP\<rparr>"

definition connection_init :: "specific_config \<Rightarrow> buffer list \<Rightarrow> nat \<Rightarrow> connection" where
  "connection_init s tempdirs i = config_setup_connection s
     \<lparr>cx_req = req_zero, cx_id = i, cx_state = CON_STATE_CONNECT, cx_fd = 0, cx_is_ssl = False, cx_is_readable = False,
      cx_is_writable = False, cx_read_idle_ts = 0, cx_close_timeout_ts = 0, cx_write_request_ts = 0, cx_connection_start = 0,
      cx_request_start = 0, cx_loops_per_request = 0, cx_file_started = False, cx_file_finished = False,
      cx_got_response = False, cx_write_queue = chunkqueue_init, cx_read_queue = chunkqueue_init,
      cx_content_queue = chunkqueue_set_tempdirs chunkqueue_init tempdirs, cx_traffic_limit_reached = False, cx_bytes_written = 0,
      cx_bytes_written_cur_second = 0, cx_bytes_read = 0,
      cx_bytes_header = 0, cx_has_content_length = False, cx_has_connection = False, cx_resp_headers = array_init,
      cx_resp_content_length = 0, cx_chunked = False, cx_uri_path = [], cx_physical_path = [], cx_mode = DIRECT,
      cx_conf_error_handler = [], cx_errorfile_prefix = [], cx_server_tag = [], cx_kbytes_per_second = 0,
      cx_global_kbytes_per_second = 0, cx_max_read_idle = 0, cx_max_keep_alive_idle = 0, cx_max_write_idle = 0, cx_error_handler = [],
      cx_error_handler_saved_status = 0, cx_in_error_handler = False\<rparr>"

section \<open>One read\<close>

datatype sock_errno = EAGAIN | EINTR | EPIPE | ECONNRESET | EOTHER

text \<open>\<open>None\<close> of \<open>re_ioctl\<close>: the call fails. \<open>re_read n\<close> answers a \<open>read\<close> of at most \<open>n\<close> bytes.\<close>

record read_env =
  re_ioctl :: "int option"
  re_read :: "nat \<Rightarrow> sock_errno + bytes"

definition connection_handle_read :: "read_env \<Rightarrow> connection \<Rightarrow> (int \<times> connection) res" where
  "connection_handle_read e con =
     (if cx_is_ssl con then Inr (-1, con)
      else case re_ioctl e of
        None \<Rightarrow> Inr (-1, con)
      | Some toread \<Rightarrow>
          let (c, cq) = chunkqueue_get_unused_chunk (cx_read_queue con);
              b = buffer_prepare_copy (buffer_reset (ck_mem c)) (nat (toread + 1));
              queue = (\<lambda>b. chunkqueue_append_chunk cq (mem_chunk b c));
              blocked = con\<lparr>cx_read_queue := queue b, cx_is_readable := False\<rparr>
          in case re_read e (bf_size b - 1) of
               Inl err \<Rightarrow>
                 (case err of
                    EAGAIN \<Rightarrow> Inr (0, blocked)
                  | EINTR \<Rightarrow> Inr (0, blocked\<lparr>cx_is_readable := True\<rparr>)
                  | _ \<Rightarrow> Inr (-1, connection_set_state blocked CON_STATE_ERROR))
             | Inr d \<Rightarrow>
                 if d = [] then Inr (-2, blocked)
                 else bindR (blit 0 (d @ [0]) (bf_ptr b)) (\<lambda>m.
                        Inr (0, con\<lparr>cx_read_queue := queue (b\<lparr>bf_ptr := m, bf_used := length d + 1\<rparr>),
                                    cx_is_readable := (if length d < bf_size b - 1 then False else cx_is_readable con),
                                    cx_bytes_read := cx_bytes_read con + int (length d)\<rparr>)))"

text \<open>Empty chunks go to the unused ones; of several empty ones in a row behind the first chunk only every other.\<close>

fun clean_tail :: "chunk list \<Rightarrow> chunk list \<times> chunk list" where
  "clean_tail [] = ([], [])"
| "clean_tail [c] = ([c], [])"
| "clean_tail (c # d # cs) =
     (if bf_used (ck_mem d) = 0 then let (ks, rm) = clean_tail cs in (c # ks, rm @ [d])
      else let (ks, rm) = clean_tail (d # cs) in (c # ks, rm))"

fun clean_chunks :: "chunk list \<Rightarrow> chunk list \<times> chunk list" where
  "clean_chunks [] = ([], [])"
| "clean_chunks (c # cs) =
     (if bf_used (ck_mem c) = 0 then let (ks, rm) = clean_chunks cs in (ks, rm @ [c]) else clean_tail (c # cs))"

definition clean_queue :: "chunkqueue \<Rightarrow> chunkqueue" where
  "clean_queue cq =
     (let (ks, rm) = clean_chunks (cq_chunks cq)
      in cq\<lparr>cq_chunks := ks, cq_unused := rm @ cq_unused cq, cq_unused_chunks := cq_unused_chunks cq + length rm\<rparr>)"

section \<open>The end of the header\<close>

definition crlf2 :: bytes where
  "crlf2 = [13, 10, 13, 10]"

text \<open>The bytes in use behind the offset, the terminating NUL included.\<close>

definition chunk_view :: "chunk \<Rightarrow> bytes res" where
  "chunk_view c =
     bindR (checkR (0 \<le> ck_offset c \<and> ck_offset c \<le> int (bf_used (ck_mem c))) OutOfBounds) (\<lambda>_.
     bindR (read_cells (bf_used (ck_mem c)) (bf_ptr (ck_mem c))) (\<lambda>t. Inr (drop (nat (ck_offset c)) t)))"

text \<open>
  The inner loop at index \<open>i\<close>, with the bytes from there on: \<open>Some (d, n)\<close> if the header ends \<open>n\<close> bytes
  into this (\<open>d = 0\<close>) or the next chunk (\<open>d = 1\<close>).
\<close>

fun scan_text :: "chunk option \<Rightarrow> nat \<Rightarrow> bytes \<Rightarrow> (nat \<times> nat) option res" where
  "scan_text nxt i [] = Inr None"
| "scan_text nxt i (ch # s) =
     (if ch \<noteq> 13 then scan_text nxt (i + 1) s
      else if 4 \<le> length s
      then if take 4 (ch # s) = crlf2 then Inr (Some (0, i + 4)) else scan_text nxt (i + 1) s
      else case nxt of
        None \<Rightarrow> scan_text nxt (i + 1) s
      | Some n \<Rightarrow>
          if ck_type n = MEM_CHUNK \<and> bf_used (ck_mem n) > 4 - length s \<and> take (length s) (ch # s) = take (length s) crlf2
          then bindR (read_cells (4 - length s) (bf_ptr (ck_mem n))) (\<lambda>t.
                 if t = drop (length s) crlf2 then Inr (Some (1, 4 - length s)) else scan_text nxt (i + 1) s)
          else scan_text nxt (i + 1) s)"

fun find_header :: "nat \<Rightarrow> chunk list \<Rightarrow> (nat \<times> nat) option res" where
  "find_header k [] = Inr None"
| "find_header k (c # cs) =
     bindR (chunk_view c) (\<lambda>b.
     bindR (scan_text (case cs of [] \<Rightarrow> None | n # _ \<Rightarrow> Some n) 0 b) (\<lambda>r. case r of
       Some (d, off) \<Rightarrow> Inr (Some (k + d, off)) | None \<Rightarrow> find_header (k + 1) cs))"

text \<open>Everything before chunk \<open>n\<close> and \<open>off\<close> bytes of it are moved to the request.\<close>

fun copy_header :: "nat \<Rightarrow> nat \<Rightarrow> chunk list \<Rightarrow> (bytes \<times> chunk list) res" where
  "copy_header n off [] = Inr ([], [])"
| "copy_header n off (c # cs) =
     bindR (chunk_view c) (\<lambda>b.
       case n of
         0 \<Rightarrow> bindR (checkR (off \<le> length b) OutOfBounds) (\<lambda>_.
                Inr (take off b, c\<lparr>ck_offset := ck_offset c + int off\<rparr> # cs))
       | Suc n \<Rightarrow> bindR (copy_header n off cs) (\<lambda>(r, cs).
                    Inr (take (length b - 1) b @ r, c\<lparr>ck_offset := int (bf_used (ck_mem c)) - 1\<rparr> # cs)))"

definition read_header :: "connection \<Rightarrow> connection res" where
  "read_header con =
     bindR (find_header 0 (cq_chunks (cx_read_queue con))) (\<lambda>r. case r of
       Some (n, off) \<Rightarrow>
         bindR (copy_header n off (cq_chunks (cx_read_queue con))) (\<lambda>(t, cs).
           Inr (connection_set_state
                  (con\<lparr>cx_req := (cx_req con)\<lparr>cn_request := t\<rparr>, cx_read_queue := (cx_read_queue con)\<lparr>cq_chunks := cs\<rparr>\<rparr>)
                  CON_STATE_REQUEST_END))
     | None \<Rightarrow>
         if chunkqueue_length (cx_read_queue con) > 64 * 1024
         then Inr (connection_set_state (set_keep_alive (set_status con 414) False) CON_STATE_HANDLE_REQUEST)
         else Inr con)"

section \<open>Bodies\<close>

record file_env =
  fe_mkstemp :: "bytes \<Rightarrow> int \<times> bytes"
  fe_open :: "bytes \<Rightarrow> int"
  fe_write :: "int \<Rightarrow> bytes \<Rightarrow> int"

datatype rd_effect = WriteTo int bytes | CloseFd int | Cleanup ck_effect

definition set_last :: "chunk \<Rightarrow> chunkqueue \<Rightarrow> chunkqueue" where
  "set_last c cq = cq\<lparr>cq_chunks := butlast (cq_chunks cq) @ [c]\<rparr>"

text \<open>The temporary file to write to becomes the last chunk.\<close>

definition post_file :: "file_env \<Rightarrow> chunkqueue \<Rightarrow> (rd_effect list \<times> chunkqueue) res" where
  "post_file e cq =
     (let c = last (cq_chunks cq)
      in if cq_chunks cq \<noteq> [] \<and> ck_type c = FILE_CHUNK \<and> ck_is_temp c \<noteq> 0 \<and> ck_offset c = 0
         then if ck_length c < 1 * 1024 * 1024
              then if ck_fd c = -1
                   then bindR (cstr (bf_ptr (ck_name c))) (\<lambda>nm. Inr ([], set_last (c\<lparr>ck_fd := fe_open e nm\<rparr>) cq))
                   else Inr ([], cq)
              else bindR (chunkqueue_get_append_tempfile (fe_mkstemp e) (set_last (c\<lparr>ck_fd := -1\<rparr>) cq)) (\<lambda>cq.
                     Inr (if ck_fd c \<noteq> -1 then [CloseFd (ck_fd c)] else [], cq))
         else bindR (chunkqueue_get_append_tempfile (fe_mkstemp e) cq) (\<lambda>cq. Inr ([], cq)))"

text \<open>\<open>False\<close>: the file could not be opened or not all of the piece written; the request is answered with 413.\<close>

definition post_to_file :: "file_env \<Rightarrow> int \<Rightarrow> chunkqueue \<Rightarrow> bytes \<Rightarrow> (rd_effect list \<times> chunkqueue \<times> bool) res" where
  "post_to_file e clen cq t =
     bindR (post_file e cq) (\<lambda>(eff, cq).
       let c = last (cq_chunks cq)
       in if ck_fd c = -1 then Inr (eff, cq, False)
          else if fe_write e (ck_fd c) t \<noteq> int (length t)
          then Inr (eff @ [CloseFd (ck_fd c)], set_last (c\<lparr>ck_fd := -1\<rparr>) cq, False)
          else let c' = c\<lparr>ck_length := ck_length c + int (length t)\<rparr>
               in if cq_bytes_in cq + int (length t) = clen
                  then Inr (eff @ [WriteTo (ck_fd c) t, CloseFd (ck_fd c)], set_last (c'\<lparr>ck_fd := -1\<rparr>) cq, True)
                  else Inr (eff @ [WriteTo (ck_fd c) t], set_last c' cq, True))"

definition post_to_mem :: "chunkqueue \<Rightarrow> bytes \<Rightarrow> chunkqueue res" where
  "post_to_mem cq t =
     (let cq = chunkqueue_get_append_buffer cq
      in bindR (buffer_copy_string_len (ck_mem (last (cq_chunks cq))) (Some t) (length t)) (\<lambda>(_, b).
           Inr (set_last ((last (cq_chunks cq))\<lparr>ck_mem := b\<rparr>) cq)))"

text \<open>\<open>n\<close> bytes of a chunk from its offset on.\<close>

definition chunk_bytes :: "chunk \<Rightarrow> int \<Rightarrow> bytes res" where
  "chunk_bytes c n =
     bindR (checkR (0 \<le> n \<and> 0 \<le> ck_offset c) OutOfBounds) (\<lambda>_.
     bindR (read_cells (nat (ck_offset c + n)) (bf_ptr (ck_mem c))) (\<lambda>t. Inr (drop (nat (ck_offset c)) t)))"

fun post_loop ::
  "file_env \<Rightarrow> int \<Rightarrow> chunkqueue \<Rightarrow> chunk list \<Rightarrow> (rd_effect list \<times> chunkqueue \<times> chunk list \<times> bool) res" where
  "post_loop e clen dst [] = Inr ([], dst, [], True)"
| "post_loop e clen dst (c # cs) =
     (if cq_bytes_in dst = clen then Inr ([], dst, c # cs, True)
      else if bf_used (ck_mem c) = 0 then Inl Abort
      else let weWant = clen - cq_bytes_in dst;
               weHave = int (bf_used (ck_mem c)) - ck_offset c - 1;
               toRead = (if weHave > weWant then weWant else weHave)
           in bindR (chunk_bytes c toRead) (\<lambda>t.
              bindR (if clen > 64 * 1024 then post_to_file e clen dst t
                     else bindR (post_to_mem dst t) (\<lambda>dst. Inr ([], dst, True))) (\<lambda>(eff, dst, ok).
                if ok
                then bindR (post_loop e clen (dst\<lparr>cq_bytes_in := cq_bytes_in dst + toRead\<rparr>) cs) (\<lambda>(eff', dst, cs, ok).
                       Inr (eff @ eff', dst, c\<lparr>ck_offset := ck_offset c + toRead\<rparr> # cs, ok))
                else Inr (eff, dst, c # cs, False))))"

definition read_post :: "file_env \<Rightarrow> connection \<Rightarrow> (rd_effect list \<times> connection) res" where
  "read_post e con =
     (let clen = int (rq_content_length (cx_req con))
      in bindR (post_loop e clen (cx_content_queue con) (cq_chunks (cx_read_queue con))) (\<lambda>(eff, dst, cs, ok).
           let con = con\<lparr>cx_content_queue := dst, cx_read_queue := (cx_read_queue con)\<lparr>cq_chunks := cs\<rparr>\<rparr>;
               con = (if ok then con
                      else connection_set_state (set_keep_alive (set_status con 413) False) CON_STATE_HANDLE_REQUEST)
           in Inr (eff, if cq_bytes_in dst = clen then connection_set_state con CON_STATE_HANDLE_REQUEST else con)))"

section \<open>The handler\<close>

definition read_body :: "file_env \<Rightarrow> connection_state \<Rightarrow> connection \<Rightarrow> (rd_effect list \<times> connection) res" where
  "read_body e ostate con =
     (case ostate of
        CON_STATE_READ \<Rightarrow> bindR (read_header con) (\<lambda>con. Inr ([], con))
      | CON_STATE_READ_POST \<Rightarrow> read_post e con
      | _ \<Rightarrow> Inr ([], con))"

definition connection_handle_read_state ::
  "read_env \<Rightarrow> file_env \<Rightarrow> int \<Rightarrow> connection \<Rightarrow> (int \<times> rd_effect list \<times> connection) res" where
  "connection_handle_read_state re fe cur_ts con =
     (let ostate = cx_state con
      in bindR (if cx_is_readable con then connection_handle_read re (con\<lparr>cx_read_idle_ts := cur_ts\<rparr>) else Inr (0, con)) (\<lambda>(r, con).
           if r = -1 then Inr (-1, [], con)
           else bindR (read_body fe ostate (con\<lparr>cx_read_queue := clean_queue (cx_read_queue con)\<rparr>)) (\<lambda>(eff, con).
                  let con = (if r = -2 \<and> ostate = cx_state con then connection_set_state con CON_STATE_ERROR else con)
                  in bindR (chunkqueue_remove_finished_chunks (cx_read_queue con)) (\<lambda>(ceff, cq).
                       Inr (0, eff @ map Cleanup ceff, con\<lparr>cx_read_queue := cq\<rparr>)))))"

end
