(* ===== verification/Lt_Net.thy ===== *)
theory Lt_Net
  imports Lt_Conn_Read
begin

text \<open>
  Writing a queue to a socket: the three backends for Linux, plain \<open>write\<close> (\<open>network_write.c\<close>), gathered
  \<open>writev\<close> (\<open>network_writev.c\<close>) and \<open>sendfile\<close> (\<open>network_linux_sendfile.c\<close>). What the system calls and the cache of
  file attributes answer is a parameter; the bytes the socket has taken and the descriptors and mappings
  released are returned as effects.
\<close>

section \<open>System calls\<close>

text \<open>
  The answers in one turn: how many of the bytes offered a \<open>write\<close>, \<open>writev\<close> or \<open>sendfile\<close> takes, the size of a file
  in the cache, the descriptor (-1 on failure), the contents of the file, whether \<open>mmap\<close> succeeds.
\<close>

record net_ans =
  na_write :: "bytes \<Rightarrow> sock_errno + nat"
  na_stat :: "bytes \<Rightarrow> int option"
  na_open :: "bytes \<Rightarrow> int"
  na_file :: "bytes \<Rightarrow> bytes"
  na_mmap :: bool

datatype net_effect = Put bytes | Tidy ck_effect

fun delivered :: "net_effect list \<Rightarrow> bytes" where
  "delivered [] = []"
| "delivered (Put t # es) = t @ delivered es"
| "delivered (Tidy x # es) = delivered es"

text \<open>What became of a chunk: sent to its end, not yet, or the call returns with an error.\<close>

datatype outcome = Finished | Partly | Failed int

definition mem_left :: "chunk \<Rightarrow> int" where
  "mem_left c = int (bf_used (ck_mem c)) - 1 - ck_offset c"

text \<open>\<open>n\<close> bytes from \<open>off\<close> on of a file of which \<open>len\<close> bytes from \<open>start\<close> on are mapped.\<close>

definition mapped :: "bytes \<Rightarrow> int \<Rightarrow> int \<Rightarrow> int \<Rightarrow> int \<Rightarrow> bytes res" where
  "mapped f start len off n =
     (if start \<le> off \<and> 0 \<le> off \<and> 0 \<le> n \<and> off + n \<le> start + len \<and> off + n \<le> int (length f)
      then Inr (take (nat n) (drop (nat off) f)) else Inl OutOfBounds)"

text \<open>The errors that \<open>writev\<close> and \<open>sendfile\<close> forgive count as nothing taken.\<close>

definition taken :: "sock_errno + nat \<Rightarrow> int + nat" where
  "taken a =
     (case a of
        Inr n \<Rightarrow> Inr n
      | Inl e \<Rightarrow> if e = EAGAIN \<or> e = EINTR then Inr 0 else if e = EPIPE \<or> e = ECONNRESET then Inl (-2) else Inl (-1))"

section \<open>The backend write\<close>

definition write_mem :: "net_ans \<Rightarrow> chunk \<Rightarrow> (outcome \<times> net_effect list \<times> chunk) res" where
  "write_mem a c =
     (if bf_used (ck_mem c) = 0 then Inr (Finished, [], c)
      else bindR (chunk_bytes c (mem_left c)) (\<lambda>t.
             case na_write a t of
               Inl _ \<Rightarrow> Inr (Failed (-1), [], c)
             | Inr r \<Rightarrow>
                 let c = c\<lparr>ck_offset := ck_offset c + int r\<rparr>
                 in Inr (if ck_offset c = int (bf_used (ck_mem c)) - 1 then Finished else Partly, [Put (take r t)], c)))"

definition write_file :: "net_ans \<Rightarrow> chunk \<Rightarrow> (outcome \<times> net_effect list \<times> chunk) res" where
  "write_file a c =
     bindR (cstr (bf_ptr (ck_name c))) (\<lambda>nm.
       let offset = ck_start c + ck_offset c; toSend = ck_length c - ck_offset c
       in case na_stat a nm of
            None \<Rightarrow> Inr (Failed (-1), [], c)
          | Some sz \<Rightarrow>
              if offset > sz \<or> na_open a nm = -1 \<or> \<not> na_mmap a then Inr (Failed (-1), [], c)
              else bindR (mapped (na_file a nm) 0 sz offset toSend) (\<lambda>t.
                     case na_write a t of
                       Inl _ \<Rightarrow> Inr (Failed (-1), [], c)
                     | Inr r \<Rightarrow>
                         if r = 0 then Inr (Failed (-1), [], c)
                         else let c = c\<lparr>ck_offset := ck_offset c + int r\<rparr>
                              in Inr (if ck_offset c = ck_length c then Finished else Partly, [Put (take r t)], c)))"

definition write_chunk :: "net_ans \<Rightarrow> chunk \<Rightarrow> (outcome \<times> net_effect list \<times> chunk) res" where
  "write_chunk a c =
     (case ck_type c of MEM_CHUNK \<Rightarrow> write_mem a c | FILE_CHUNK \<Rightarrow> write_file a c | UNUSED_CHUNK \<Rightarrow> Inr (Failed (-1), [], c))"

text \<open>The result is the number of chunks written or negative.\<close>

type_synonym sent = "(int \<times> net_effect list \<times> chunk list) res"

fun write_chunks :: "(nat \<Rightarrow> net_ans) \<Rightarrow> nat \<Rightarrow> chunk list \<Rightarrow> sent" where
  "write_chunks env k [] = Inr (0, [], [])"
| "write_chunks env k (c # cs) =
     bindR (write_chunk (env k) c) (\<lambda>(out, eff, c).
       case out of
         Failed r \<Rightarrow> Inr (r, eff, c # cs)
       | Partly \<Rightarrow> Inr (0, eff, c # cs)
       | Finished \<Rightarrow>
           bindR (write_chunks env (k + 1) cs) (\<lambda>(n, eff', cs).
             Inr (if n < 0 then n else n + 1, eff @ eff', c # cs)))"

section \<open>Gathering memory chunks\<close>

definition UIO_MAXIOV :: nat where
  "UIO_MAXIOV = 1024"

text \<open>The vectors for the run of memory chunks at the front, cut off at the largest value the call can return.\<close>

fun iov_build :: "nat \<Rightarrow> chunk list \<Rightarrow> bytes list res" where
  "iov_build num_bytes [] = Inr []"
| "iov_build num_bytes (c # cs) =
     (if bf_used (ck_mem c) = 0 then bindR (iov_build num_bytes cs) (\<lambda>v. Inr ([] # v))
      else bindR (chunk_bytes c (mem_left c)) (\<lambda>t.
             if length t > SSIZE_MAX \<or> num_bytes + length t > SSIZE_MAX then Inr [take (SSIZE_MAX - num_bytes) t]
             else bindR (iov_build (num_bytes + length t) cs) (\<lambda>v. Inr (t # v))))"

definition gather :: "nat \<Rightarrow> chunk list \<Rightarrow> bytes list res" where
  "gather max_chunks cs = iov_build 0 (takeWhile (\<lambda>c. ck_type c = MEM_CHUNK) (take max_chunks cs))"

text \<open>
  Which vectors \<open>r\<close> bytes cover: the number of whole ones, whether these are all, and the chunks with their
  new offsets.
\<close>

fun iov_mark :: "nat \<Rightarrow> bytes list \<Rightarrow> chunk list \<Rightarrow> nat \<times> bool \<times> chunk list" where
  "iov_mark r [] cs = (0, True, cs)"
| "iov_mark r (t # ts) [] = (0, False, [])"
| "iov_mark r (t # ts) (c # cs) =
     (if length t \<le> r
      then let (n, b, cs) = iov_mark (r - length t) ts cs in (n + 1, b, c\<lparr>ck_offset := ck_offset c + int (length t)\<rparr> # cs)
      else (0, False, c\<lparr>ck_offset := ck_offset c + int r\<rparr> # cs))"

lemma iov_mark_all: "iov_mark r ts cs = (n, True, cs') \<Longrightarrow> n = length ts \<and> length cs' = length cs"
  by (induction r ts cs arbitrary: n cs' rule: iov_mark.induct) (auto split: if_splits prod.splits)

text \<open>
  The loop shared by the two backends, with the largest number of vectors and the treatment of a file chunk.
  A run of memory chunks goes out with one call.
\<close>

function (sequential) gather_chunks ::
  "nat \<Rightarrow> (net_ans \<Rightarrow> chunk \<Rightarrow> (outcome \<times> net_effect list \<times> chunk) res) \<Rightarrow> (nat \<Rightarrow> net_ans) \<Rightarrow> nat \<Rightarrow> chunk list \<Rightarrow> sent" where
  "gather_chunks mx fl env k [] = Inr (0, [], [])"
| "gather_chunks mx fl env k (c # cs) =
     (case ck_type c of
        UNUSED_CHUNK \<Rightarrow> Inr (-1, [], c # cs)
      | MEM_CHUNK \<Rightarrow>
          bindR (gather mx (c # cs)) (\<lambda>ts.
            case taken (na_write (env k) (concat ts)) of
              Inl e \<Rightarrow> Inr (e, [], c # cs)
            | Inr r \<Rightarrow>
                let (n, whole, cs') = iov_mark r ts (c # cs); eff = [Put (take r (concat ts))]
                in if whole \<and> n > 0
                   then bindR (gather_chunks mx fl env (k + 1) (drop n cs')) (\<lambda>(m, eff', rest).
                          Inr (if m < 0 then m else m + int n, eff @ eff', take n cs' @ rest))
                   else Inr (int (n - 1), eff, cs'))
      | FILE_CHUNK \<Rightarrow>
          bindR (fl (env k) c) (\<lambda>(out, eff, c).
            case out of
              Failed r \<Rightarrow> Inr (r, eff, c # cs)
            | Partly \<Rightarrow> Inr (0, eff, c # cs)
            | Finished \<Rightarrow>
                bindR (gather_chunks mx fl env (k + 1) cs) (\<lambda>(n, eff', cs).
                  Inr (if n < 0 then n else n + 1, eff @ eff', c # cs))))"
  by pat_completeness auto
termination
proof (relation "measure (\<lambda>(_, _, _, _, cs). length cs)", goal_cases)
  case (2 mx fl env k c cs ts r x n y whole cs' eff)
  have "iov_mark r ts (c # cs) = (n, True, cs')" using 2 by simp
  then have "length cs' = Suc (length cs)" using iov_mark_all by fastforce
  then show ?case using 2 by simp
qed auto

section \<open>The backend sendfile\<close>

text \<open>A call that takes nothing is an error, whatever the reason.\<close>

definition sendfile_file :: "net_ans \<Rightarrow> chunk \<Rightarrow> (outcome \<times> net_effect list \<times> chunk) res" where
  "sendfile_file a c =
     bindR (cstr (bf_ptr (ck_name c))) (\<lambda>nm.
       let offset = ck_start c + ck_offset c; left = ck_length c - ck_offset c;
           toSend = (if left > 2 ^ 30 - 1 then 2 ^ 30 - 1 else left mod 2 ^ 64);
           t = take (nat toSend) (drop (nat offset) (na_file a nm));
           fd = (if ck_fd c = -1 then na_open a nm else ck_fd c)
       in if fd = -1 then Inr (Failed (-1), [], c)
          else let c = c\<lparr>ck_fd := fd\<rparr>
               in case taken (na_write a t) of
                    Inl e \<Rightarrow> Inr (Failed e, [], c)
                  | Inr r \<Rightarrow>
                      if r = 0
                      then Inr (Failed (case na_stat a nm of None \<Rightarrow> -1 | Some sz \<Rightarrow> if offset > sz then -1 else -2), [], c)
                      else let c = c\<lparr>ck_offset := ck_offset c + int r\<rparr>
                           in if ck_offset c = ck_length c
                              then Inr (Finished, [Put (take r t), Tidy (Close fd)], c\<lparr>ck_fd := -1\<rparr>)
                              else Inr (Partly, [Put (take r t)], c))"

section \<open>The backend writev\<close>

definition mmap_window :: int where
  "mmap_window = 512 * 1024"

text \<open>The first window that reaches the start of the part to send.\<close>

function skip_windows :: "int \<Rightarrow> int \<Rightarrow> int" where
  "skip_windows start mo = (if mo + mmap_window < start then skip_windows start (mo + mmap_window) else mo)"
  by auto
termination by (relation "measure (\<lambda>(start, mo). nat (start - mo))") (auto simp: mmap_window_def)

declare skip_windows.simps [simp del]

text \<open>A new window; \<open>False\<close> if the file cannot be opened or mapped.\<close>

definition writev_remap :: "net_ans \<Rightarrow> bytes \<Rightarrow> chunk \<Rightarrow> bool \<times> net_effect list \<times> chunk" where
  "writev_remap a nm c =
     (let mo = (if ck_mmap c = None then skip_windows (ck_start c) 0 else ck_mmap_offset c + mmap_window);
          eff = (case ck_mmap c of None \<Rightarrow> [] | Some n \<Rightarrow> [Tidy (Munmap n)]);
          abs_offset = ck_start c + ck_offset c;
          to_mmap = (if abs_offset + (ck_length c - ck_offset c) > mo + mmap_window then mmap_window
                     else ck_start c + ck_length c - mo);
          fd = (if ck_fd c = -1 then na_open a nm else ck_fd c);
          c = c\<lparr>ck_mmap_offset := mo, ck_fd := fd\<rparr>
      in if fd = -1 then (False, eff, c)
         else if \<not> na_mmap a then (False, eff, c\<lparr>ck_mmap := None\<rparr>)
         else (True, eff, c\<lparr>ck_mmap := Some (nat to_mmap)\<rparr>))"

text \<open>The assertion about a negative length has the wrong sign and does not stop the call.\<close>

definition writev_file :: "net_ans \<Rightarrow> chunk \<Rightarrow> (outcome \<times> net_effect list \<times> chunk) res" where
  "writev_file a c =
     bindR (cstr (bf_ptr (ck_name c))) (\<lambda>nm.
       let abs_offset = ck_start c + ck_offset c
       in case na_stat a nm of
            None \<Rightarrow> Inr (Failed (-1), [], c)
          | Some sz \<Rightarrow>
              if abs_offset > sz then Inr (Failed (-1), [], c)
              else let (ok, eff, c) =
                         (if case ck_mmap c of None \<Rightarrow> True | Some n \<Rightarrow> abs_offset = ck_mmap_offset c + int n
                          then writev_remap a nm c else (True, [], c));
                       len = (case ck_mmap c of None \<Rightarrow> 0 | Some n \<Rightarrow> n)
                   in if \<not> ok then Inr (Failed (-1), eff, c)
                      else bindR (mapped (na_file a nm) (ck_mmap_offset c) (int len) abs_offset (ck_mmap_offset c + int len - abs_offset)) (\<lambda>t.
                             case taken (na_write a t) of
                               Inl e \<Rightarrow> Inr (Failed e, eff, c)
                             | Inr r \<Rightarrow>
                                 let c = c\<lparr>ck_offset := ck_offset c + int r\<rparr>
                                 in if ck_offset c = ck_length c
                                    then Inr (Finished, eff @ [Put (take r t), Tidy (Munmap len)], c\<lparr>ck_mmap := None\<rparr>)
                                    else Inr (Partly, eff @ [Put (take r t)], c)))"

section \<open>Queues\<close>

definition sendfile_chunks :: "(nat \<Rightarrow> net_ans) \<Rightarrow> nat \<Rightarrow> chunk list \<Rightarrow> sent" where
  "sendfile_chunks = gather_chunks UIO_MAXIOV sendfile_file"

definition writev_chunks :: "nat \<Rightarrow> (nat \<Rightarrow> net_ans) \<Rightarrow> nat \<Rightarrow> chunk list \<Rightarrow> sent" where
  "writev_chunks max_chunks = gather_chunks max_chunks writev_file"

type_synonym backend_fun = "(nat \<Rightarrow> net_ans) \<Rightarrow> nat \<Rightarrow> chunk list \<Rightarrow> sent"

text \<open>A backend on a queue: \<open>bytes_out\<close> counts what the socket has taken.\<close>

definition backend_write :: "backend_fun \<Rightarrow> (nat \<Rightarrow> net_ans) \<Rightarrow> chunkqueue \<Rightarrow> (int \<times> net_effect list \<times> chunkqueue) res" where
  "backend_write send env cq =
     bindR (send env 0 (cq_chunks cq)) (\<lambda>(r, eff, cs).
       Inr (r, eff, cq\<lparr>cq_chunks := cs, cq_bytes_out := cq_bytes_out cq + int (length (delivered eff))\<rparr>))"

definition network_write_chunkqueue_write :: "(nat \<Rightarrow> net_ans) \<Rightarrow> chunkqueue \<Rightarrow> (int \<times> net_effect list \<times> chunkqueue) res" where
  "network_write_chunkqueue_write = backend_write write_chunks"

definition network_write_chunkqueue_linuxsendfile :: "(nat \<Rightarrow> net_ans) \<Rightarrow> chunkqueue \<Rightarrow> (int \<times> net_effect list \<times> chunkqueue) res" where
  "network_write_chunkqueue_linuxsendfile = backend_write sendfile_chunks"

definition network_write_chunkqueue_writev :: "nat \<Rightarrow> (nat \<Rightarrow> net_ans) \<Rightarrow> chunkqueue \<Rightarrow> (int \<times> net_effect list \<times> chunkqueue) res" where
  "network_write_chunkqueue_writev max_chunks = backend_write (writev_chunks max_chunks)"

text \<open>The part of \<open>network_write_chunkqueue\<close> that writes: 0 when all is sent, 1 when not, negative on an error.\<close>

definition send_queue :: "((nat \<Rightarrow> net_ans) \<Rightarrow> chunkqueue \<Rightarrow> (int \<times> net_effect list \<times> chunkqueue) res) \<Rightarrow>
    (nat \<Rightarrow> net_ans) \<Rightarrow> chunkqueue \<Rightarrow> (int \<times> net_effect list \<times> chunkqueue) res" where
  "send_queue backend env cq =
     bindR (backend env cq) (\<lambda>(r, eff, cq).
       if r \<ge> 0
       then bindR (chunkqueue_remove_finished_chunks cq) (\<lambda>(ceff, cq).
              Inr (if chunkqueue_is_empty cq = 1 then 0 else 1, eff @ map Tidy ceff, cq))
       else Inr (r, eff, cq))"

section \<open>The choice of a backend\<close>

datatype network_backend_t = NETWORK_BACKEND_WRITE | NETWORK_BACKEND_WRITEV | NETWORK_BACKEND_LINUX_SENDFILE

definition network_backends :: "(network_backend_t \<times> bytes) list" where
  "network_backends =
     [(NETWORK_BACKEND_LINUX_SENDFILE, map char_byte ''linux-sendfile''), (NETWORK_BACKEND_WRITEV, map char_byte ''writev''),
      (NETWORK_BACKEND_WRITE, map char_byte ''write'')]"

text \<open>The name in the configuration, or the first of the list; \<open>None\<close> for an unknown name.\<close>

definition select_backend :: "bytes \<Rightarrow> network_backend_t option" where
  "select_backend conf =
     (if conf = [] then Some (fst (hd network_backends)) else map_option fst (find (\<lambda>(_, nm). nm = conf) network_backends))"

fun backend_of :: "nat \<Rightarrow> network_backend_t \<Rightarrow> backend_fun" where
  "backend_of iov_max NETWORK_BACKEND_WRITE = write_chunks"
| "backend_of iov_max NETWORK_BACKEND_WRITEV = writev_chunks iov_max"
| "backend_of iov_max NETWORK_BACKEND_LINUX_SENDFILE = sendfile_chunks"

end
