(* ===== verification/Lt_Conn.thy ===== *)
theory Lt_Conn
  imports Lt_Net
begin

text \<open>
  The life of a connection (\<open>connections.c\<close>, \<open>joblist.c\<close>, the response header of \<open>response.c\<close> and
  \<open>http-header-glue.c\<close>): the table of connections, the response with its header, and the state machine
  that runs until a connection has to wait. The plugins and the functions that decide about a request
  (\<open>http_response_prepare\<close> behind its first test), the cache of file attributes and the system calls are
  parameters. The server is built without OpenSSL.
\<close>

section \<open>The table of connections\<close>

text \<open>\<open>pl_ptr\<close> is the array of pointers, a pointer the number of a connection; \<open>pl_ndx\<close> their fields \<open>ndx\<close>.\<close>

record pool =
  pl_ptr :: "nat list"
  pl_used :: nat
  pl_ndx :: "nat \<Rightarrow> int"

definition pool_init :: pool where
  "pool_init = \<lparr>pl_ptr = [], pl_used = 0, pl_ndx = (\<lambda>_. -1)\<rparr>"

text \<open>The connection taken is the one behind those in use; it is reset by the caller.\<close>

definition pool_new :: "pool \<Rightarrow> (nat \<times> pool) res" where
  "pool_new p =
     (let n = length (pl_ptr p);
          p = (if n = 0 \<or> n = pl_used p then p\<lparr>pl_ptr := pl_ptr p @ [n..<n + 128]\<rparr> else p)
      in bindR (get_at (pl_ptr p) (int (pl_used p))) (\<lambda>c.
           Inr (c, p\<lparr>pl_ndx := (pl_ndx p)(c := int (pl_used p)), pl_used := pl_used p + 1\<rparr>)))"

definition connection_del :: "pool \<Rightarrow> nat \<Rightarrow> (int \<times> pool) res" where
  "connection_del p c =
     (if pl_ndx p c = -1 then Inr (-1, p)
      else let i = pl_ndx p c; l = int (pl_used p) - 1
           in bindR (if i \<noteq> l
                     then bindR (get_at (pl_ptr p) i) (\<lambda>temp. bindR (get_at (pl_ptr p) l) (\<lambda>d.
                            Inr (p\<lparr>pl_ptr := (pl_ptr p)[nat i := d, nat l := temp], pl_ndx := (pl_ndx p)(d := i, temp := -1)\<rparr>)))
                     else Inr p) (\<lambda>p.
                Inr (0, p\<lparr>pl_used := pl_used p - 1, pl_ndx := (pl_ndx p)(c := -1)\<rparr>)))"

section \<open>The server\<close>

record csrv =
  cs_req :: server
  cs_conf :: specific_config
  cs_tempdirs :: "buffer list"
  cs_cur_ts :: int
  cs_cur_fds :: int
  cs_max_fds :: int
  cs_want_fds :: int
  cs_con_opened :: int
  cs_con_written :: int
  cs_con_closed :: int
  cs_max_conns :: nat
  cs_pool :: pool
  cs_conns :: "nat \<Rightarrow> connection"
  cs_joblist :: "nat list"
  cs_fdwaitqueue :: "nat list"
  cs_date :: "int \<times> bytes"
  cs_tmp_buf :: buffer
  cs_backend :: backend_fun
  cs_global_bytes :: int

text \<open>Nothing sets \<open>in_joblist\<close>, so a connection may be appended more than once.\<close>

definition joblist_append :: "csrv \<Rightarrow> connection \<Rightarrow> csrv" where
  "joblist_append srv con = srv\<lparr>cs_joblist := cs_joblist srv @ [cx_id con]\<rparr>"

definition fdwaitqueue_append :: "csrv \<Rightarrow> connection \<Rightarrow> csrv" where
  "fdwaitqueue_append srv con = srv\<lparr>cs_fdwaitqueue := cs_fdwaitqueue srv @ [cx_id con]\<rparr>"

definition fdwaitqueue_unshift :: "csrv \<Rightarrow> nat option \<times> csrv" where
  "fdwaitqueue_unshift srv =
     (case cs_fdwaitqueue srv of [] \<Rightarrow> (None, srv) | c # cs \<Rightarrow> (Some c, srv\<lparr>cs_fdwaitqueue := cs\<rparr>))"

datatype event = FDEVENT_IN | FDEVENT_OUT

datatype effect = Rd rd_effect | Chunk ck_effect | Net int net_effect | EventAdd int event | EventDel int | Register int | Unregister int | CloseSocket int

datatype handler_t = HANDLER_UNSET | HANDLER_GO_ON | HANDLER_FINISHED | HANDLER_COMEBACK
  | HANDLER_WAIT_FOR_EVENT | HANDLER_ERROR | HANDLER_WAIT_FOR_FD

text \<open>
  What the code around a connection answers. \<open>se_prepare\<close> is \<open>http_response_prepare\<close> for a request that is not
  decided yet, \<open>se_net\<close> are the answers while a queue is written, the hooks are those of the plugins, \<open>se_stat\<close> the cache
  of file attributes (size and content type), \<open>se_fionread\<close> the bytes left in a socket that is closed.
\<close>

record sm_env =
  se_al :: bool
  se_read :: read_env
  se_file :: file_env
  se_prepare :: "connection \<Rightarrow> handler_t \<times> connection"
  se_net :: "nat \<Rightarrow> net_ans"
  se_request_done :: "connection \<Rightarrow> connection"
  se_connection_close :: "connection \<Rightarrow> connection"
  se_connection_reset :: "connection \<Rightarrow> connection"
  se_stat :: "bytes \<Rightarrow> (int \<times> bytes) option"
  se_gmtime :: "int \<Rightarrow> bytes"
  se_package :: bytes
  se_shutdown :: bool
  se_fionread :: int
  se_parse :: parse_env

definition connection_close :: "csrv \<Rightarrow> connection \<Rightarrow> (effect list \<times> csrv \<times> connection) res" where
  "connection_close srv con =
     bindR (connection_del (cs_pool srv) (cx_id con)) (\<lambda>(_, p).
       Inr ([EventDel (cx_fd con), Unregister (cx_fd con), CloseSocket (cx_fd con)],
            srv\<lparr>cs_cur_fds := cs_cur_fds srv - 1, cs_pool := p\<rparr>, connection_set_state con CON_STATE_CONNECT))"

text \<open>The request as \<open>connection_reset\<close> leaves it: counter, header limits and \<open>keep_alive\<close> stay.\<close>

definition req_reset :: "con \<Rightarrow> con res" where
  "req_reset r =
     bindR (array_reset (rq_headers r)) (\<lambda>a.
       Inr (r\<lparr>cn_http_status := 0, rq_method := -1, rq_version := -1, rq_if_modified_since := NullP, rq_if_none_match := NullP,
             cn_resp_keep_alive := False, rq_uri := None, rq_line := None, cn_request := [], rq_orig_uri := None, cn_parse := [],
             rq_host := NullP, rq_range := NullP, rq_content_type := NullP, rq_content_length := 0, rq_headers := a,
             cn_header_len := 0\<rparr>))"

definition connection_reset :: "sm_env \<Rightarrow> csrv \<Rightarrow> connection \<Rightarrow> (effect list \<times> connection) res" where
  "connection_reset e srv con =
     (let con = se_connection_reset e con
      in bindR (req_reset (cx_req con)) (\<lambda>r.
         bindR (array_reset (cx_resp_headers con)) (\<lambda>rh.
         bindR (chunkqueue_reset (cx_write_queue con)) (\<lambda>(eff1, wq).
         bindR (chunkqueue_reset (cx_content_queue con)) (\<lambda>(eff2, rq).
           Inr (map Chunk (eff1 @ eff2), config_setup_connection (cs_conf srv)
                 (con\<lparr>cx_req := r, cx_is_readable := True, cx_is_writable := True, cx_file_finished := False,
                      cx_file_started := False, cx_got_response := False, cx_has_content_length := False,
                      cx_has_connection := False, cx_bytes_written := 0, cx_bytes_written_cur_second := 0, cx_bytes_read := 0, cx_bytes_header := 0, cx_loops_per_request := 0,
                      cx_resp_content_length := -1, cx_chunked := False, cx_mode := DIRECT, cx_uri_path := [],
                      cx_physical_path := [], cx_error_handler := [], cx_resp_headers := rh, cx_write_queue := wq,
                      cx_content_queue := rq, cx_in_error_handler := False\<rparr>)))))))"

section \<open>Response headers\<close>

definition response_header_insert :: "bool \<Rightarrow> array \<Rightarrow> bytes \<Rightarrow> bytes \<Rightarrow> array res" where
  "response_header_insert al a key v =
     bindR (array_get_unused_element a) (\<lambda>(d, a).
       let ds = set_text ((case d of None \<Rightarrow> data_response_init | Some d \<Rightarrow> d)\<lparr>du_key := Some key\<rparr>) v
       in bindR (array_insert_unique al a ds) (\<lambda>(_, a). Inr a))"

text \<open>The value that replaces an older one is a C string.\<close>

definition response_header_overwrite :: "bool \<Rightarrow> array \<Rightarrow> bytes \<Rightarrow> bytes \<Rightarrow> array res" where
  "response_header_overwrite al a key v =
     bindR (array_get_index al a (Some key)) (\<lambda>(ndx, _).
       if ndx \<noteq> -1
       then bindR (get_at (ar_data a) ndx) (\<lambda>d. bindR (deref d NullDeref) (\<lambda>d.
              Inr (a\<lparr>ar_data := (ar_data a)[nat ndx := Some (set_text d (takeWhile (\<lambda>c. c \<noteq> 0) v))]\<rparr>)))
       else response_header_insert al a key v)"

definition str :: "string \<Rightarrow> bytes" where
  "str s = map char_byte s"

text \<open>Which headers are sent: those with key and value that are not internal.\<close>

definition sent_header :: "data_unset \<Rightarrow> (bytes \<times> bytes) option" where
  "sent_header d =
     (case (du_key d, case du_value d of DString v \<Rightarrow> v | DResponse v \<Rightarrow> v | _ \<Rightarrow> None) of
        (Some k, Some v) \<Rightarrow> if take 11 k = str ''X-LIGHTTPD-'' then None else Some (k, v)
      | _ \<Rightarrow> None)"

definition sent_headers :: "array \<Rightarrow> (bytes \<times> bytes) list res" where
  "sent_headers a =
     (let ds = take (ar_used a) (ar_data a)
      in if None \<in> set ds then Inl NullDeref else Inr (List.map_filter (\<lambda>d. sent_header (the d)) ds))"

definition status_line :: "connection \<Rightarrow> bytes" where
  "status_line con =
     str (if rq_version (cx_req con) = HTTP_VERSION_1_1 then ''HTTP/1.1 '' else ''HTTP/1.0 '') @
     str (show_int (cn_http_status (cx_req con))) @ [32] @
     (case get_http_status_name (cn_http_status (cx_req con)) of None \<Rightarrow> [] | Some n \<Rightarrow> str n)"

definition head_text :: "sm_env \<Rightarrow> csrv \<Rightarrow> connection \<Rightarrow> (bytes \<times> bytes) list \<Rightarrow> bytes" where
  "head_text e srv con hs =
     status_line con @
     (if rq_version (cx_req con) \<noteq> HTTP_VERSION_1_1 \<or> \<not> cn_keep_alive (cx_req con)
      then crlf @ str ''Connection: '' @ str (if cn_keep_alive (cx_req con) then ''keep-alive'' else ''close'') else []) @
     (if cx_chunked con then crlf @ str ''Transfer-Encoding: chunked'' else []) @
     concat (map (\<lambda>(k, v). crlf @ k @ [58, 32] @ v) hs) @
     (if str ''Date'' \<in> fst ` set hs then []
      else crlf @ str ''Date: '' @ (if cs_cur_ts srv \<noteq> fst (cs_date srv) then se_gmtime e (cs_cur_ts srv) else snd (cs_date srv))) @
     (if str ''Server'' \<in> fst ` set hs then []
      else crlf @ str ''Server: '' @
           (if cx_server_tag con = [] then se_package e
            else concat (map (enc_char ENCODING_HTTP_HEADER encoded_chars_http_header) (cx_server_tag con)))) @
     crlf @ crlf"

text \<open>The header goes into a buffer in front of the queue, the date is kept for the present second.\<close>

definition put_first :: "bytes \<Rightarrow> chunkqueue \<Rightarrow> chunkqueue res" where
  "put_first t cq =
     (case cq_chunks (chunkqueue_get_prepend_buffer cq) of
        [] \<Rightarrow> Inl NullDeref
      | c # cs \<Rightarrow> bindR (buffer_copy_string_len (ck_mem c) (Some t) (length t)) (\<lambda>(_, b).
          Inr ((chunkqueue_get_prepend_buffer cq)\<lparr>cq_chunks := c\<lparr>ck_mem := b\<rparr> # cs\<rparr>)))"

definition http_response_write_header :: "sm_env \<Rightarrow> csrv \<Rightarrow> connection \<Rightarrow> (csrv \<times> connection) res" where
  "http_response_write_header e srv con =
     bindR (sent_headers (cx_resp_headers con)) (\<lambda>hs.
       let t = head_text e srv con hs
       in bindR (put_first t (cx_write_queue con)) (\<lambda>q.
            Inr (if str ''Date'' \<notin> fst ` set hs \<and> cs_cur_ts srv \<noteq> fst (cs_date srv)
                 then srv\<lparr>cs_date := (cs_cur_ts srv, se_gmtime e (cs_cur_ts srv))\<rparr> else srv,
                 con\<lparr>cx_write_queue := q, cx_bytes_header := int (length t)\<rparr>)))"

section \<open>Preparing the response\<close>

definition HTTP_METHOD_OPTIONS :: int where
  "HTTP_METHOD_OPTIONS = 3"

text \<open>\<open>GET\<close>, \<open>POST\<close>, \<open>HEAD\<close>, \<open>PUT\<close>, \<open>MKCOL\<close>, \<open>DELETE\<close>, \<open>COPY\<close>, \<open>MOVE\<close>, \<open>PROPFIND\<close>, \<open>PROPPATCH\<close>, \<open>LOCK\<close>, \<open>UNLOCK\<close>.\<close>

definition plain_methods :: "int list" where
  "plain_methods = [0, 1, 2, 6, 5, 7, 8, 9, 4, 10, 18, 19]"

definition prepare_method :: "sm_env \<Rightarrow> connection \<Rightarrow> (effect list \<times> connection) res" where
  "prepare_method e con =
     (let m = rq_method (cx_req con)
      in if cx_mode con \<noteq> DIRECT \<or> m \<in> set plain_methods then Inr ([], con)
         else if m = HTTP_METHOD_OPTIONS
         then if cx_uri_path con \<noteq> [] \<and> hd (cx_uri_path con) \<noteq> 42
              then bindR (response_header_insert (se_al e) (cx_resp_headers con) (str ''Allow'') (str ''OPTIONS, GET, HEAD, POST'')) (\<lambda>a.
                   bindR (chunkqueue_reset (cx_write_queue con)) (\<lambda>(eff, q).
                     Inr (map Chunk eff, set_status (con\<lparr>cx_resp_headers := a, cx_file_finished := True, cx_write_queue := q\<rparr>) 200)))
              else Inr ([], con)
         else Inr ([], if cn_http_status (cx_req con) \<in> {400, 414, 505, 207} then con else set_status con 501))"

definition error_page :: "int \<Rightarrow> bytes" where
  "error_page st =
     (let name = str (show_int st) @ str '' - '' @ (case get_http_status_name st of None \<Rightarrow> [] | Some n \<Rightarrow> str n);
          quote = (\<lambda>s. [34] @ str s @ [34])
      in str ''<?xml version='' @ quote ''1.0'' @ str '' encoding='' @ quote ''iso-8859-1'' @ str ''?>'' @ [10] @
         str ''<!DOCTYPE html PUBLIC '' @ quote ''-//W3C//DTD XHTML 1.0 Transitional//EN'' @ [10] @
         str ''         '' @ quote ''http://www.w3.org/TR/xhtml1/DTD/xhtml1-transitional.dtd'' @ str ''>'' @ [10] @
         str ''<html xmlns='' @ quote ''http://www.w3.org/1999/xhtml'' @ str '' xml:lang='' @ quote ''en'' @ str '' lang='' @ quote ''en'' @ str ''>'' @ [10] @
         str '' <head>'' @ [10] @ str ''  <title>'' @ name @ str ''</title>'' @ [10] @ str '' </head>'' @ [10] @
         str '' <body>'' @ [10] @ str ''  <h1>'' @ name @ str ''</h1>'' @ [10] @ str '' </body>'' @ [10] @ str ''</html>'' @ [10])"

definition append_text :: "bytes \<Rightarrow> chunkqueue \<Rightarrow> chunkqueue res" where
  "append_text t cq = post_to_mem cq t"

text \<open>A file from the cache of attributes, or else the page above.\<close>

definition error_file :: "sm_env \<Rightarrow> csrv \<Rightarrow> connection \<Rightarrow> (csrv \<times> connection) res" where
  "error_file e srv con =
     (let path = cx_errorfile_prefix con @
            (case get_http_status_body_name (cn_http_status (cx_req con)) of None \<Rightarrow> [] | Some n \<Rightarrow> str n);
          con = con\<lparr>cx_physical_path := path\<rparr>
      in case se_stat e path of
           None \<Rightarrow> Inr (srv, con)
         | Some (fsize, ctype) \<Rightarrow>
             bindR (buffer_init_string (Some path)) (\<lambda>fn.
             bindR (http_chunk_append_file \<lparr>hc_queue = cx_write_queue con, hc_tmp = cs_tmp_buf srv, hc_chunked = cx_chunked con\<rparr>
                      fn 0 fsize) (\<lambda>h.
             bindR (response_header_overwrite (se_al e) (cx_resp_headers con) (str ''Content-Type'') ctype) (\<lambda>a.
               Inr (srv\<lparr>cs_tmp_buf := hc_tmp h\<rparr>,
                    con\<lparr>cx_write_queue := hc_queue h, cx_file_finished := True, cx_resp_headers := a\<rparr>)))))"

definition error_body :: "sm_env \<Rightarrow> csrv \<Rightarrow> connection \<Rightarrow> (csrv \<times> connection) res" where
  "error_body e srv con =
     (let con = con\<lparr>cx_file_finished := False, cx_physical_path := []\<rparr>
      in bindR (if cx_errorfile_prefix con \<noteq> [] then error_file e srv con else Inr (srv, con)) (\<lambda>(srv, con).
           if cx_file_finished con then Inr (srv, con)
           else bindR (append_text (error_page (cn_http_status (cx_req con))) (cx_write_queue con)) (\<lambda>q.
                bindR (response_header_overwrite (se_al e) (cx_resp_headers con) (str ''Content-Type'') (str ''text/html'')) (\<lambda>a.
                  Inr (srv, con\<lparr>cx_physical_path := [], cx_file_finished := True, cx_write_queue := q, cx_resp_headers := a\<rparr>)))))"

definition error_codes :: "int list" where
  "error_codes = [400, 401, 403, 404, 408, 409, 411, 416, 423, 500, 501, 503, 505]"

definition body_codes :: "int list" where
  "body_codes = [207, 200, 201, 301, 302, 303, 206]"

definition prepare_status :: "sm_env \<Rightarrow> csrv \<Rightarrow> connection \<Rightarrow> (effect list \<times> csrv \<times> connection) res" where
  "prepare_status e srv con =
     (let con = (if cn_http_status (cx_req con) = 0 then set_status con 403 else con); st = cn_http_status (cx_req con)
      in if st \<in> set error_codes
         then if cx_mode con \<noteq> DIRECT then Inr ([], srv, con)
              else bindR (error_body e srv con) (\<lambda>(srv, con). Inr ([], srv, con))
         else if st \<in> set body_codes then Inr ([], srv, con)
         else bindR (chunkqueue_reset (cx_write_queue con)) (\<lambda>(eff, q).
                Inr (map Chunk eff, srv, con\<lparr>cx_chunked := False, cx_write_queue := q, cx_file_finished := True\<rparr>)))"

definition no_body :: "int \<Rightarrow> bool" where
  "no_body st \<longleftrightarrow> 100 \<le> st \<and> st < 200 \<or> st = 204 \<or> st = 304"

definition prepare_length :: "sm_env \<Rightarrow> connection \<Rightarrow> connection res" where
  "prepare_length e con =
     (if cx_file_finished con
      then if \<not> cx_has_content_length con \<and> \<not> cx_chunked con
           then let qlen = chunkqueue_length (cx_write_queue con)
                in if no_body (cn_http_status (cx_req con)) then Inr con
                   else if qlen \<ge> 0
                   then bindR (response_header_overwrite (se_al e) (cx_resp_headers con) (str ''Content-Length'') (str (show_int qlen))) (\<lambda>a.
                          Inr (con\<lparr>cx_resp_headers := a\<rparr>))
                   else Inr con
           else Inr con
      else let con = (if \<not> cx_has_content_length con \<and> \<not> cx_chunked con then set_keep_alive con False else con)
           in Inr (if cx_has_connection con \<and> cn_keep_alive (cx_req con) \<and> \<not> cn_resp_keep_alive (cx_req con)
                   then set_keep_alive con False else con))"

definition prepare_head :: "connection \<Rightarrow> (effect list \<times> connection) res" where
  "prepare_head con =
     (if rq_method (cx_req con) = HTTP_METHOD_HEAD
      then bindR (chunkqueue_reset (cx_write_queue con)) (\<lambda>(eff, q). Inr (map Chunk eff, con\<lparr>cx_write_queue := q, cx_chunked := False\<rparr>))
      else Inr ([], con))"

definition connection_handle_write_prepare :: "sm_env \<Rightarrow> csrv \<Rightarrow> connection \<Rightarrow> (effect list \<times> csrv \<times> connection) res" where
  "connection_handle_write_prepare e srv con =
     bindR (prepare_method e con) (\<lambda>(eff1, con).
     bindR (prepare_status e srv con) (\<lambda>(eff2, srv, con).
     bindR (prepare_length e con) (\<lambda>con.
     bindR (prepare_head con) (\<lambda>(eff3, con).
     bindR (http_response_write_header e srv con) (\<lambda>(srv, con). Inr (eff1 @ eff2 @ eff3, srv, con))))))"

text \<open>
  Writing with the two traffic limits. A server socket with encryption does not start without OpenSSL, so
  every connection is written with the plain backend.
\<close>

definition network_write_chunkqueue :: "(nat \<Rightarrow> net_ans) \<Rightarrow> csrv \<Rightarrow> connection \<Rightarrow> (int \<times> effect list \<times> csrv \<times> connection) res" where
  "network_write_chunkqueue env srv con =
     (if cx_global_kbytes_per_second con \<noteq> 0 \<and> cs_global_bytes srv > cx_global_kbytes_per_second con * 1024
      then let con = con\<lparr>cx_traffic_limit_reached := True\<rparr> in Inr (1, [], joblist_append srv con, con)
      else bindR (send_queue (backend_write (cs_backend srv)) env (cx_write_queue con)) (\<lambda>(ret, eff, q).
             let written = cq_bytes_out q - cq_bytes_out (cx_write_queue con);
                 con = con\<lparr>cx_write_queue := q, cx_bytes_written := cx_bytes_written con + written,
                           cx_bytes_written_cur_second := cx_bytes_written_cur_second con + written\<rparr>;
                 srv = srv\<lparr>cs_global_bytes := cs_global_bytes srv + written\<rparr>;
                 limit = (cx_kbytes_per_second con \<noteq> 0 \<and> cx_bytes_written_cur_second con > cx_kbytes_per_second con * 1024);
                 con = (if limit then con\<lparr>cx_traffic_limit_reached := True\<rparr> else con);
                 srv = (if limit then joblist_append srv con else srv)
             in Inr (ret, map (Net (cx_fd con)) eff, srv, con)))"

definition connection_handle_write :: "sm_env \<Rightarrow> csrv \<Rightarrow> connection \<Rightarrow> (effect list \<times> csrv \<times> connection) res" where
  "connection_handle_write e srv con =
     bindR (network_write_chunkqueue (se_net e) srv con) (\<lambda>(r, eff, srv, con).
       Inr (eff,
         if r = 0
         then if cx_file_finished con
              then let con = connection_set_state con CON_STATE_RESPONSE_END in (joblist_append srv con, con)
              else (srv, con)
         else if r = -1 \<or> r = -2
         then let con = connection_set_state con CON_STATE_ERROR in (joblist_append srv con, con)
         else if r = 1 then (srv, con\<lparr>cx_is_writable := False\<rparr>)
         else (srv, con)))"

section \<open>The state machine\<close>

definition http_response_prepare :: "sm_env \<Rightarrow> connection \<Rightarrow> (effect list \<times> handler_t \<times> connection) res" where
  "http_response_prepare e con =
     (if cx_mode con = DIRECT \<and> cn_http_status (cx_req con) \<noteq> 0 \<and> cn_http_status (cx_req con) \<noteq> 200
      then if \<not> cx_file_finished con
           then bindR (chunkqueue_reset (cx_write_queue con)) (\<lambda>(eff, q). Inr (map Chunk eff, HANDLER_FINISHED, con\<lparr>cx_write_queue := q\<rparr>))
           else Inr ([], HANDLER_FINISHED, con)
      else Inr ([], se_prepare e con))"

text \<open>What a step does: its effects, whether the loop goes on in any case (\<open>done = -1\<close>), and the new state.\<close>

type_synonym sm_result = "(effect list \<times> bool \<times> csrv \<times> connection) res"

definition sm_request_start :: "csrv \<Rightarrow> connection \<Rightarrow> sm_result" where
  "sm_request_start srv con =
     Inr ([], False, srv, connection_set_state
            (con\<lparr>cx_request_start := cs_cur_ts srv, cx_read_idle_ts := cs_cur_ts srv, cx_loops_per_request := 0,
                 cx_req := (cx_req con)\<lparr>cn_request_count := cn_request_count (cx_req con) + 1\<rparr>\<rparr>) CON_STATE_READ)"

definition sm_request_end :: "sm_env \<Rightarrow> csrv \<Rightarrow> connection \<Rightarrow> sm_result" where
  "sm_request_end e srv con =
     bindR (http_request_parse (se_parse e) (cs_req srv) (cx_req con)) (\<lambda>(r, sv, q).
       let con = con\<lparr>cx_req := q\<rparr>
       in Inr ([], False, srv\<lparr>cs_req := sv\<rparr>,
               connection_set_state con (if r \<noteq> 0 then CON_STATE_READ_POST else CON_STATE_HANDLE_REQUEST)))"

text \<open>A finished request: with status 404 or 403 the error handler gets one try.\<close>

definition sm_finished :: "connection \<Rightarrow> bool \<times> connection" where
  "sm_finished con =
     (let st = cn_http_status (cx_req con); missing = cx_mode con = DIRECT \<and> (st = 404 \<or> st = 403)
      in if missing \<and> \<not> cx_in_error_handler con \<and> (cx_conf_error_handler con \<noteq> [] \<or> cx_error_handler con \<noteq> [])
         then (True, connection_set_state
                 (con\<lparr>cx_error_handler_saved_status := st, cx_physical_path := [], cx_in_error_handler := True,
                      cx_req := (cx_req con)\<lparr>cn_http_status := 0,
                        rq_uri := Some (if cx_error_handler con = [] then cx_conf_error_handler con else cx_error_handler con)\<rparr>\<rparr>)
                 CON_STATE_HANDLE_REQUEST)
         else let con = (if missing \<and> cx_in_error_handler con then set_status con (cx_error_handler_saved_status con) else con);
                  con = (if cn_http_status (cx_req con) = 0 then set_status con 200 else con)
              in (False, connection_set_state con CON_STATE_RESPONSE_START))"

definition sm_handle_request :: "sm_env \<Rightarrow> csrv \<Rightarrow> connection \<Rightarrow> sm_result" where
  "sm_handle_request e srv con =
     bindR (http_response_prepare e con) (\<lambda>(eff, r, con).
       Inr (case r of
              HANDLER_FINISHED \<Rightarrow> (let (b, con) = sm_finished con in (eff, b, srv, con))
            | HANDLER_WAIT_FOR_FD \<Rightarrow>
                (eff, False, fdwaitqueue_append (srv\<lparr>cs_want_fds := cs_want_fds srv + 1\<rparr>) con,
                 connection_set_state con CON_STATE_HANDLE_REQUEST)
            | HANDLER_COMEBACK \<Rightarrow> (eff, True, srv, connection_set_state con CON_STATE_HANDLE_REQUEST)
            | HANDLER_WAIT_FOR_EVENT \<Rightarrow> (eff, False, srv, connection_set_state con CON_STATE_HANDLE_REQUEST)
            | HANDLER_ERROR \<Rightarrow> (eff, False, srv, connection_set_state con CON_STATE_ERROR)
            | _ \<Rightarrow> (eff, False, srv, con)))"

definition sm_response_start :: "sm_env \<Rightarrow> csrv \<Rightarrow> connection \<Rightarrow> sm_result" where
  "sm_response_start e srv con =
     bindR (connection_handle_write_prepare e srv con) (\<lambda>(eff, srv, con).
       Inr (eff, False, srv, connection_set_state con CON_STATE_WRITE))"

definition sm_response_end :: "sm_env \<Rightarrow> csrv \<Rightarrow> connection \<Rightarrow> sm_result" where
  "sm_response_end e srv con =
     (let con = se_request_done e con; srv = srv\<lparr>cs_con_written := cs_con_written srv + 1\<rparr>
      in bindR (if cn_keep_alive (cx_req con) then Inr ([], srv, connection_set_state con CON_STATE_REQUEST_START)
                else bindR (connection_close srv (se_connection_close e con)) (\<lambda>(eff, srv, con).
                       Inr (eff, srv\<lparr>cs_con_closed := cs_con_closed srv + 1\<rparr>, con))) (\<lambda>(eff, srv, con).
           bindR (connection_reset e srv con) (\<lambda>(eff', con). Inr (eff @ eff', False, srv, con))))"

definition sm_connect :: "csrv \<Rightarrow> connection \<Rightarrow> sm_result" where
  "sm_connect srv con =
     bindR (chunkqueue_reset (cx_read_queue con)) (\<lambda>(eff, q).
       Inr (map Chunk eff, False, srv, con\<lparr>cx_read_queue := q, cx_req := (cx_req con)\<lparr>cn_request_count := 0\<rparr>\<rparr>))"

definition sm_close :: "sm_env \<Rightarrow> csrv \<Rightarrow> connection \<Rightarrow> sm_result" where
  "sm_close e srv con =
     (let con = (if cn_keep_alive (cx_req con) \<and> se_fionread e > 0 then con else con\<lparr>cx_close_timeout_ts := 0\<rparr>)
      in if cs_cur_ts srv - cx_close_timeout_ts con > 1
         then bindR (connection_close srv con) (\<lambda>(eff, srv, con). Inr (eff, False, srv, con))
         else Inr ([], False, srv, con))"

definition sm_read :: "sm_env \<Rightarrow> csrv \<Rightarrow> connection \<Rightarrow> sm_result" where
  "sm_read e srv con =
     bindR (connection_handle_read_state (se_read e) (se_file e) (cs_cur_ts srv) con) (\<lambda>(_, eff, con).
       Inr (map Rd eff, False, srv, con))"

definition write_queue :: "sm_env \<Rightarrow> csrv \<Rightarrow> connection \<Rightarrow> (effect list \<times> csrv \<times> connection) res" where
  "write_queue e srv con =
     (if chunkqueue_is_empty (cx_write_queue con) = 0 \<and> cx_is_writable con
      then bindR (connection_handle_write e srv con) (\<lambda>(eff, srv, con).
             Inr (eff, srv, if cx_state con = CON_STATE_WRITE then con\<lparr>cx_write_request_ts := cs_cur_ts srv\<rparr> else con))
      else Inr ([], srv, con))"

definition sm_write :: "sm_env \<Rightarrow> csrv \<Rightarrow> connection \<Rightarrow> sm_result" where
  "sm_write e srv con = bindR (write_queue e srv con) (\<lambda>(eff, srv, con). Inr (eff, False, srv, con))"

definition sm_error :: "sm_env \<Rightarrow> csrv \<Rightarrow> connection \<Rightarrow> sm_result" where
  "sm_error e srv con =
     (let con = (if cn_http_status (cx_req con) \<noteq> 0 then se_request_done e con else con);
          con = (if cx_mode con = DIRECT then con else se_connection_close e con)
      in bindR (connection_reset e srv con) (\<lambda>(eff, con).
         bindR (if cn_keep_alive (cx_req con) \<and> se_shutdown e
                then Inr ([], srv, connection_set_state (con\<lparr>cx_close_timeout_ts := cs_cur_ts srv\<rparr>) CON_STATE_CLOSE)
                else connection_close srv con) (\<lambda>(eff', srv, con).
           Inr (eff @ eff', False, srv\<lparr>cs_con_closed := cs_con_closed srv + 1\<rparr>, set_keep_alive con False))))"

definition sm_step :: "sm_env \<Rightarrow> csrv \<Rightarrow> connection \<Rightarrow> sm_result" where
  "sm_step e srv con =
     (case cx_state con of
        CON_STATE_REQUEST_START \<Rightarrow> sm_request_start srv con
      | CON_STATE_REQUEST_END \<Rightarrow> sm_request_end e srv con
      | CON_STATE_HANDLE_REQUEST \<Rightarrow> sm_handle_request e srv con
      | CON_STATE_RESPONSE_START \<Rightarrow> sm_response_start e srv con
      | CON_STATE_RESPONSE_END \<Rightarrow> sm_response_end e srv con
      | CON_STATE_CONNECT \<Rightarrow> sm_connect srv con
      | CON_STATE_CLOSE \<Rightarrow> sm_close e srv con
      | CON_STATE_READ \<Rightarrow> sm_read e srv con
      | CON_STATE_READ_POST \<Rightarrow> sm_read e srv con
      | CON_STATE_WRITE \<Rightarrow> sm_write e srv con
      | CON_STATE_ERROR \<Rightarrow> sm_error e srv con)"

text \<open>The event the connection waits for after the loop.\<close>

definition wait_event :: "connection \<Rightarrow> effect" where
  "wait_event con =
     (case cx_state con of
        CON_STATE_READ_POST \<Rightarrow> EventAdd (cx_fd con) FDEVENT_IN
      | CON_STATE_READ \<Rightarrow> EventAdd (cx_fd con) FDEVENT_IN
      | CON_STATE_CLOSE \<Rightarrow> EventAdd (cx_fd con) FDEVENT_IN
      | CON_STATE_WRITE \<Rightarrow>
          if chunkqueue_is_empty (cx_write_queue con) = 0 \<and> \<not> cx_is_writable con \<and> \<not> cx_traffic_limit_reached con
          then EventAdd (cx_fd con) FDEVENT_OUT else EventDel (cx_fd con)
      | _ \<Rightarrow> EventDel (cx_fd con))"

text \<open>
  The loop, with the answers \<open>env k\<close> in turn \<open>k\<close>. It may run forever, so it has a number of turns; \<open>None\<close> is
  a loop that has not ended after them.
\<close>

fun connection_state_machine ::
  "nat \<Rightarrow> (nat \<Rightarrow> sm_env) \<Rightarrow> nat \<Rightarrow> csrv \<Rightarrow> connection \<Rightarrow> (effect list \<times> csrv \<times> connection) option res" where
  "connection_state_machine 0 env k srv con = Inr None"
| "connection_state_machine (Suc n) env k srv con =
     bindR (sm_step (env k) srv con) (\<lambda>(eff, again, srv, con').
       if again \<or> cx_state con' \<noteq> cx_state con
       then bindR (connection_state_machine n env (k + 1) srv con') (\<lambda>r.
              Inr (map_option (\<lambda>(eff', r). (eff @ eff', r)) r))
       else Inr (Some (eff @ [wait_event con'], srv, con')))"

section \<open>Events and new connections\<close>

record revents =
  rv_in :: bool
  rv_out :: bool
  rv_err :: bool
  rv_hup :: bool
  rv_other :: bool

definition fdevent_flags :: "revents \<Rightarrow> connection \<Rightarrow> connection" where
  "fdevent_flags rv con =
     (let con = (if rv_in rv then con\<lparr>cx_is_readable := True\<rparr> else con);
          con = (if rv_out rv then con\<lparr>cx_is_writable := True\<rparr> else con)
      in if rv_hup rv
         then if cx_state con = CON_STATE_CLOSE then con\<lparr>cx_close_timeout_ts := 0\<rparr> else connection_set_state con CON_STATE_ERROR
         else if rv_err rv then connection_set_state con CON_STATE_ERROR
         else con)"

definition connection_handle_fdevent ::
  "sm_env \<Rightarrow> revents \<Rightarrow> csrv \<Rightarrow> connection \<Rightarrow> (effect list \<times> csrv \<times> connection) res" where
  "connection_handle_fdevent e rv srv con =
     (let srv = joblist_append srv con; con = fdevent_flags rv con
      in bindR (if cx_state con = CON_STATE_READ \<or> cx_state con = CON_STATE_READ_POST
                then bindR (connection_handle_read_state (se_read e) (se_file e) (cs_cur_ts srv) con) (\<lambda>(_, eff, con).
                       Inr (map Rd eff, con))
                else Inr ([], con)) (\<lambda>(eff, con).
         bindR (if cx_state con = CON_STATE_WRITE then write_queue e srv con else Inr ([], srv, con)) (\<lambda>(eff', srv, con).
           Inr (eff @ eff', srv, if cx_state con = CON_STATE_CLOSE \<and> \<not> se_fionread e > 0 then con\<lparr>cx_close_timeout_ts := 0\<rparr> else con))))"

text \<open>\<open>accept\<close> returns \<open>None\<close> or a descriptor; with no room in the table it is not called.\<close>

definition connection_accept ::
  "sm_env \<Rightarrow> int option \<Rightarrow> bool \<Rightarrow> csrv \<Rightarrow> (effect list \<times> csrv \<times> connection option) res" where
  "connection_accept e fd fcntl srv =
     (if pl_used (cs_pool srv) \<ge> cs_max_conns srv then Inr ([], srv, None)
      else case fd of
        None \<Rightarrow> Inr ([], srv, None)
      | Some cnt \<Rightarrow>
          bindR (pool_new (cs_pool srv)) (\<lambda>(c, p).
            let n = length (pl_ptr (cs_pool srv));
                conns = (if length (pl_ptr p) > n
                         then (\<lambda>i. if n \<le> i then connection_init (cs_conf srv) (cs_tempdirs srv) i else cs_conns srv i) else cs_conns srv);
                srv = srv\<lparr>cs_cur_fds := cs_cur_fds srv + 1, cs_con_opened := cs_con_opened srv + 1, cs_pool := p, cs_conns := conns\<rparr>
            in bindR (connection_reset e srv (conns c)) (\<lambda>(eff, con).
                 let con = (connection_set_state (con\<lparr>cx_fd := cnt\<rparr>) CON_STATE_REQUEST_START)\<lparr>cx_connection_start := cs_cur_ts srv\<rparr>;
                     srv = srv\<lparr>cs_conns := (cs_conns srv)(c := con)\<rparr>
                 in Inr (eff @ [Register cnt], srv, if fcntl then Some con else None))))"

end
