(* ===== verification/Lt_Conn_Read_Facts.thy ===== *)
theory Lt_Conn_Read_Facts
  imports Lt_Conn_Read
begin

text \<open>
  The header of a request is found wherever the chunk boundaries lie, if no chunk in the middle is
  shorter than three bytes, and the bytes behind it stay in the queue. One byte per chunk hides the end.
\<close>

section \<open>Chunks that were read\<close>

definition rd_chunk :: "chunk \<Rightarrow> bool" where
  "rd_chunk c \<longleftrightarrow> ck_wf c \<and> ck_type c = MEM_CHUNK \<and> bf_used (ck_mem c) \<noteq> 0 \<and>
     0 \<le> ck_offset c \<and> ck_offset c < int (bf_used (ck_mem c))"

definition unread :: "chunk \<Rightarrow> bytes" where
  "unread c = drop (nat (ck_offset c)) (buf_text (ck_mem c))"

definition unread_all :: "chunk list \<Rightarrow> bytes" where
  "unread_all cs = concat (map unread cs)"

lemma unread_all_simps [simp]:
  "unread_all [] = []" "unread_all (c # cs) = unread c @ unread_all cs" "unread_all (cs @ ds) = unread_all cs @ unread_all ds"
  by (simp_all add: unread_all_def)

lemma rd_chunk_text:
  assumes "rd_chunk c"
  shows "bf_used (ck_mem c) = length (buf_text (ck_mem c)) + 1"
    "read_cells (bf_used (ck_mem c)) (bf_ptr (ck_mem c)) = Inr (buf_text (ck_mem c) @ [0])"
    "n \<le> length (buf_text (ck_mem c)) \<Longrightarrow> read_cells n (bf_ptr (ck_mem c)) = Inr (take n (buf_text (ck_mem c)))"
proof -
  let ?s = "buf_text (ck_mem c)"
  have h: "holds (ck_mem c) ?s" and u: "bf_used (ck_mem c) \<noteq> 0" using assms by (simp_all add: rd_chunk_def ck_wf_def)
  note p = holds_prefix [OF h u]
  show "bf_used (ck_mem c) = length ?s + 1" by (rule p(1))
  have t: "take (length ?s + 1) (bf_ptr (ck_mem c)) = map Some (?s @ [0])" using h u by (auto simp: holds_def)
  show "read_cells (bf_used (ck_mem c)) (bf_ptr (ck_mem c)) = Inr (?s @ [0])"
    using p(2) unfolding read_cells_def p(1) t by (simp add: comp_def)
  assume n: "n \<le> length ?s"
  have "take n (take (length ?s) (bf_ptr (ck_mem c))) = take n (map Some ?s)" using p(3) by simp
  then have tn: "take n (bf_ptr (ck_mem c)) = map Some (take n ?s)" using n by (simp add: min_def take_map)
  show "read_cells n (bf_ptr (ck_mem c)) = Inr (take n ?s)"
    using p(2) n unfolding read_cells_def tn by (simp add: comp_def)
qed

lemma chunk_view_unread:
  assumes "rd_chunk c"
  shows "chunk_view c = Inr (unread c @ [0])"
proof -
  have o: "0 \<le> ck_offset c" "ck_offset c \<le> int (bf_used (ck_mem c))" "nat (ck_offset c) \<le> length (buf_text (ck_mem c))"
    using assms rd_chunk_text(1) [OF assms] by (auto simp: rd_chunk_def)
  then show ?thesis by (simp add: chunk_view_def rd_chunk_text(2) [OF assms] unread_def)
qed

section \<open>The end of a header in a stream\<close>

fun header_end :: "bytes \<Rightarrow> nat option" where
  "header_end [] = None"
| "header_end (c # s) = (if take 4 (c # s) = crlf2 then Some 4 else map_option Suc (header_end s))"

lemma header_end_bounds: "header_end s = Some n \<Longrightarrow> 4 \<le> n \<and> n \<le> length s \<and> take 4 (drop (n - 4) s) = crlf2"
proof (induction s arbitrary: n)
  case (Cons c s)
  show ?case
  proof (cases "take 4 (c # s) = crlf2")
    case True
    then have "length (take 4 (c # s)) = 4" by (simp add: crlf2_def)
    then show ?thesis using True Cons.prems by simp
  next
    case False
    then obtain m where "header_end s = Some m" "n = Suc m" using Cons.prems by (auto simp del: take_Suc_Cons)
    moreover then have "Suc m - 4 = Suc (m - 4)" using Cons.IH [of m] by auto
    ultimately show ?thesis using Cons.IH [of m] by auto
  qed
qed simp

lemma header_end_drop:
  "(header_end (s @ t) = None \<longrightarrow> header_end t = None) \<and>
   (\<forall>n. header_end (s @ t) = Some n \<and> length s + 4 \<le> n \<longrightarrow> header_end t = Some (n - length s))"
proof (induction s)
  case (Cons c s)
  then show ?case by (auto simp del: take_Suc_Cons split: if_splits)
qed simp

section \<open>The search\<close>

text \<open>What the search in one chunk finds, \<open>s\<close> being its bytes and \<open>t\<close> all that follows.\<close>

definition found_in :: "nat \<Rightarrow> bytes \<Rightarrow> bytes \<Rightarrow> (nat \<times> nat) option" where
  "found_in i s t = (case header_end (s @ t) of
     None \<Rightarrow> None
   | Some n \<Rightarrow> if n < length s + 4 then Some (if n \<le> length s then (0, i + n) else (1, n - length s)) else None)"

lemma found_in_Nil: "found_in i [] t = None"
  using header_end_bounds [of t] by (cases "header_end t") (auto simp: found_in_def)

lemma found_in_Cons:
  "found_in i (c # s) t = (if take 4 (c # s @ t) = crlf2 then Some (if 3 \<le> length s then (0, i + 4) else (1, 3 - length s))
     else found_in (i + 1) s t)"
  by (auto simp: found_in_def simp del: take_Suc_Cons split: option.split)

lemma short_not_crlf2: "length s < 4 \<Longrightarrow> s \<noteq> crlf2"
  by (auto simp: crlf2_def)

definition next_ok :: "chunk option \<Rightarrow> bytes \<Rightarrow> bool" where
  "next_ok nxt t \<longleftrightarrow> (case nxt of None \<Rightarrow> t = []
     | Some c \<Rightarrow> rd_chunk c \<and> ck_offset c = 0 \<and> (\<exists>r. t = unread c @ r \<and> (3 \<le> length (unread c) \<or> r = [])))"

lemma scan_text_finds:
  assumes "next_ok nxt t"
  shows "scan_text nxt i (s @ [0]) = Inr (found_in i s t)"
proof (induction s arbitrary: i)
  case Nil
  then show ?case by (simp add: found_in_Nil)
next
  case (Cons c s)
  let ?here = "take 4 (c # s @ t) = crlf2"
  have go: "scan_text nxt (i + 1) (s @ [0]) = Inr (found_in (i + 1) s t)" by (rule Cons.IH)
  show ?case
  proof (cases "c = 13")
    case False
    then have "\<not> ?here" by (auto simp: crlf2_def)
    then show ?thesis using False go by (simp add: found_in_Cons)
  next
    case c: True
    show ?thesis
    proof (cases "3 \<le> length s")
      case True
      then have "take 4 (c # s @ [0]) = take 4 (c # s @ t)" by (simp add: numeral_eq_Suc)
      then show ?thesis using True c go unfolding found_in_Cons append_Cons scan_text.simps by simp
    next
      case short: False
      show ?thesis
      proof (cases nxt)
        case None
        then have "length (take 4 (c # s @ t)) < 4" using short assms by (simp add: next_ok_def)
        then have "\<not> ?here" by (rule short_not_crlf2)
        then show ?thesis using None short c go by (simp add: found_in_Cons)
      next
        case (Some n)
        then obtain r where n: "rd_chunk n" "ck_offset n = 0" "t = unread n @ r" "3 \<le> length (unread n) \<or> r = []"
          using assms by (auto simp: next_ok_def)
        let ?u = "buf_text (ck_mem n)" and ?m = "3 - length s"
        have u: "unread n = ?u" "bf_used (ck_mem n) = length ?u + 1" using n(2) rd_chunk_text(1) [OF n(1)] by (simp_all add: unread_def)
        show ?thesis
        proof (cases "?m \<le> length ?u")
          case True
          have rd: "read_cells ?m (bf_ptr (ck_mem n)) = Inr (take ?m ?u)" by (rule rd_chunk_text(3) [OF n(1) True])
          have t4: "take 4 (c # s @ t) = (c # s) @ take ?m ?u" using short True n(3) u(1) by (simp add: numeral_eq_Suc)
          have split: "crlf2 = take (Suc (length s)) crlf2 @ drop (Suc (length s)) crlf2" by simp
          have len: "length (take (Suc (length s)) crlf2) = length (c # s)" using short by (simp add: crlf2_def)
          have eq: "?here \<longleftrightarrow> c # s = take (Suc (length s)) crlf2 \<and> take ?m ?u = drop (Suc (length s)) crlf2"
            unfolding t4 by (subst split) (use len in \<open>simp del: append_Cons append_take_drop_id\<close>)
          have tk: "take (length (s @ [0])) (c # s @ [0]) = c # s" by simp
          have miss: "4 - length (s @ [0]) = ?m" "length (s @ [0]) = Suc (length s)" by simp_all
          have ty: "ck_type n = MEM_CHUNK" using n(1) by (simp add: rd_chunk_def)
          have "scan_text nxt i (c # s @ [0]) =
              (if c # s = take (Suc (length s)) crlf2
               then if take ?m ?u = drop (Suc (length s)) crlf2 then Inr (Some (1, ?m)) else scan_text nxt (i + 1) (s @ [0])
               else scan_text nxt (i + 1) (s @ [0]))"
            using c short Some True u(2) ty unfolding scan_text.simps miss tk by (simp add: miss rd)
          then show ?thesis using go eq short unfolding append_Cons found_in_Cons by auto
        next
          case False
          then have r: "r = []" using n(4) u(1) short by auto
          then have "length (take 4 (c # s @ t)) < 4" using False short n(3) u(1) by simp
          then have "\<not> ?here" by (rule short_not_crlf2)
          moreover have "scan_text nxt i (c # s @ [0]) = scan_text nxt (i + 1) (s @ [0])"
            using c short Some False u(2) by simp
          ultimately show ?thesis using go by (simp add: found_in_Cons)
        qed
      qed
    qed
  qed
qed

text \<open>Chunks as they lie in a read queue: only the first has been read from, those between it and the last are not too short.\<close>

fun later_ok :: "chunk list \<Rightarrow> bool" where
  "later_ok [] = True"
| "later_ok (c # cs) \<longleftrightarrow> rd_chunk c \<and> ck_offset c = 0 \<and> (3 \<le> length (unread c) \<or> cs = []) \<and> later_ok cs"

definition chunks_ok :: "chunk list \<Rightarrow> bool" where
  "chunks_ok cs \<longleftrightarrow> (case cs of [] \<Rightarrow> True | c # cs \<Rightarrow> rd_chunk c \<and> later_ok cs)"

lemma later_chunks_ok: "later_ok cs \<Longrightarrow> chunks_ok cs"
  by (cases cs) (simp_all add: chunks_ok_def)

lemma later_next_ok: "later_ok cs \<Longrightarrow> next_ok (case cs of [] \<Rightarrow> None | n # _ \<Rightarrow> Some n) (unread_all cs)"
  by (cases cs) (auto simp: next_ok_def)

lemma find_header_finds:
  assumes "chunks_ok cs"
  shows "case header_end (unread_all cs) of
    None \<Rightarrow> find_header k cs = Inr None
  | Some n \<Rightarrow> \<exists>j off. find_header k cs = Inr (Some (k + j, off)) \<and> j < length cs \<and> off \<le> length (unread (cs ! j)) \<and>
      length (unread_all (take j cs)) + off = n"
  using assms
proof (induction cs arbitrary: k)
  case (Cons c cs)
  have c: "rd_chunk c" "later_ok cs" using Cons.prems by (simp_all add: chunks_ok_def)
  have scan: "scan_text (case cs of [] \<Rightarrow> None | n # _ \<Rightarrow> Some n) 0 (unread c @ [0]) = Inr (found_in 0 (unread c) (unread_all cs))"
    by (rule scan_text_finds [OF later_next_ok [OF c(2)]])
  have f: "find_header k (c # cs) = (case found_in 0 (unread c) (unread_all cs) of
      Some (d, off) \<Rightarrow> Inr (Some (k + d, off)) | None \<Rightarrow> find_header (k + 1) cs)"
    by (simp add: chunk_view_unread [OF c(1)] scan split: option.split)
  note ih = Cons.IH [OF later_chunks_ok [OF c(2)], of "k + 1"]
  note rest = header_end_drop [of "unread c" "unread_all cs"]
  show ?case
  proof (cases "header_end (unread c @ unread_all cs)")
    case None
    then show ?thesis using f ih rest by (simp add: found_in_def)
  next
    case (Some n)
    note b = header_end_bounds [OF Some]
    consider "n \<le> length (unread c)" | "length (unread c) < n" "n < length (unread c) + 4" | "length (unread c) + 4 \<le> n" by linarith
    then show ?thesis
    proof cases
      case 1
      then show ?thesis using f Some by (auto simp: found_in_def intro!: exI [of _ "0 :: nat"])
    next
      case 2
      have "unread_all cs \<noteq> []" using 2 b by auto
      then obtain d ds where cs: "cs = d # ds" by (cases cs) auto
      have "n - length (unread c) \<le> length (unread d)" using 2 b c(2) cs by auto
      then show ?thesis using f Some 2 cs by (auto simp: found_in_def intro!: exI [of _ "1 :: nat"])
    next
      case 3
      then have e: "header_end (unread_all cs) = Some (n - length (unread c))" using rest Some by auto
      have "found_in 0 (unread c) (unread_all cs) = None" using 3 Some by (simp add: found_in_def)
      then obtain j off where "find_header k (c # cs) = Inr (Some (k + 1 + j, off))" "j < length cs" "off \<le> length (unread (cs ! j))"
          "length (unread_all (take j cs)) + off = n - length (unread c)"
        using f ih e by auto
      then show ?thesis using Some 3 by (auto intro!: exI [of _ "Suc j"])
    qed
  qed
qed simp

section \<open>Copying the header\<close>

lemma rd_chunk_numbers:
  assumes "rd_chunk c"
  obtains n where "ck_offset c = int n" "n \<le> length (buf_text (ck_mem c))" "bf_used (ck_mem c) = length (buf_text (ck_mem c)) + 1"
    "ck_type c = MEM_CHUNK" "unread c = drop n (buf_text (ck_mem c))"
proof
  show "ck_offset c = int (nat (ck_offset c))" "ck_type c = MEM_CHUNK" using assms by (simp_all add: rd_chunk_def)
  show u: "bf_used (ck_mem c) = length (buf_text (ck_mem c)) + 1" by (rule rd_chunk_text(1) [OF assms])
  show "unread c = drop (nat (ck_offset c)) (buf_text (ck_mem c))" by (simp add: unread_def)
  show "nat (ck_offset c) \<le> length (buf_text (ck_mem c))" using assms unfolding rd_chunk_def u by auto
qed

lemma finished_unread:
  assumes "rd_chunk c"
  shows "chunk_finished c \<longleftrightarrow> unread c = []"
proof -
  from assms obtain n where "ck_offset c = int n" "n \<le> length (buf_text (ck_mem c))" "bf_used (ck_mem c) = length (buf_text (ck_mem c)) + 1"
    "ck_type c = MEM_CHUNK" "unread c = drop n (buf_text (ck_mem c))" by (rule rd_chunk_numbers)
  then show ?thesis by (auto simp: chunk_finished_def)
qed

lemma rd_chunk_move:
  assumes "rd_chunk c" "m \<le> length (buf_text (ck_mem c))"
  shows "rd_chunk (c\<lparr>ck_offset := int m\<rparr>)" "unread (c\<lparr>ck_offset := int m\<rparr>) = drop m (buf_text (ck_mem c))"
  using assms rd_chunk_text(1) [OF assms(1)] by (simp_all add: rd_chunk_def unread_def ck_wf_def)

lemma rd_chunk_forward:
  assumes "rd_chunk c" "off \<le> length (unread c)"
  shows "rd_chunk (c\<lparr>ck_offset := ck_offset c + int off\<rparr>)" "unread (c\<lparr>ck_offset := ck_offset c + int off\<rparr>) = drop off (unread c)"
proof -
  from assms(1) obtain n where n: "ck_offset c = int n" "n \<le> length (buf_text (ck_mem c))" "unread c = drop n (buf_text (ck_mem c))"
    by (rule rd_chunk_numbers)
  then have m: "n + off \<le> length (buf_text (ck_mem c))" "ck_offset c + int off = int (n + off)" using assms(2) by simp_all
  show "rd_chunk (c\<lparr>ck_offset := ck_offset c + int off\<rparr>)" "unread (c\<lparr>ck_offset := ck_offset c + int off\<rparr>) = drop off (unread c)"
    using rd_chunk_move [OF assms(1) m(1)] unfolding m(2) n(3) by (simp_all add: add.commute)
qed

lemma rd_chunk_all:
  assumes "rd_chunk c"
  shows "rd_chunk (c\<lparr>ck_offset := int (bf_used (ck_mem c)) - 1\<rparr>)" "unread (c\<lparr>ck_offset := int (bf_used (ck_mem c)) - 1\<rparr>) = []"
proof -
  have e: "int (bf_used (ck_mem c)) - 1 = int (length (buf_text (ck_mem c)))" using rd_chunk_text(1) [OF assms] by simp
  show "rd_chunk (c\<lparr>ck_offset := int (bf_used (ck_mem c)) - 1\<rparr>)" "unread (c\<lparr>ck_offset := int (bf_used (ck_mem c)) - 1\<rparr>) = []"
    using rd_chunk_move [OF assms order_refl] unfolding e by simp_all
qed

lemma copy_header_cuts:
  assumes "list_all rd_chunk cs" "j < length cs" "off \<le> length (unread (cs ! j))"
  shows "\<exists>ds. copy_header j off cs = Inr (unread_all (take j cs) @ take off (unread (cs ! j)), ds) \<and>
    (\<exists>us. list_all (\<lambda>c. rd_chunk c \<and> unread c = []) us \<and> length us = j \<and>
       ds = us @ (cs ! j)\<lparr>ck_offset := ck_offset (cs ! j) + int off\<rparr> # drop (Suc j) cs)"
  using assms
proof (induction cs arbitrary: j)
  case (Cons c cs)
  have c: "rd_chunk c" using Cons.prems by simp
  note view = chunk_view_unread [OF c]
  show ?case
  proof (cases j)
    case 0
    then show ?thesis using Cons.prems view by (auto intro!: exI [of _ "[]"])
  next
    case (Suc i)
    obtain ds us where "copy_header i off cs = Inr (unread_all (take i cs) @ take off (unread (cs ! i)), ds)"
        "list_all (\<lambda>c. rd_chunk c \<and> unread c = []) us" "length us = i"
        "ds = us @ (cs ! i)\<lparr>ck_offset := ck_offset (cs ! i) + int off\<rparr> # drop (Suc i) cs"
      using Cons.IH [of i] Cons.prems Suc by auto
    then show ?thesis using Suc view rd_chunk_all [OF c]
      by (auto intro!: exI [of _ "c\<lparr>ck_offset := int (bf_used (ck_mem c)) - 1\<rparr> # us"])
  qed
qed simp

section \<open>The read handler\<close>

definition read_queue_ok :: "chunkqueue \<Rightarrow> bool" where
  "read_queue_ok cq \<longleftrightarrow> cq_ok cq \<and> list_all rd_chunk (cq_chunks cq) \<and> list_all (\<lambda>c. ck_offset c = 0) (tl (cq_chunks cq))"

abbreviation pending :: "connection \<Rightarrow> bytes" where
  "pending con \<equiv> unread_all (cq_chunks (cx_read_queue con))"

lemma clean_tail_id: "list_all (\<lambda>c. bf_used (ck_mem c) \<noteq> 0) cs \<Longrightarrow> clean_tail cs = (cs, [])"
  by (induction cs rule: clean_tail.induct) auto

lemma clean_queue_id: "list_all rd_chunk (cq_chunks cq) \<Longrightarrow> clean_queue cq = cq"
proof -
  assume "list_all rd_chunk (cq_chunks cq)"
  then have "list_all (\<lambda>c. bf_used (ck_mem c) \<noteq> 0) (cq_chunks cq)" by (auto simp: list_all_iff rd_chunk_def)
  then have "clean_chunks (cq_chunks cq) = (cq_chunks cq, [])" using clean_tail_id by (cases "cq_chunks cq") auto
  then show ?thesis by (simp add: clean_queue_def)
qed

lemma prepared_holds:
  assumes "buf_ok b" "length d < bf_size b" "bf_used b = 0"
  shows "\<exists>m. blit 0 (d @ [0]) (bf_ptr b) = Inr m \<and> holds (b\<lparr>bf_ptr := m, bf_used := length d + 1\<rparr>) d"
  using assms by (auto simp: blit_def holds_def buf_ok_def)

lemma read_appends:
  assumes "read_queue_ok (cx_read_queue con)" "\<not> cx_is_ssl con" "re_ioctl e = Some n" "0 \<le> n"
    and d: "\<And>m. re_read e m = Inr d" "d \<noteq> []" "length d \<le> nat n"
  shows "\<exists>con' c. connection_handle_read e con = Inr (0, con') \<and> cx_state con' = cx_state con \<and> cx_req con' = cx_req con \<and>
    cq_chunks (cx_read_queue con') = cq_chunks (cx_read_queue con) @ [c] \<and> rd_chunk c \<and> ck_offset c = 0 \<and> unread c = d \<and>
    cq_ok (cx_read_queue con')"
proof -
  let ?q = "cx_read_queue con"
  have ok: "cq_ok ?q" using assms(1) by (simp add: read_queue_ok_def)
  then obtain c cq where u: "chunkqueue_get_unused_chunk ?q = (c, cq)" "ck_wf c" "cq_ok cq" "cq_chunks cq = cq_chunks ?q"
    by (rule get_unused_ok)
  let ?b = "buffer_prepare_copy (buffer_reset (ck_mem c)) (nat (n + 1))"
  have "buf_ok (buffer_reset (ck_mem c))" using u(2) by (auto simp: ck_wf_def intro: holds_ok buffer_reset_holds)
  note b = prepare_copy_spec [OF this, of "nat (n + 1)"]
  have "length d < bf_size ?b" using b d(3) assms(4) by (simp add: nat_add_distrib)
  then obtain m where m: "blit 0 (d @ [0]) (bf_ptr ?b) = Inr m" "holds (?b\<lparr>bf_ptr := m, bf_used := length d + 1\<rparr>) d"
    using prepared_holds b by blast
  let ?c = "mem_chunk (?b\<lparr>bf_ptr := m, bf_used := length d + 1\<rparr>) c"
  have t: "buf_text (ck_mem ?c) = d" using m(2) by (simp add: mem_chunk_def holds_text)
  have c: "rd_chunk ?c" "ck_offset ?c = 0"
    using m(2) t u(2) by (simp_all add: rd_chunk_def ck_wf_def mem_chunk_def)
  moreover have "unread ?c = d" using t c(2) by (simp add: unread_def)
  moreover have "cq_ok (chunkqueue_append_chunk cq ?c)" using append_mem_chunk [OF u(3,2) m(2)] by blast
  ultimately show ?thesis
    using assms(2,3) d(1,2) u m(1)
    by (simp add: connection_handle_read_def Let_def chunkqueue_append_chunk_def)
qed

lemma read_keeps_content: "connection_handle_read e con = Inr (r, con') \<Longrightarrow> cx_content_queue con' = cx_content_queue con"
  by (auto simp: connection_handle_read_def Let_def connection_set_state_def bindR_eq_Inr
      split: if_splits option.splits prod.splits sum.splits sock_errno.splits)

lemma rd_chunk_rest: "rd_chunk c \<Longrightarrow> ck_rest fs c = unread c"
  by (simp add: rd_chunk_def ck_rest_def unread_def)

lemma unread_finished: "list_all (\<lambda>c. rd_chunk c \<and> unread c = []) us \<Longrightarrow> unread_all us = [] \<and> list_all chunk_finished us"
  by (induction us) (simp_all add: finished_unread)

lemma unread_all_finished: "\<forall>c \<in> set cs. rd_chunk c \<and> chunk_finished c \<Longrightarrow> unread_all cs = []"
  by (auto simp: unread_all_def finished_unread)

text \<open>Removing the chunks that were read to their end.\<close>

lemma remove_read:
  assumes "cq_ok cq" "cq_chunks cq = us @ cs" "list_all (\<lambda>c. rd_chunk c \<and> unread c = []) us" "list_all rd_chunk cs"
    "list_all (\<lambda>c. ck_offset c = 0) (tl cs)"
  shows "\<exists>eff cq'. chunkqueue_remove_finished_chunks cq = Inr (eff, cq') \<and> read_queue_ok cq' \<and> unread_all (cq_chunks cq') = unread_all cs"
proof -
  let ?cs = "cq_chunks cq"
  have pre: "\<forall>c \<in> set (?cs @ cq_unused cq). ck_wf c" "cq_unused_chunks cq = length (cq_unused cq)" "cq_unused_chunks cq \<le> 5"
    using assms(1) by (simp_all add: cq_ok_def)
  obtain eff k u n where r: "remove_finished ?cs (cq_unused cq) (cq_unused_chunks cq) = Inr (eff, drop k ?cs, u, n)"
      "\<forall>c \<in> set u. ck_wf c" "n = length u" "n \<le> 5" "\<forall>c \<in> set (take k ?cs). chunk_finished c"
      "drop k ?cs = [] \<or> \<not> chunk_finished (hd (drop k ?cs))"
    using remove_finished_spec [OF pre] by blast
  have us: "unread_all us = []" "list_all chunk_finished us" using unread_finished [OF assms(3)] by simp_all
  have rd: "list_all rd_chunk ?cs" using assms(2-4) by (auto simp: list_all_iff)
  have "length us \<le> k \<or> drop k ?cs = []"
  proof (rule ccontr)
    assume "\<not> (length us \<le> k \<or> drop k ?cs = [])"
    then have "hd (drop k ?cs) = us ! k" "us ! k \<in> set us" using assms(2) by (auto simp: hd_drop_conv_nth nth_append)
    then show False using us(2) r(6) \<open>\<not> (length us \<le> k \<or> drop k ?cs = [])\<close> by (auto simp: list_all_iff)
  qed
  then obtain i where i: "drop k ?cs = drop i cs"
    using assms(2) by (cases "drop k ?cs = []") (auto simp: intro: that [of "length cs"] that [of "k - length us"])
  have tl: "list_all (\<lambda>c. ck_offset c = 0) (tl (drop i cs))"
    using assms(5) by (metis drop_Suc list_all_iff set_drop_subset subsetD tl_drop)
  have "unread_all (take k ?cs) = []"
    using r(5) rd by (intro unread_all_finished) (auto simp: list_all_iff dest: in_set_takeD)
  then have "unread_all (drop k ?cs) = unread_all ?cs" by (metis append_Nil append_take_drop_id unread_all_simps(3))
  then have un: "unread_all (drop k ?cs) = unread_all cs" using assms(2) us(1) by simp
  let ?cq = "cq\<lparr>cq_chunks := drop k ?cs, cq_unused := u, cq_unused_chunks := n\<rparr>"
  have "cq_ok ?cq" using assms(1) r(2-4) by (auto simp: cq_ok_def dest: in_set_dropD)
  moreover have "list_all rd_chunk (drop k ?cs)" using rd by (auto simp: list_all_iff dest: in_set_dropD)
  ultimately have "read_queue_ok ?cq" using tl i by (simp add: read_queue_ok_def)
  then show ?thesis using r(1) un by (intro exI [of _ eff] exI [of _ ?cq]) (simp add: chunkqueue_remove_finished_chunks_def)
qed

lemma read_header_cuts:
  assumes q: "cq_ok (cx_read_queue con)" "chunks_ok (cq_chunks (cx_read_queue con))" "cx_state con = CON_STATE_READ"
  shows "\<exists>con' us cs. read_header con = Inr con' \<and> cq_ok (cx_read_queue con') \<and> cq_chunks (cx_read_queue con') = us @ cs \<and>
    list_all (\<lambda>c. rd_chunk c \<and> unread c = []) us \<and> list_all rd_chunk cs \<and> list_all (\<lambda>c. ck_offset c = 0) (tl cs) \<and>
    (case header_end (pending con) of
       Some k \<Rightarrow> cx_state con' = CON_STATE_REQUEST_END \<and> cn_request (cx_req con') = take k (pending con) \<and> unread_all cs = drop k (pending con)
     | None \<Rightarrow> unread_all cs = pending con \<and> (con' = con \<or> cx_state con' = CON_STATE_HANDLE_REQUEST \<and> cn_http_status (cx_req con') = 414))"
proof -
  let ?cs = "cq_chunks (cx_read_queue con)"
  have later: "list_all rd_chunk cs \<and> list_all (\<lambda>c. ck_offset c = 0) cs" if "later_ok cs" for cs
    using that by (induction cs) auto
  then have rd: "list_all rd_chunk ?cs" "list_all (\<lambda>c. ck_offset c = 0) (tl ?cs)"
    using q(2) by (cases ?cs; simp add: chunks_ok_def)+
  note f = find_header_finds [OF q(2), of 0]
  show ?thesis
  proof (cases "header_end (pending con)")
    case None
    define con' where "con' = (if chunkqueue_length (cx_read_queue con) > 64 * 1024
      then connection_set_state (set_keep_alive (set_status con 414) False) CON_STATE_HANDLE_REQUEST else con)"
    have "read_header con = Inr con'" using f None by (simp add: read_header_def con'_def)
    moreover have "cx_read_queue con' = cx_read_queue con"
      "con' = con \<or> cx_state con' = CON_STATE_HANDLE_REQUEST \<and> cn_http_status (cx_req con') = 414"
      by (simp_all add: con'_def connection_set_state_def set_keep_alive_def set_status_def)
    ultimately show ?thesis using None q(1) rd by (intro exI [of _ con'] exI [of _ "[]"] exI [of _ ?cs]) simp
  next
    case (Some k)
    then obtain j off where j: "find_header 0 ?cs = Inr (Some (j, off))" "j < length ?cs" "off \<le> length (unread (?cs ! j))"
        "length (unread_all (take j ?cs)) + off = k"
      using f by auto
    obtain us where us: "copy_header j off ?cs = Inr (unread_all (take j ?cs) @ take off (unread (?cs ! j)),
          us @ (?cs ! j)\<lparr>ck_offset := ck_offset (?cs ! j) + int off\<rparr> # drop (Suc j) ?cs)"
        "list_all (\<lambda>c. rd_chunk c \<and> unread c = []) us"
      using copy_header_cuts [OF rd(1) j(2,3)] by blast
    let ?d = "(?cs ! j)\<lparr>ck_offset := ck_offset (?cs ! j) + int off\<rparr>"
    have dj: "rd_chunk ?d" "unread ?d = drop off (unread (?cs ! j))"
      using rd_chunk_forward [OF _ j(3)] rd(1) j(2) by (simp_all add: list_all_length)
    have cut: "pending con = unread_all (take j ?cs) @ unread (?cs ! j) @ unread_all (drop (Suc j) ?cs)"
      by (metis append_take_drop_id Cons_nth_drop_Suc j(2) unread_all_simps(2,3))
    have tk: "take k (pending con) = unread_all (take j ?cs) @ take off (unread (?cs ! j))"
      "drop k (pending con) = unread_all (?d # drop (Suc j) ?cs)"
      using j(3,4) dj(2) unfolding cut by auto
    have tl: "list_all (\<lambda>c. ck_offset c = 0) (drop (Suc j) ?cs)"
      using rd(2) by (metis drop_Suc list_all_iff set_drop_subset subsetD)
    have rds: "list_all rd_chunk (?d # drop (Suc j) ?cs)" using dj(1) rd(1) by (auto simp: list_all_iff dest: in_set_dropD)
    let ?q = "(cx_read_queue con)\<lparr>cq_chunks := us @ ?d # drop (Suc j) ?cs\<rparr>"
    have "\<forall>c \<in> set (us @ ?d # drop (Suc j) ?cs). rd_chunk c" using us(2) rds by (auto simp: list_all_iff)
    then have okq: "cq_ok ?q" using q(1) by (simp add: cq_ok_def rd_chunk_def) blast
    let ?c = "connection_set_state (con\<lparr>cx_req := (cx_req con)\<lparr>cn_request := take k (pending con)\<rparr>, cx_read_queue := ?q\<rparr>) CON_STATE_REQUEST_END"
    have "read_header con = Inr ?c" using j(1) us(1) tk(1) by (simp add: read_header_def)
    then show ?thesis using okq us(2) rds tl tk(2) Some
      by (intro exI [of _ ?c] exI [of _ us] exI [of _ "?d # drop (Suc j) ?cs"]) (simp add: connection_set_state_def)
  qed
qed


text \<open>A chunk with a few bytes, as a read leaves it, and a connection that waits for the rest of a header.\<close>

definition mem_of :: "bytes \<Rightarrow> chunk" where
  "mem_of t = mem_chunk \<lparr>bf_ptr = map Some (t @ [0]), bf_used = length t + 1, bf_size = length t + 1\<rparr> chunk_init"

lemma mem_of_facts: "rd_chunk (mem_of t)" "ck_offset (mem_of t) = 0" "unread (mem_of t) = t" "ck_wf (mem_of t)" "ck_type (mem_of t) = MEM_CHUNK"
proof -
  have h: "holds (ck_mem (mem_of t)) t" by (simp add: mem_of_def mem_chunk_def holds_def buf_ok_def)
  then have "buf_text (ck_mem (mem_of t)) = t" by (rule holds_text)
  then show "rd_chunk (mem_of t)" "ck_offset (mem_of t) = 0" "unread (mem_of t) = t" "ck_wf (mem_of t)" "ck_type (mem_of t) = MEM_CHUNK"
    using h holds_own [OF buffer_init_holds]
    by (simp_all add: rd_chunk_def unread_def ck_wf_def mem_of_def mem_chunk_def chunk_init_def)
qed

definition queue_of :: "bytes list \<Rightarrow> chunkqueue" where
  "queue_of ts = chunkqueue_init\<lparr>cq_chunks := map mem_of ts\<rparr>"

lemma queue_of_ok: "read_queue_ok (queue_of ts)" "unread_all (cq_chunks (queue_of ts)) = concat ts"
proof -
  have "list_all (\<lambda>c. ck_offset c = 0) (tl (map mem_of ts))" by (cases ts) (simp_all add: list_all_iff mem_of_facts)
  then show "read_queue_ok (queue_of ts)"
    by (auto simp: read_queue_ok_def queue_of_def cq_ok_def chunkqueue_init_def list_all_iff mem_of_facts)
  show "unread_all (cq_chunks (queue_of ts)) = concat ts"
    by (simp add: queue_of_def unread_all_def mem_of_facts comp_def)
qed

definition conf_plain :: specific_config where
  "conf_plain = \<lparr>sc_allow_http11 = True, sc_error_handler = [], sc_errorfile_prefix = [], sc_server_tag = [], sc_is_ssl = False,
     sc_kbytes_per_second = 0, sc_global_kbytes_per_second = 0, sc_max_read_idle = 60, sc_max_keep_alive_idle = 5, sc_max_write_idle = 360\<rparr>"

definition conn_reading :: "bytes list \<Rightarrow> connection" where
  "conn_reading ts = (connection_init conf_plain [] 0)\<lparr>cx_state := CON_STATE_READ, cx_is_readable := True, cx_read_queue := queue_of ts\<rparr>"

definition fe_none :: file_env where
  "fe_none = \<lparr>fe_mkstemp = (\<lambda>t. (-1, t)), fe_open = (\<lambda>_. -1), fe_write = (\<lambda>_ _. -1)\<rparr>"


section \<open>An end that is not found\<close>

lemma scan_text_none: "13 \<notin> set t \<Longrightarrow> scan_text nxt i (t @ [0]) = Inr None"
  by (induction t arbitrary: i) auto

lemma find_header_skip:
  assumes "\<forall>t \<in> set ts. 13 \<notin> set t"
  shows "find_header k (map mem_of ts @ cs) = find_header (k + length ts) cs"
  using assms by (induction ts arbitrary: k) (simp_all add: chunk_view_unread mem_of_facts scan_text_none)

lemma chunk_length_mem_of: "chunk_length (mem_of t) = int (length t)"
  by (simp add: chunk_length_def mem_of_def mem_chunk_def)



section \<open>Bodies in memory\<close>

lemma post_to_mem_spec:
  assumes "cq_ok cq"
  shows "\<exists>cq'. post_to_mem cq t = Inr cq' \<and> cq_ok cq' \<and> cq_rest fs cq' = cq_rest fs cq @ t \<and> cq_bytes_in cq' = cq_bytes_in cq"
proof -
  obtain c cq1 where u: "chunkqueue_get_unused_chunk cq = (c, cq1)" "ck_wf c" "cq_ok cq1" "cq_chunks cq1 = cq_chunks cq"
    using get_unused_ok [OF assms] by blast
  have bi: "cq_bytes_in cq1 = cq_bytes_in cq" using u(1) by (auto simp: chunkqueue_get_unused_chunk_def split: list.splits)
  have "buf_ok (buffer_reset (ck_mem c))" using u(2) by (auto simp: ck_wf_def intro: holds_ok buffer_reset_holds)
  from copy_string_len_spec [OF this, of "length t" t] obtain r b
    where b: "buffer_copy_string_len (buffer_reset (ck_mem c)) (Some t) (length t) = Inr (r, b)" "holds b t" by auto
  have "post_to_mem cq t = Inr (chunkqueue_append_chunk cq1 (mem_chunk b c))"
    using u(1) b(1) by (simp add: post_to_mem_def chunkqueue_get_append_buffer_def chunkqueue_append_chunk_def mem_chunk_def set_last_def)
  moreover have "cq_rest fs cq1 = cq_rest fs cq" using u(4) by (simp add: cq_rest_def)
  ultimately show ?thesis using append_mem_chunk [OF u(3,2) b(2), of fs] bi by (auto simp: chunkqueue_append_chunk_def)
qed

lemma chunk_bytes_spec:
  assumes "rd_chunk c" "n \<le> length (unread c)"
  shows "chunk_bytes c (int n) = Inr (take n (unread c))"
proof -
  from assms(1) obtain m where m: "ck_offset c = int m" "m \<le> length (buf_text (ck_mem c))" "unread c = drop m (buf_text (ck_mem c))"
    by (rule rd_chunk_numbers)
  have "m + n \<le> length (buf_text (ck_mem c))" using m(2,3) assms(2) by simp
  then have "read_cells (m + n) (bf_ptr (ck_mem c)) = Inr (take (m + n) (buf_text (ck_mem c)))" by (rule rd_chunk_text(3) [OF assms(1)])
  then show ?thesis by (simp add: chunk_bytes_def m(1,3) nat_add_distrib [symmetric] take_drop nat_int_add add.commute)
qed

lemma post_loop_collects:
  assumes "clen \<le> 64 * 1024" "cq_ok dst" "cq_bytes_in dst = int (length (cq_rest fs dst))" "length (cq_rest fs dst) \<le> clen"
    "list_all rd_chunk cs" "list_all (\<lambda>c. ck_offset c = 0) (tl cs)"
  shows "\<exists>dst' us ds. post_loop e (int clen) dst cs = Inr ([], dst', us @ ds, True) \<and> cq_ok dst' \<and>
    cq_rest fs dst' = take clen (cq_rest fs dst @ unread_all cs) \<and> cq_bytes_in dst' = int (length (cq_rest fs dst')) \<and>
    list_all (\<lambda>c. rd_chunk c \<and> unread c = []) us \<and> list_all rd_chunk ds \<and> list_all (\<lambda>c. ck_offset c = 0) (tl ds) \<and>
    unread_all ds = drop (clen - length (cq_rest fs dst)) (unread_all cs)"
  using assms
proof (induction cs arbitrary: dst)
  case Nil
  then show ?case by (intro exI [of _ dst] exI [of _ "[]"]) simp
next
  case (Cons c cs)
  let ?b = "cq_rest fs dst"
  show ?case
  proof (cases "length ?b = clen")
    case True
    then show ?thesis using Cons.prems by (intro exI [of _ dst] exI [of _ "[]"] exI [of _ "c # cs"]) simp
  next
    case False
    have c: "rd_chunk c" using Cons.prems by simp
    have tl: "list_all (\<lambda>c. ck_offset c = 0) cs" "list_all (\<lambda>c. ck_offset c = 0) (tl cs)"
      using Cons.prems(6) by (simp, cases cs, simp_all)
    from c obtain m where m: "ck_offset c = int m" "m \<le> length (buf_text (ck_mem c))"
        "bf_used (ck_mem c) = length (buf_text (ck_mem c)) + 1" "unread c = drop m (buf_text (ck_mem c))" by (rule rd_chunk_numbers)
    have have_len: "int (bf_used (ck_mem c)) - ck_offset c - 1 = int (length (unread c))" using m by simp
    define n where "n = min (length (unread c)) (clen - length ?b)"
    have n: "n \<le> length (unread c)" "(if int (length (unread c)) > int clen - int (length ?b) then int clen - int (length ?b) else int (length (unread c))) = int n"
      using Cons.prems(4) by (auto simp: n_def)
    obtain dst1 where d1: "post_to_mem dst (take n (unread c)) = Inr dst1" "cq_ok dst1" "cq_rest fs dst1 = ?b @ take n (unread c)"
        "cq_bytes_in dst1 = cq_bytes_in dst"
      using post_to_mem_spec [OF Cons.prems(2), of "take n (unread c)" fs] by blast
    let ?dst = "dst1\<lparr>cq_bytes_in := cq_bytes_in dst1 + int n\<rparr>" and ?c = "c\<lparr>ck_offset := ck_offset c + int n\<rparr>"
    have rest: "cq_rest fs ?dst = ?b @ take n (unread c)" "cq_ok ?dst" using d1(2,3) by (simp_all add: cq_rest_def cq_ok_def)
    note fwd = rd_chunk_forward [OF c n(1)]
    have step: "post_loop e (int clen) dst (c # cs) =
        bindR (post_loop e (int clen) ?dst cs) (\<lambda>(eff', dst, cs, ok). Inr ([] @ eff', dst, ?c # cs, ok))"
      using False Cons.prems(1,3) m(3) d1(1) chunk_bytes_spec [OF c n(1)] have_len n(2) by (simp add: Let_def del: append_Nil)
    have le: "length (cq_rest fs ?dst) \<le> clen" using rest(1) n(1) Cons.prems(4) by (simp add: n_def)
    have bi: "cq_bytes_in ?dst = int (length (cq_rest fs ?dst))" using rest(1) d1(4) Cons.prems(3) n(1) by simp
    from Cons.IH [OF Cons.prems(1) rest(2) bi le _ tl(2)] Cons.prems(5)
    obtain dst' us ds where ih: "post_loop e (int clen) ?dst cs = Inr ([], dst', us @ ds, True)" "cq_ok dst'"
        "cq_rest fs dst' = take clen (cq_rest fs ?dst @ unread_all cs)" "cq_bytes_in dst' = int (length (cq_rest fs dst'))"
        "list_all (\<lambda>c. rd_chunk c \<and> unread c = []) us" "list_all rd_chunk ds" "list_all (\<lambda>c. ck_offset c = 0) (tl ds)"
        "unread_all ds = drop (clen - length (cq_rest fs ?dst)) (unread_all cs)" by auto
    have res: "cq_rest fs dst' = take clen (?b @ unread_all (c # cs))"
      using ih(3) rest(1) Cons.prems(4) by (auto simp: n_def min_def)
    show ?thesis
    proof (cases "n = length (unread c)")
      case True
      have un: "unread ?c = []" using fwd(2) True by simp
      have "unread_all ds = drop (clen - length ?b) (unread_all (c # cs))"
        using ih(8) rest(1) True Cons.prems(4) n(1) by (simp add: n_def min_def split: if_splits)
      then show ?thesis using step ih(1,2,4-7) res fwd(1) un
        by (intro exI [of _ dst'] exI [of _ "?c # us"] exI [of _ ds]) simp
    next
      case part: False
      then have full: "length (cq_rest fs ?dst) = clen" using rest(1) n(1) Cons.prems(4) by (simp add: n_def min_def split: if_splits)
      have nl: "n = clen - length ?b" "n < length (unread c)" using part by (simp_all add: n_def min_def split: if_splits)
      have stop: "post_loop e (int clen) ?dst cs = Inr ([], ?dst, cs, True)" using bi full by (cases cs) simp_all
      have "unread_all (?c # cs) = drop (clen - length ?b) (unread_all (c # cs))" using fwd(2) nl by simp
      moreover have "cq_rest fs ?dst = take clen (?b @ unread_all (c # cs))" using rest(1) nl Cons.prems(4) by simp
      ultimately show ?thesis using step stop rest(2) bi fwd(1) Cons.prems(5) tl(1)
        by (intro exI [of _ ?dst] exI [of _ "[]"] exI [of _ "?c # cs"]) simp
    qed
  qed
qed

text \<open>
  C29. A body of at most 64 kB is collected byte for byte: what the client has sent so far, up to the announced
  length, is in the queue of the body, what lies behind it (the next request) stays in the read queue, and
  the request is handled exactly when the body is complete.
\<close>

theorem body_is_collected:
  assumes "cx_state con = CON_STATE_READ_POST" "cx_is_readable con" "\<not> cx_is_ssl con" "read_queue_ok (cx_read_queue con)"
    and "re_ioctl re = Some n" "0 \<le> n" "\<And>m. re_read re m = Inr d" "d \<noteq> []" "length d \<le> nat n"
    and "cq_ok (cx_content_queue con)" "cq_bytes_in (cx_content_queue con) = int (length (cq_rest fs (cx_content_queue con)))"
    and "rq_content_length (cx_req con) \<le> 64 * 1024" "length (cq_rest fs (cx_content_queue con)) \<le> rq_content_length (cx_req con)"
  shows "\<exists>eff con'. connection_handle_read_state re fe ts con = Inr (0, eff, con') \<and> read_queue_ok (cx_read_queue con') \<and>
    (let len = rq_content_length (cx_req con); body = cq_rest fs (cx_content_queue con); sent = body @ pending con @ d
     in cq_rest fs (cx_content_queue con') = take len sent \<and> pending con' = drop (len - length body) (pending con @ d) \<and>
        cx_state con' = (if len \<le> length sent then CON_STATE_HANDLE_REQUEST else CON_STATE_READ_POST))"
proof -
  let ?c0 = "con\<lparr>cx_read_idle_ts := ts\<rparr>" and ?cs = "cq_chunks (cx_read_queue con)"
  let ?len = "rq_content_length (cx_req con)" and ?body = "cq_rest fs (cx_content_queue con)"
  obtain c1 c where c1: "connection_handle_read re ?c0 = Inr (0, c1)" "cx_state c1 = CON_STATE_READ_POST" "cx_req c1 = cx_req con"
      "cq_chunks (cx_read_queue c1) = ?cs @ [c]" "rd_chunk c" "ck_offset c = 0" "unread c = d" "cq_ok (cx_read_queue c1)"
      "cx_content_queue c1 = cx_content_queue con"
    using read_appends [of ?c0 re n d] read_keeps_content [of re ?c0] assms by fastforce
  have rd: "list_all rd_chunk (?cs @ [c])" "list_all (\<lambda>c. ck_offset c = 0) (tl (?cs @ [c]))"
    using assms(4) c1(5,6) by (auto simp: read_queue_ok_def tl_append split: list.split)
  have cl: "c1\<lparr>cx_read_queue := clean_queue (cx_read_queue c1)\<rparr> = c1"
    using clean_queue_id [of "cx_read_queue c1"] rd(1) c1(4) by simp
  obtain dst us ds where p: "post_loop fe (int ?len) (cx_content_queue con) (?cs @ [c]) = Inr ([], dst, us @ ds, True)" "cq_ok dst"
      "cq_rest fs dst = take ?len (?body @ unread_all (?cs @ [c]))" "cq_bytes_in dst = int (length (cq_rest fs dst))"
      "list_all (\<lambda>c. rd_chunk c \<and> unread c = []) us" "list_all rd_chunk ds" "list_all (\<lambda>c. ck_offset c = 0) (tl ds)"
      "unread_all ds = drop (?len - length ?body) (unread_all (?cs @ [c]))"
    using post_loop_collects [OF assms(12,10,11,13) rd] by blast
  let ?q = "(cx_read_queue c1)\<lparr>cq_chunks := us @ ds\<rparr>"
  have "\<forall>c \<in> set (us @ ds). rd_chunk c" using p(5,6) by (auto simp: list_all_iff)
  then have "cq_ok ?q" using c1(8) by (simp add: cq_ok_def rd_chunk_def) blast
  then obtain eff q where q: "chunkqueue_remove_finished_chunks ?q = Inr (eff, q)" "read_queue_ok q" "unread_all (cq_chunks q) = unread_all ds"
    using remove_read [of ?q us ds] p(5-7) by auto
  have "cq_bytes_in dst = int ?len \<longleftrightarrow> ?len \<le> length (?body @ pending con @ d)" using p(3,4) c1(7) by auto
  moreover define c2 where "c2 = c1\<lparr>cx_content_queue := dst, cx_read_queue := ?q,
      cx_state := (if cq_bytes_in dst = int ?len then CON_STATE_HANDLE_REQUEST else CON_STATE_READ_POST)\<rparr>"
  moreover have "read_post fe c1 = Inr ([], c2)"
    using p(1) c1(2,3,4,9) by (simp add: read_post_def Let_def c2_def connection_set_state_def)
  then have "connection_handle_read_state re fe ts con = Inr (0, map Cleanup eff, c2\<lparr>cx_read_queue := q\<rparr>)"
    using assms(1,2) c1(1) q(1) cl by (simp add: connection_handle_read_state_def read_body_def Let_def c2_def)
  ultimately show ?thesis
    using q(2,3) p(3,8) c1(7)
    by (intro exI [of _ "map Cleanup eff"] exI [of _ "c2\<lparr>cx_read_queue := q\<rparr>"]) (simp add: Let_def c2_def)
qed

theorem body_is_collected_witness:
  "\<exists>eff con'. connection_handle_read_state \<lparr>re_ioctl = Some 3, re_read = (\<lambda>_. Inr [66, 67, 68])\<rparr> fe_none 7
      ((conn_reading [[65]])\<lparr>cx_state := CON_STATE_READ_POST, cx_req := req_zero\<lparr>rq_content_length := 3\<rparr>\<rparr>) = Inr (0, eff, con') \<and>
    cq_rest (\<lambda>_. []) (cx_content_queue con') = [65, 66, 67] \<and> pending con' = [68] \<and> cx_state con' = CON_STATE_HANDLE_REQUEST"
proof -
  let ?c = "(conn_reading [[65]])\<lparr>cx_state := CON_STATE_READ_POST, cx_req := req_zero\<lparr>rq_content_length := 3\<rparr>\<rparr>"
  have q: "read_queue_ok (cx_read_queue ?c)" "pending ?c = [65]" using queue_of_ok [of "[[65]]"] by (simp_all add: conn_reading_def)
  have e: "cx_content_queue ?c = chunkqueue_init" "cx_is_readable ?c" "\<not> cx_is_ssl ?c"
    by (simp_all add: conn_reading_def connection_init_def config_setup_connection_def conf_plain_def chunkqueue_set_tempdirs_def chunkqueue_init_def)
  have r: "cq_rest (\<lambda>_. []) chunkqueue_init = []" "cq_bytes_in chunkqueue_init = 0" by (simp_all add: cq_rest_def chunkqueue_init_def)
  show ?thesis
    using body_is_collected [OF _ e(2,3) q(1), of "\<lparr>re_ioctl = Some 3, re_read = (\<lambda>_. Inr [66, 67, 68])\<rparr>" 3 "[66, 67, 68]" "\<lambda>_. []" fe_none 7]
    unfolding q(2) e(1) r by (auto simp: Let_def)
qed

end
