(* ===== verification/Lt_Conn_Facts.thy ===== *)
theory Lt_Conn_Facts
  imports Lt_Conn Lt_Conn_Read_Facts
begin

text \<open>
  The table of connections holds exactly the open ones, each under its own index; the state machine rests
  only in states in which a connection waits; a connection in an error is closed at once.
\<close>

section \<open>The table of connections\<close>

text \<open>
  A use of the table: \<open>None\<close> opens a connection, \<open>Some c\<close> closes \<open>c\<close>. The connections that are still open,
  given the numbers handed out.
\<close>

fun still_open :: "'c option list \<Rightarrow> 'c list \<Rightarrow> 'c set \<Rightarrow> 'c set" where
  "still_open [] cs S = S"
| "still_open (None # os) cs S = (case cs of [] \<Rightarrow> S | c # cs \<Rightarrow> still_open os cs (insert c S))"
| "still_open (Some c # os) cs S = still_open os cs (S - {c})"

text \<open>What the server relies on: opening gives an entry that was free, closing frees it.\<close>

locale open_table =
  fixes ok :: "'t \<Rightarrow> bool" and opened :: "'t \<Rightarrow> 'c set" and newt :: "'t \<Rightarrow> ('c \<times> 't) res" and delt :: "'t \<Rightarrow> 'c \<Rightarrow> (int \<times> 't) res"
  assumes new_ok: "ok t \<Longrightarrow> \<exists>c t'. newt t = Inr (c, t') \<and> ok t' \<and> c \<notin> opened t \<and> opened t' = insert c (opened t)"
    and del_ok: "ok t \<Longrightarrow> c \<in> opened t \<Longrightarrow> \<exists>t'. delt t c = Inr (0, t') \<and> ok t' \<and> opened t' = opened t - {c}"
    and del_closed: "ok t \<Longrightarrow> c \<notin> opened t \<Longrightarrow> delt t c = Inr (-1, t)"
begin

fun use_table :: "'c option list \<Rightarrow> 't \<Rightarrow> ('c list \<times> 't) res" where
  "use_table [] t = Inr ([], t)"
| "use_table (None # os) t = bindR (newt t) (\<lambda>(c, t). bindR (use_table os t) (\<lambda>(cs, t). Inr (c # cs, t)))"
| "use_table (Some c # os) t = bindR (delt t c) (\<lambda>(_, t). use_table os t)"

lemma use_table_ok: "ok t \<Longrightarrow> \<exists>cs t'. use_table os t = Inr (cs, t') \<and> ok t' \<and> opened t' = still_open os cs (opened t)"
proof (induction os arbitrary: t)
  case (Cons o1 os)
  show ?case
  proof (cases o1)
    case None
    obtain c t1 where n: "newt t = Inr (c, t1)" "ok t1" "opened t1 = insert c (opened t)" using new_ok [OF Cons.prems] by blast
    then show ?thesis using Cons.IH [OF n(2)] None by auto
  next
    case (Some c)
    obtain r t1 where d: "delt t c = Inr (r, t1)" "ok t1" "opened t1 = opened t - {c}"
      using del_ok [OF Cons.prems, of c] del_closed [OF Cons.prems, of c] Cons.prems by (cases "c \<in> opened t") auto
    then show ?thesis using Cons.IH [OF d(2)] Some by auto
  qed
qed simp

end

definition pool_ok :: "pool \<Rightarrow> bool" where
  "pool_ok p \<longleftrightarrow> pl_used p \<le> length (pl_ptr p) \<and> distinct (pl_ptr p) \<and> set (pl_ptr p) = {..<length (pl_ptr p)} \<and>
     (\<forall>i < pl_used p. pl_ndx p (pl_ptr p ! i) = int i) \<and> (\<forall>c. c \<notin> set (take (pl_used p) (pl_ptr p)) \<longrightarrow> pl_ndx p c = -1)"

definition pool_open :: "pool \<Rightarrow> nat set" where
  "pool_open p = set (take (pl_used p) (pl_ptr p))"

lemma pool_init_ok: "pool_ok pool_init" "pool_open pool_init = {}"
  by (simp_all add: pool_ok_def pool_open_def pool_init_def)

lemma grow_list:
  assumes "distinct xs" "set xs = {..<length xs}"
  shows "distinct (xs @ [length xs..<length xs + m])" "set (xs @ [length xs..<length xs + m]) = {..<length xs + m}"
proof -
  show "distinct (xs @ [length xs..<length xs + m])" using assms by (simp add: assms(2) disjoint_iff)
  show "set (xs @ [length xs..<length xs + m]) = {..<length xs + m}" using assms(2) by (auto simp: assms(2))
qed

lemma pool_new_ok:
  assumes "pool_ok p"
  shows "\<exists>c p'. pool_new p = Inr (c, p') \<and> pool_ok p' \<and> c \<notin> pool_open p \<and> pool_open p' = insert c (pool_open p)"
proof -
  let ?n = "length (pl_ptr p)" and ?u = "pl_used p"
  define q where "q = (if ?n = 0 \<or> ?n = ?u then p\<lparr>pl_ptr := pl_ptr p @ [?n..<?n + 128]\<rparr> else p)"
  have p: "?u \<le> ?n" "distinct (pl_ptr p)" "set (pl_ptr p) = {..<?n}" "\<forall>i < ?u. pl_ndx p (pl_ptr p ! i) = int i"
      "\<forall>c. c \<notin> set (take ?u (pl_ptr p)) \<longrightarrow> pl_ndx p c = -1" using assms by (simp_all add: pool_ok_def)
  have q: "distinct (pl_ptr q)" "set (pl_ptr q) = {..<length (pl_ptr q)}" "?u < length (pl_ptr q)" "take ?u (pl_ptr q) = take ?u (pl_ptr p)"
    "pl_ndx q = pl_ndx p" "pl_used q = ?u"
  proof -
    show "pl_ndx q = pl_ndx p" "pl_used q = ?u" by (simp_all add: q_def)
    show "take ?u (pl_ptr q) = take ?u (pl_ptr p)" using p(1) by (simp add: q_def)
    show "?u < length (pl_ptr q)" using p(1) by (simp add: q_def)
    have "length (pl_ptr q) = (if ?n = 0 \<or> ?n = ?u then ?n + 128 else ?n)" by (simp add: q_def)
    then show "distinct (pl_ptr q)" "set (pl_ptr q) = {..<length (pl_ptr q)}"
      using grow_list [OF p(2,3), of 128] p(2,3) by (simp_all only: q_def pool.simps split: if_split) simp_all
  qed
  let ?c = "pl_ptr q ! ?u"
  let ?r = "q\<lparr>pl_ndx := (pl_ndx q)(?c := int ?u), pl_used := ?u + 1\<rparr>"
  have r: "pool_new p = Inr (?c, ?r)" using q(3,6) by (simp add: pool_new_def Let_def q_def get_at_def)
  have tk: "take (?u + 1) (pl_ptr q) = take ?u (pl_ptr p) @ [?c]" using q(3,4) by (simp add: take_Suc_conv_app_nth)
  have new: "?c \<notin> set (take ?u (pl_ptr p))"
    using q(1,3,4) by (metis distinct_append distinct_take not_distinct_conv_prefix tk)
  have low: "pl_ptr q ! i = pl_ptr p ! i" if "i < ?u" for i using q(4) that by (metis nth_take)
  have "pl_ndx ?r (pl_ptr q ! i) = int i" if "i < ?u + 1" for i
  proof (cases "i = ?u")
    case False
    then have i: "i < ?u" using that by simp
    then have "pl_ptr p ! i \<in> set (take ?u (pl_ptr p))" using p(1) by (auto simp: in_set_conv_nth intro!: exI [of _ i])
    then show ?thesis using i new p(4) q(5) low by auto
  qed simp
  then have "pool_ok ?r" using q p(5) tk by (auto simp: pool_ok_def)
  then show ?thesis using r new tk by (auto simp: pool_open_def)
qed

lemma pool_del_ok:
  assumes "pool_ok p" "c \<in> pool_open p"
  shows "\<exists>p'. connection_del p c = Inr (0, p') \<and> pool_ok p' \<and> pool_open p' = pool_open p - {c}"
proof -
  let ?n = "length (pl_ptr p)" and ?u = "pl_used p"
  have p: "?u \<le> ?n" "distinct (pl_ptr p)" "set (pl_ptr p) = {..<?n}" "\<forall>i < ?u. pl_ndx p (pl_ptr p ! i) = int i"
      "\<forall>c. c \<notin> set (take ?u (pl_ptr p)) \<longrightarrow> pl_ndx p c = -1" using assms(1) by (simp_all add: pool_ok_def)
  obtain i where i: "i < ?u" "c = pl_ptr p ! i" using assms(2) p(1) by (auto simp: pool_open_def in_set_conv_nth)
  obtain l0 where u: "?u = Suc l0" using i(1) by (cases ?u) auto
  let ?l = l0
  have l: "?l < ?u" "?l < ?n" "i < ?n" "int ?u - 1 = int ?l" using i p(1) u by auto
  let ?ptr = "(pl_ptr p)[i := pl_ptr p ! ?l, ?l := c]"
  let ?d = "pl_ptr p ! ?l"
  define q where "q = p\<lparr>pl_ptr := ?ptr, pl_used := ?l, pl_ndx := (pl_ndx p)(?d := int i, c := -1)\<rparr>"
  have ndx: "pl_ndx p c = int i" using i p(4) by simp
  have r: "connection_del p c = Inr (0, q)"
  proof (cases "i = ?l")
    case True
    then have "?ptr = pl_ptr p" "?d = c" using i(2) by simp_all
    then show ?thesis using True ndx u by (simp add: connection_del_def Let_def q_def)
  next
    case False
    then have "?d \<noteq> c" using p(2) l i(2) by (simp add: nth_eq_iff_index_eq)
    then show ?thesis using False ndx l(2,3) i(2) u by (simp add: connection_del_def Let_def q_def get_at_def)
  qed
  have nth: "?ptr ! k = (if k = ?l then c else if k = i then ?d else pl_ptr p ! k)" if "k < ?n" for k
    using that l by (auto simp: nth_list_update)
  have perm: "set ?ptr = set (pl_ptr p)" "distinct ?ptr"
    using set_swap [of i "pl_ptr p" ?l] distinct_swap [of i "pl_ptr p" ?l] p(2) l i(2) by simp_all
  have inj: "pl_ptr p ! k = pl_ptr p ! m \<longleftrightarrow> k = m" if "k < ?n" "m < ?n" for k m using p(2) that by (simp add: nth_eq_iff_index_eq)
  have low: "pl_ndx q (?ptr ! k) = int k" if "k < ?l" for k
  proof -
    have k: "k < ?n" "k \<noteq> ?l" "k < ?u" using that l by auto
    show ?thesis using nth [OF k(1)] k inj [OF _ l(3)] inj [OF _ l(2)] l i p(4) by (auto simp: q_def)
  qed
  have opn: "set (take ?l ?ptr) = set (take ?u (pl_ptr p)) - {c}"
  proof -
    have "x \<in> set (take ?l ?ptr) \<longleftrightarrow> (\<exists>k < ?u. k \<noteq> i \<and> x = pl_ptr p ! k)" for x
    proof
      assume "x \<in> set (take ?l ?ptr)"
      then obtain k where k: "k < ?l" "x = ?ptr ! k" using l by (auto simp: in_set_conv_nth)
      show "\<exists>k < ?u. k \<noteq> i \<and> x = pl_ptr p ! k"
      proof (cases "k = i")
        case True
        then show ?thesis using k l nth [of k] by (intro exI [of _ ?l]) auto
      next
        case False
        then show ?thesis using k l nth [of k] by (intro exI [of _ k]) auto
      qed
    next
      assume "\<exists>k < ?u. k \<noteq> i \<and> x = pl_ptr p ! k"
      then obtain k where k: "k < ?u" "k \<noteq> i" "x = pl_ptr p ! k" by blast
      let ?k = "if k = ?l then i else k"
      have "?k < ?l" "?ptr ! ?k = x" using k i(1) l nth [of ?k] by auto
      then show "x \<in> set (take ?l ?ptr)" using l by (auto simp: in_set_conv_nth intro!: exI [of _ ?k])
    qed
    moreover have "x \<in> set (take ?u (pl_ptr p)) \<longleftrightarrow> (\<exists>k < ?u. x = pl_ptr p ! k)" for x
      using p(1) by (auto simp: in_set_conv_nth)
    ultimately show ?thesis using i inj p(1) by (auto simp: i(2))
  qed
  have dset: "?d \<in> set (take ?u (pl_ptr p))" using l p(1) by (auto simp: in_set_conv_nth intro!: exI [of _ ?l])
  have "pl_ndx q x = -1" if "x \<notin> set (take ?l ?ptr)" for x
    using that p(5) dset unfolding opn by (auto simp: q_def)
  then have "pool_ok q" using low perm p(1-3) l by (auto simp: pool_ok_def q_def)
  then show ?thesis using r opn by (auto simp: pool_open_def q_def)
qed

lemma pool_del_closed: "pool_ok p \<Longrightarrow> c \<notin> pool_open p \<Longrightarrow> connection_del p c = Inr (-1, p)"
  by (simp add: pool_ok_def pool_open_def connection_del_def)

interpretation conns: open_table pool_ok pool_open pool_new connection_del
  by unfold_locales (simp_all add: pool_new_ok pool_del_ok pool_del_closed)

fun use_pool :: "nat option list \<Rightarrow> pool \<Rightarrow> (nat list \<times> pool) res" where
  "use_pool [] p = Inr ([], p)"
| "use_pool (None # os) p = bindR (pool_new p) (\<lambda>(c, p). bindR (use_pool os p) (\<lambda>(cs, p). Inr (c # cs, p)))"
| "use_pool (Some c # os) p = bindR (connection_del p c) (\<lambda>(_, p). use_pool os p)"

lemma use_pool_table: "use_pool os p = conns.use_table os p"
  by (induction os p rule: use_pool.induct) (simp_all add: bindR_def split: sum.split)

text \<open>
  C32. However connections are opened and closed, the front of the table holds exactly those that are open,
  each once and under the index it carries: a walk over the table, as the server does it every second,
  visits every open connection and no closed one.
\<close>

theorem table_holds_open_connections:
  "\<exists>cs p. use_pool os pool_init = Inr (cs, p) \<and> set (take (pl_used p) (pl_ptr p)) = still_open os cs {} \<and>
     pl_used p = card (still_open os cs {}) \<and>
     (\<forall>c \<in> still_open os cs {}. \<exists>i < pl_used p. pl_ndx p c = int i \<and> pl_ptr p ! i = c)"
proof -
  obtain cs p where r: "use_pool os pool_init = Inr (cs, p)" "pool_ok p" "pool_open p = still_open os cs {}"
    using conns.use_table_ok [OF pool_init_ok(1), of os] pool_init_ok(2) by (auto simp: use_pool_table)
  have used: "pl_used p \<le> length (pl_ptr p)" "distinct (take (pl_used p) (pl_ptr p))" using r(2) by (auto simp: pool_ok_def)
  then have "pl_used p = card (pool_open p)" using distinct_card [OF used(2)] by (simp add: pool_open_def)
  moreover have "\<exists>i < pl_used p. pl_ndx p c = int i \<and> pl_ptr p ! i = c" if c: "c \<in> pool_open p" for c
  proof -
    obtain i where "i < pl_used p" "c = pl_ptr p ! i" using c used(1) by (auto simp: pool_open_def in_set_conv_nth)
    then show ?thesis using r(2) by (auto simp: pool_ok_def)
  qed
  ultimately show ?thesis using r(1,3) by (intro exI [of _ cs] exI [of _ p]) (simp add: pool_open_def)
qed

theorem table_holds_open_connections_witness:
  "\<exists>cs p. use_pool [None, None, Some 0] pool_init = Inr (cs, p) \<and> pl_used p = card (still_open [None, None, Some 0] cs {})"
  using table_holds_open_connections [of "[None, None, Some 0]"] by blast

end
