(* ===== verification/Lt_Conn_Machine.thy ===== *)
theory Lt_Conn_Machine
  imports Lt_Conn_Facts
begin

text \<open>
  The state machine of a connection: what the steps keep, in which states it comes to rest, that an error
  closes the connection, and that the loop ends when the input does.
\<close>

section \<open>What the steps keep\<close>

text \<open>
  What the code around a connection may not touch: the state of the machine, the identity of the connection,
  its read queue. Only the parser switches \<open>keep_alive\<close> on.
\<close>

definition fixed_part :: "connection \<Rightarrow> connection_state \<times> nat \<times> int \<times> chunkqueue \<times> bool" where
  "fixed_part con = (cx_state con, cx_id con, cx_fd con, cx_read_queue con, cx_in_error_handler con)"

definition leaves :: "connection \<Rightarrow> connection \<Rightarrow> bool" where
  "leaves con con' \<longleftrightarrow> fixed_part con' = fixed_part con \<and> (cn_keep_alive (cx_req con') \<longrightarrow> cn_keep_alive (cx_req con))"

definition hooks_ok :: "sm_env \<Rightarrow> bool" where
  "hooks_ok e \<longleftrightarrow> (\<forall>c. leaves c (se_request_done e c) \<and> leaves c (se_connection_close e c) \<and> leaves c (se_connection_reset e c) \<and>
     leaves c (snd (se_prepare e c)))"

lemma leaves_refl [simp]: "leaves c c"
  by (simp add: leaves_def)

lemma leaves_trans: "leaves a b \<Longrightarrow> leaves b c \<Longrightarrow> leaves a c"
  by (auto simp: leaves_def)

lemma leaves_simps:
  "leaves c c' \<Longrightarrow> cx_state c' = cx_state c" "leaves c c' \<Longrightarrow> cx_id c' = cx_id c" "leaves c c' \<Longrightarrow> cx_fd c' = cx_fd c"
  "leaves c c' \<Longrightarrow> cx_read_queue c' = cx_read_queue c" "leaves c c' \<Longrightarrow> cx_in_error_handler c' = cx_in_error_handler c"
  "leaves c c' \<Longrightarrow> cn_keep_alive (cx_req c') \<Longrightarrow> cn_keep_alive (cx_req c)"
  by (auto simp: leaves_def fixed_part_def)

lemma leaves_updates [simp]:
  "leaves c (c\<lparr>cx_write_queue := q\<rparr>)" "leaves c (c\<lparr>cx_resp_headers := a\<rparr>)" "leaves c (set_status c st)" "leaves c (set_keep_alive c False)"
  by (simp_all add: leaves_def fixed_part_def set_status_def set_keep_alive_def)

lemma prepare_method_leaves: "prepare_method e con = Inr (eff, con') \<Longrightarrow> leaves con con'"
  by (auto simp: prepare_method_def Let_def bindR_eq_Inr leaves_def fixed_part_def set_status_def split: if_splits)

lemma error_file_leaves: "error_file e srv con = Inr (srv', con') \<Longrightarrow> leaves con con'"
  by (auto simp: error_file_def Let_def bindR_eq_Inr leaves_def fixed_part_def split: option.splits)

lemma error_body_leaves:
  assumes "error_body e srv con = Inr (srv', con')"
  shows "leaves con con'"
proof -
  define c where "c = con\<lparr>cx_file_finished := False, cx_physical_path := []\<rparr>"
  have c0: "leaves con c" by (simp add: c_def leaves_def fixed_part_def)
  obtain p where p: "(if cx_errorfile_prefix c \<noteq> [] then error_file e srv c else Inr (srv, c)) = Inr p"
      and rest: "(case p of (srv, con) \<Rightarrow> if cx_file_finished con then Inr (srv, con)
           else bindR (append_text (error_page (cn_http_status (cx_req con))) (cx_write_queue con)) (\<lambda>q.
                bindR (response_header_overwrite (se_al e) (cx_resp_headers con) (str ''Content-Type'') (str ''text/html'')) (\<lambda>a.
                  Inr (srv, con\<lparr>cx_physical_path := [], cx_file_finished := True, cx_write_queue := q, cx_resp_headers := a\<rparr>)))) = Inr (srv', con')"
    using assms unfolding error_body_def Let_def c_def [symmetric] bindR_eq_Inr by blast
  obtain srv1 c1 where p1: "p = (srv1, c1)" by (cases p)
  have "leaves c c1" using p p1 error_file_leaves [of e srv c srv1 c1] by (auto split: if_splits)
  moreover have "leaves c1 con'"
  proof (cases "cx_file_finished c1")
    case True
    then show ?thesis using rest p1 by simp
  next
    case False
    then obtain q a where "con' = c1\<lparr>cx_physical_path := [], cx_file_finished := True, cx_write_queue := q, cx_resp_headers := a\<rparr>"
      using rest p1 by (auto simp: bindR_eq_Inr)
    then show ?thesis by (simp add: leaves_def fixed_part_def)
  qed
  ultimately show ?thesis using c0 leaves_trans by blast
qed

lemma prepare_status_leaves: "prepare_status e srv con = Inr (eff, srv', con') \<Longrightarrow> leaves con con'"
proof -
  assume h: "prepare_status e srv con = Inr (eff, srv', con')"
  define c where "c = (if cn_http_status (cx_req con) = 0 then set_status con 403 else con)"
  have "leaves con c" by (simp add: c_def)
  moreover have "leaves c con'"
    using h error_body_leaves [of e srv c]
    by (auto simp: prepare_status_def c_def [symmetric] Let_def bindR_eq_Inr leaves_def fixed_part_def split: if_splits)
  ultimately show ?thesis by (rule leaves_trans)
qed

lemma prepare_length_leaves: "prepare_length e con = Inr con' \<Longrightarrow> leaves con con'"
  by (auto simp: prepare_length_def Let_def bindR_eq_Inr leaves_def fixed_part_def set_keep_alive_def split: if_splits)

lemma prepare_head_leaves: "prepare_head con = Inr (eff, con') \<Longrightarrow> leaves con con'"
  by (auto simp: prepare_head_def bindR_eq_Inr leaves_def fixed_part_def split: if_splits)

lemma write_header_leaves: "http_response_write_header e srv con = Inr (srv', con') \<Longrightarrow> leaves con con'"
  by (auto simp: http_response_write_header_def Let_def bindR_eq_Inr leaves_def fixed_part_def)

lemma write_prepare_leaves:
  assumes "connection_handle_write_prepare e srv con = Inr (eff, srv', con')"
  shows "leaves con con'"
proof -
  obtain e1 c1 e2 s2 c2 c3 e3 c4 where "prepare_method e con = Inr (e1, c1)" "prepare_status e srv c1 = Inr (e2, s2, c2)"
      "prepare_length e c2 = Inr c3" "prepare_head c3 = Inr (e3, c4)" "http_response_write_header e s2 c4 = Inr (srv', con')"
    using assms by (auto simp: connection_handle_write_prepare_def bindR_eq_Inr)
  then have "leaves con c1" "leaves c1 c2" "leaves c2 c3" "leaves c3 c4" "leaves c4 con'"
    by (simp_all add: prepare_method_leaves prepare_status_leaves prepare_length_leaves prepare_head_leaves write_header_leaves)
  then show ?thesis using leaves_trans by meson
qed

lemma network_write_leaves: "network_write_chunkqueue env srv con = Inr (r, eff, srv', con') \<Longrightarrow> leaves con con'"
  by (auto simp: network_write_chunkqueue_def Let_def bindR_eq_Inr leaves_def fixed_part_def split: if_splits)

lemma write_step:
  assumes "sm_write e srv con = Inr (eff, again, srv', con')" "cx_state con = CON_STATE_WRITE"
  shows "\<not> again" "cx_read_queue con' = cx_read_queue con" "cx_state con' \<in> {CON_STATE_WRITE, CON_STATE_RESPONSE_END, CON_STATE_ERROR}"
    "cn_keep_alive (cx_req con') \<Longrightarrow> cn_keep_alive (cx_req con)"
proof -
  have "\<not> again \<and> cx_read_queue con' = cx_read_queue con \<and> cx_state con' \<in> {CON_STATE_WRITE, CON_STATE_RESPONSE_END, CON_STATE_ERROR} \<and>
      (cn_keep_alive (cx_req con') \<longrightarrow> cn_keep_alive (cx_req con))"
  proof (cases "chunkqueue_is_empty (cx_write_queue con) = 0 \<and> cx_is_writable con")
    case False
    then have "write_queue e srv con = Inr ([], srv, con)" by (auto simp: write_queue_def)
    then show ?thesis using assms by (simp add: sm_write_def)
  next
    case True
    then obtain r eff1 s1 c1 where w: "network_write_chunkqueue (se_net e) srv con = Inr (r, eff1, s1, c1)"
      using assms(1) by (auto simp: sm_write_def write_queue_def connection_handle_write_def bindR_eq_Inr)
    note l = leaves_simps(1,4,6) [OF network_write_leaves [OF w]]
    show ?thesis using assms w True l
      by (auto simp: sm_write_def write_queue_def connection_handle_write_def connection_set_state_def Let_def split: if_splits)
  qed
  then show "\<not> again" "cx_read_queue con' = cx_read_queue con" "cx_state con' \<in> {CON_STATE_WRITE, CON_STATE_RESPONSE_END, CON_STATE_ERROR}"
    "cn_keep_alive (cx_req con') \<Longrightarrow> cn_keep_alive (cx_req con)" by blast+
qed

lemma reset_keeps:
  assumes "hooks_ok e" "connection_reset e srv con = Inr (eff, con')"
  shows "cx_state con' = cx_state con" "cx_id con' = cx_id con" "cx_fd con' = cx_fd con" "cx_read_queue con' = cx_read_queue con"
    "cn_keep_alive (cx_req con') \<Longrightarrow> cn_keep_alive (cx_req con)" "\<not> cx_in_error_handler con'"
proof -
  let ?c = "se_connection_reset e con"
  have l: "leaves con ?c" using assms(1) by (simp add: hooks_ok_def)
  obtain r rh wq rq where "req_reset (cx_req ?c) = Inr r" and c: "con' = config_setup_connection (cs_conf srv)
       (?c\<lparr>cx_req := r, cx_is_readable := True, cx_is_writable := True, cx_file_finished := False,
                      cx_file_started := False, cx_got_response := False, cx_has_content_length := False,
                      cx_has_connection := False, cx_bytes_written := 0, cx_bytes_written_cur_second := 0, cx_bytes_read := 0, cx_bytes_header := 0, cx_loops_per_request := 0,
                      cx_resp_content_length := -1, cx_chunked := False, cx_mode := DIRECT, cx_uri_path := [],
                      cx_physical_path := [], cx_error_handler := [], cx_resp_headers := rh, cx_write_queue := wq,
                      cx_content_queue := rq, cx_in_error_handler := False\<rparr>)"
    using assms(2) by (auto simp: connection_reset_def Let_def bindR_eq_Inr)
  then have "cn_keep_alive r = cn_keep_alive (cx_req ?c)" by (auto simp: req_reset_def bindR_eq_Inr)
  then show "cn_keep_alive (cx_req con') \<Longrightarrow> cn_keep_alive (cx_req con)"
    using leaves_simps(6) [OF l] c by (simp add: config_setup_connection_def)
  show "cx_state con' = cx_state con" "cx_id con' = cx_id con" "cx_fd con' = cx_fd con" "cx_read_queue con' = cx_read_queue con"
    "\<not> cx_in_error_handler con'"
    using c leaves_simps(1-4) [OF l] by (simp_all add: config_setup_connection_def)
qed

lemma close_spec:
  "connection_close srv con = Inr (eff, srv', con') \<Longrightarrow> con' = connection_set_state con CON_STATE_CONNECT \<and>
     eff = [EventDel (cx_fd con), Unregister (cx_fd con), CloseSocket (cx_fd con)]"
  by (auto simp: connection_close_def bindR_eq_Inr)

lemma set_state_simps [simp]:
  "cx_state (connection_set_state c st) = st" "cx_id (connection_set_state c st) = cx_id c" "cx_fd (connection_set_state c st) = cx_fd c"
  "cx_read_queue (connection_set_state c st) = cx_read_queue c" "cx_req (connection_set_state c st) = cx_req c"
  "cx_in_error_handler (connection_set_state c st) = cx_in_error_handler c"
  by (simp_all add: connection_set_state_def)

section \<open>The steps\<close>

abbreviation keeps_alive :: "connection \<Rightarrow> bool" where
  "keeps_alive con \<equiv> cn_keep_alive (cx_req con)"

lemma finished_step:
  assumes "sm_finished con = (b, con')"
  shows "cx_read_queue con' = cx_read_queue con" "keeps_alive con' = keeps_alive con"
    "b \<Longrightarrow> cx_state con' = CON_STATE_HANDLE_REQUEST \<and> \<not> cx_in_error_handler con \<and> cx_in_error_handler con'"
    "\<not> b \<Longrightarrow> cx_state con' = CON_STATE_RESPONSE_START"
  using assms
  by (auto simp: sm_finished_def Let_def connection_set_state_def set_status_def split: if_splits)

lemma response_prepare_leaves:
  "hooks_ok e \<Longrightarrow> http_response_prepare e con = Inr (eff, r, con') \<Longrightarrow> leaves con con' \<and>
     (r = HANDLER_FINISHED \<or> (\<exists>c. r = fst (se_prepare e c)))"
proof -
  assume e: "hooks_ok e" and h: "http_response_prepare e con = Inr (eff, r, con')"
  have "leaves con (snd (se_prepare e con))" using e by (simp add: hooks_ok_def)
  then show ?thesis using h
    by (auto simp: http_response_prepare_def bindR_eq_Inr split: if_splits) (metis fst_conv snd_conv)+
qed

text \<open>Where a request that is handled can go.\<close>

lemma handle_request_step:
  assumes "hooks_ok e" "sm_handle_request e srv con = Inr (eff, again, srv', con')" "cx_state con = CON_STATE_HANDLE_REQUEST"
  shows "cx_read_queue con' = cx_read_queue con" "keeps_alive con' \<Longrightarrow> keeps_alive con"
    "again \<Longrightarrow> cx_state con' = CON_STATE_HANDLE_REQUEST \<and>
       (\<not> cx_in_error_handler con \<and> cx_in_error_handler con' \<or> (\<exists>c. fst (se_prepare e c) = HANDLER_COMEBACK))"
    "\<not> again \<Longrightarrow> cx_state con' \<in> {CON_STATE_HANDLE_REQUEST, CON_STATE_RESPONSE_START, CON_STATE_ERROR}"
proof -
  obtain eff1 r c1 where p: "http_response_prepare e con = Inr (eff1, r, c1)"
      and q: "(case r of HANDLER_FINISHED \<Rightarrow> (let (b, con) = sm_finished c1 in (eff1, b, srv, con))
            | HANDLER_WAIT_FOR_FD \<Rightarrow> (eff1, False, fdwaitqueue_append (srv\<lparr>cs_want_fds := cs_want_fds srv + 1\<rparr>) c1,
                 connection_set_state c1 CON_STATE_HANDLE_REQUEST)
            | HANDLER_COMEBACK \<Rightarrow> (eff1, True, srv, connection_set_state c1 CON_STATE_HANDLE_REQUEST)
            | HANDLER_WAIT_FOR_EVENT \<Rightarrow> (eff1, False, srv, connection_set_state c1 CON_STATE_HANDLE_REQUEST)
            | HANDLER_ERROR \<Rightarrow> (eff1, False, srv, connection_set_state c1 CON_STATE_ERROR)
            | _ \<Rightarrow> (eff1, False, srv, c1)) = (eff, again, srv', con')"
    using assms(2) by (auto simp: sm_handle_request_def bindR_eq_Inr)
  have l: "leaves con c1" "r = HANDLER_FINISHED \<or> (\<exists>c. r = fst (se_prepare e c))" using response_prepare_leaves [OF assms(1) p] by simp_all
  note ls = leaves_simps(1,4,5,6) [OF l(1)]
  show "cx_read_queue con' = cx_read_queue con"
    using q ls(2) finished_step(1) by (cases r) (auto split: prod.splits)
  show "keeps_alive con' \<Longrightarrow> keeps_alive con"
    using q ls(4) finished_step(2) by (cases r) (auto split: prod.splits)
  show "again \<Longrightarrow> cx_state con' = CON_STATE_HANDLE_REQUEST \<and>
       (\<not> cx_in_error_handler con \<and> cx_in_error_handler con' \<or> (\<exists>c. fst (se_prepare e c) = HANDLER_COMEBACK))"
    using q ls(3) l(2) finished_step(3) by (cases r) (auto split: prod.splits; metis)+
  show "\<not> again \<Longrightarrow> cx_state con' \<in> {CON_STATE_HANDLE_REQUEST, CON_STATE_RESPONSE_START, CON_STATE_ERROR}"
    using q ls(1) assms(3) finished_step(4) by (cases r) (auto split: prod.splits)
qed

lemma response_start_step:
  "sm_response_start e srv con = Inr (eff, again, srv', con') \<Longrightarrow> cx_state con' = CON_STATE_WRITE \<and> \<not> again \<and>
     cx_read_queue con' = cx_read_queue con \<and> (keeps_alive con' \<longrightarrow> keeps_alive con)"
  by (auto simp: sm_response_start_def bindR_eq_Inr leaves_simps(4) dest!: write_prepare_leaves dest: leaves_simps(6))

lemma response_end_step:
  assumes "hooks_ok e" "sm_response_end e srv con = Inr (eff, again, srv', con')"
  shows "\<not> again" "cx_read_queue con' = cx_read_queue con"
    "cx_state con' = CON_STATE_REQUEST_START \<and> keeps_alive con \<or> cx_state con' = CON_STATE_CONNECT"
proof -
  let ?d = "se_request_done e con" and ?s = "srv\<lparr>cs_con_written := cs_con_written srv + 1\<rparr>"
  have d: "leaves con ?d" "leaves ?d (se_connection_close e ?d)" using assms(1) by (simp_all add: hooks_ok_def)
  obtain eff1 s1 c1 eff2 where r: "connection_reset e s1 c1 = Inr (eff2, con')" "\<not> again"
      and c1: "(if keeps_alive ?d then Inr ([], ?s, connection_set_state ?d CON_STATE_REQUEST_START)
                else bindR (connection_close ?s (se_connection_close e ?d)) (\<lambda>(eff, srv, con).
                       Inr (eff, srv\<lparr>cs_con_closed := cs_con_closed srv + 1\<rparr>, con))) = Inr (eff1, s1, c1)"
    using assms(2) by (auto simp: sm_response_end_def Let_def bindR_eq_Inr)
  note k = reset_keeps [OF assms(1) r(1)]
  have "cx_read_queue c1 = cx_read_queue con \<and>
      (cx_state c1 = CON_STATE_REQUEST_START \<and> keeps_alive con \<or> cx_state c1 = CON_STATE_CONNECT)"
    using c1 leaves_simps(4,6) [OF d(1)] leaves_simps(4) [OF d(2)] close_spec
    by (auto simp: bindR_eq_Inr split: if_splits dest!: close_spec)
  then show "\<not> again" "cx_read_queue con' = cx_read_queue con"
    "cx_state con' = CON_STATE_REQUEST_START \<and> keeps_alive con \<or> cx_state con' = CON_STATE_CONNECT"
    using r(2) k(1,4) by auto
qed

lemma error_step:
  assumes "hooks_ok e" "sm_error e srv con = Inr (eff, again, srv', con')"
  shows "\<not> again" "cx_state con' = CON_STATE_CLOSE \<or> cx_state con' = CON_STATE_CONNECT \<and> CloseSocket (cx_fd con) \<in> set eff"
    "\<not> keeps_alive con'" "cx_fd con' = cx_fd con" "cx_id con' = cx_id con"
proof -
  define c0 where "c0 = (if cn_http_status (cx_req con) \<noteq> 0 then se_request_done e con else con)"
  define c1 where "c1 = (if cx_mode c0 = DIRECT then c0 else se_connection_close e c0)"
  have "leaves con c0" "leaves c0 c1" using assms(1) by (auto simp: hooks_ok_def c0_def c1_def)
  then have l: "cx_fd c1 = cx_fd con" "cx_id c1 = cx_id con" by (auto simp: leaves_simps)
  obtain eff1 c2 eff2 s3 c3 where r: "connection_reset e srv c1 = Inr (eff1, c2)"
      and m: "(if keeps_alive c2 \<and> se_shutdown e
                then Inr ([], srv, connection_set_state (c2\<lparr>cx_close_timeout_ts := cs_cur_ts srv\<rparr>) CON_STATE_CLOSE)
                else connection_close srv c2) = Inr (eff2, s3, c3)"
      and f: "eff = eff1 @ eff2" "con' = set_keep_alive c3 False" "\<not> again"
    using assms(2) unfolding sm_error_def Let_def c0_def [symmetric] c1_def [symmetric] by (auto simp: bindR_eq_Inr)
  note k = reset_keeps [OF assms(1) r]
  show "\<not> again" by (rule f(3))
  have c3: "cx_fd c3 = cx_fd c2 \<and> cx_id c3 = cx_id c2 \<and> (cx_state c3 = CON_STATE_CLOSE \<or> cx_state c3 = CON_STATE_CONNECT \<and> CloseSocket (cx_fd c2) \<in> set eff2)"
    using m by (auto split: if_splits dest!: close_spec simp: connection_set_state_def)
  then show "cx_state con' = CON_STATE_CLOSE \<or> cx_state con' = CON_STATE_CONNECT \<and> CloseSocket (cx_fd con) \<in> set eff"
    "\<not> keeps_alive con'" "cx_fd con' = cx_fd con" "cx_id con' = cx_id con"
    using f k(2,3) l by (auto simp: set_keep_alive_def)
qed

lemma close_step:
  assumes "sm_close e srv con = Inr (eff, again, srv', con')" "cx_state con = CON_STATE_CLOSE"
  shows "\<not> again" "cx_state con' = CON_STATE_CLOSE \<or> cx_state con' = CON_STATE_CONNECT"
    "\<not> keeps_alive con \<Longrightarrow> 1 < cs_cur_ts srv \<Longrightarrow> cx_state con' = CON_STATE_CONNECT \<and> CloseSocket (cx_fd con) \<in> set eff"
  using assms by (auto simp: sm_close_def Let_def bindR_eq_Inr split: if_splits dest!: close_spec)

section \<open>Where the machine rests\<close>

definition transient_states :: "connection_state set" where
  "transient_states = {CON_STATE_REQUEST_START, CON_STATE_REQUEST_END, CON_STATE_RESPONSE_START, CON_STATE_RESPONSE_END, CON_STATE_ERROR}"

lemma transient_moves:
  assumes "hooks_ok e" "sm_step e srv con = Inr (eff, again, srv', con')" "cx_state con \<in> transient_states"
  shows "cx_state con' \<noteq> cx_state con"
proof -
  consider "cx_state con = CON_STATE_REQUEST_START" | "cx_state con = CON_STATE_REQUEST_END" | "cx_state con = CON_STATE_RESPONSE_START"
    | "cx_state con = CON_STATE_RESPONSE_END" | "cx_state con = CON_STATE_ERROR" using assms(3) by (auto simp: transient_states_def)
  then show ?thesis
  proof cases
    case 1
    then show ?thesis using assms(2) by (auto simp: sm_step_def sm_request_start_def)
  next
    case 2
    then show ?thesis using assms(2) by (auto simp: sm_step_def sm_request_end_def bindR_eq_Inr Let_def split: if_splits)
  next
    case 3
    then show ?thesis using assms(2) response_start_step by (auto simp: sm_step_def)
  next
    case 4
    then show ?thesis using assms(2) response_end_step(3) [OF assms(1), of srv con eff again srv' con'] by (auto simp: sm_step_def)
  next
    case 5
    then show ?thesis using assms(2) error_step(2) [OF assms(1), of srv con eff again srv' con'] by (auto simp: sm_step_def)
  qed
qed


definition ans_blocked :: net_ans where
  "ans_blocked = \<lparr>na_write = (\<lambda>_. Inl EAGAIN), na_stat = (\<lambda>_. None), na_open = (\<lambda>_. -1), na_file = (\<lambda>_. []), na_mmap = False\<rparr>"

definition env_quiet :: sm_env where
  "env_quiet = \<lparr>se_al = True, se_read = \<lparr>re_ioctl = Some 0, re_read = (\<lambda>_. Inl EAGAIN)\<rparr>, se_file = fe_none,
     se_prepare = (\<lambda>c. (HANDLER_FINISHED, c)), se_net = (\<lambda>_. ans_blocked), se_request_done = (\<lambda>c. c), se_connection_close = (\<lambda>c. c),
     se_connection_reset = (\<lambda>c. c), se_stat = (\<lambda>_. None), se_gmtime = (\<lambda>_. []), se_package = [], se_shutdown = True, se_fionread = 0,
     se_parse = \<lparr>pe_al = True, pe_moves = (\<lambda>_ _. False)\<rparr>\<rparr>"

lemma env_quiet_ok: "hooks_ok env_quiet"
  by (simp add: hooks_ok_def env_quiet_def)

definition srv_small :: csrv where
  "srv_small = \<lparr>cs_req = \<lparr>sv_split_vals = array_init, sv_max_request_size = 0\<rparr>, cs_conf = conf_plain, cs_tempdirs = [], cs_cur_ts = 100,
     cs_cur_fds = 0, cs_max_fds = 1024, cs_want_fds = 0, cs_con_opened = 0, cs_con_written = 0, cs_con_closed = 0, cs_max_conns = 10, cs_pool = pool_init,
     cs_conns = connection_init conf_plain [], cs_joblist = [], cs_fdwaitqueue = [], cs_date = (0, []), cs_tmp_buf = buffer_init,
     cs_backend = sendfile_chunks, cs_global_bytes = 0\<rparr>"

text \<open>A connection just accepted, without input, waits for its request.\<close>

lemma quiet_run:
  "\<exists>con'. connection_state_machine 2 (\<lambda>_. env_quiet) 0 srv_small ((connection_init conf_plain [] 0)\<lparr>cx_state := CON_STATE_REQUEST_START\<rparr>) =
     Inr (Some ([EventAdd 0 FDEVENT_IN], srv_small, con'))"
proof -
  let ?c = "(connection_init conf_plain [] 0)\<lparr>cx_state := CON_STATE_REQUEST_START\<rparr>"
  obtain c1 where c1: "sm_step env_quiet srv_small ?c = Inr ([], False, srv_small, c1)" "cx_state c1 = CON_STATE_READ" "\<not> cx_is_readable c1"
      "cx_read_queue c1 = chunkqueue_init" "cx_fd c1 = 0"
    by (simp add: sm_step_def sm_request_start_def connection_init_def config_setup_connection_def connection_set_state_def)
  have q: "cq_chunks chunkqueue_init = []" by (simp add: chunkqueue_init_def)
  have "connection_handle_read_state (se_read env_quiet) (se_file env_quiet) (cs_cur_ts srv_small) c1 = Inr (0, [], c1)"
    using c1 q by (simp add: connection_handle_read_state_def read_body_def read_header_def clean_queue_def chunkqueue_length_def
        chunkqueue_remove_finished_chunks_def chunkqueue_init_def)
  then have "sm_step env_quiet srv_small c1 = Inr ([], False, srv_small, c1)" using c1(2) by (simp add: sm_step_def sm_read_def)
  then show ?thesis using c1 by (simp add: numeral_2_eq_2 wait_event_def connection_init_def config_setup_connection_def)
qed


section \<open>Errors\<close>

lemma connect_rests:
  assumes "cx_state con = CON_STATE_CONNECT" "connection_state_machine n env k srv con = Inr (Some (eff, srv', con'))"
  shows "cx_state con' = CON_STATE_CONNECT"
proof (cases n)
  case (Suc m)
  then show ?thesis using assms by (auto simp: sm_step_def sm_connect_def bindR_eq_Inr)
qed (use assms in simp)

lemma close_ends:
  assumes "cx_state con = CON_STATE_CLOSE" "\<not> keeps_alive con" "1 < cs_cur_ts srv"
    "connection_state_machine n env k srv con = Inr (Some (eff, srv', con'))"
  shows "cx_state con' = CON_STATE_CONNECT \<and> CloseSocket (cx_fd con) \<in> set eff"
proof (cases n)
  case (Suc m)
  obtain eff1 again s1 c1 where st: "sm_close (env k) srv con = Inr (eff1, again, s1, c1)"
    using assms(1,4) Suc by (auto simp: sm_step_def bindR_eq_Inr)
  note c = close_step(3) [OF st assms(1-3)]
  obtain eff2 where "connection_state_machine m env (k + 1) s1 c1 = Inr (Some (eff2, srv', con'))" "eff = eff1 @ eff2"
    using assms(1,4) Suc st c by (auto simp: sm_step_def bindR_eq_Inr)
  then show ?thesis using c connect_rests by auto
qed (use assms in simp)

lemma error_machine_closes:
  assumes "cx_state con = CON_STATE_ERROR" "\<forall>j. hooks_ok (env j)" "1 < cs_cur_ts srv"
    "connection_state_machine n env k srv con = Inr (Some (eff, srv', con'))"
  shows "cx_state con' = CON_STATE_CONNECT \<and> CloseSocket (cx_fd con) \<in> set eff"
proof (cases n)
  case (Suc m)
  have e: "hooks_ok (env k)" using assms(2) by simp
  obtain eff1 again s1 c1 where st: "sm_error (env k) srv con = Inr (eff1, again, s1, c1)"
    using assms(1,4) Suc by (auto simp: sm_step_def bindR_eq_Inr)
  note c = error_step [OF e st]
  have ts: "cs_cur_ts s1 = cs_cur_ts srv" using st by (auto simp: sm_error_def Let_def bindR_eq_Inr connection_close_def split: if_splits)
  have "cx_state c1 \<noteq> CON_STATE_ERROR" using c(2) by auto
  then obtain eff2 where r: "connection_state_machine m env (k + 1) s1 c1 = Inr (Some (eff2, srv', con'))" "eff = eff1 @ eff2"
    using assms(1,4) Suc st by (auto simp: sm_step_def bindR_eq_Inr)
  show ?thesis
  proof (cases "cx_state c1 = CON_STATE_CLOSE")
    case True
    then show ?thesis using close_ends [OF True c(3) _ r(1)] assms(3) ts r(2) c(4) by simp
  next
    case False
    then show ?thesis using c(2) connect_rests [OF _ r(1)] r(2) by auto
  qed
qed (use assms in simp)


lemma chunkqueue_reset_init: "chunkqueue_reset chunkqueue_init = Inr ([], chunkqueue_init)"
  by (simp add: chunkqueue_reset_def chunkqueue_remove_finished_chunks_def chunkqueue_init_def)

lemma array_reset_init: "array_reset array_init = Inr array_init"
  by (simp add: array_reset_def array_init_def)

text \<open>A connection that has nothing to clean up.\<close>

definition clean_conn :: "connection \<Rightarrow> bool" where
  "clean_conn c \<longleftrightarrow> cn_http_status (cx_req c) = 0 \<and> cx_mode c = DIRECT \<and> \<not> keeps_alive c \<and> rq_headers (cx_req c) = array_init \<and>
     cx_resp_headers c = array_init \<and> cx_write_queue c = chunkqueue_init \<and> cx_content_queue c = chunkqueue_init \<and> cx_read_queue c = chunkqueue_init"

lemma error_machine_runs:
  assumes "cx_state c = CON_STATE_ERROR" "clean_conn c" "connection_del (cs_pool srv) (cx_id c) = Inr (r, p)"
  shows "\<exists>eff srv' con'. connection_state_machine 2 (\<lambda>_. env_quiet) k srv c = Inr (Some (eff, srv', con'))"
proof -
  have c: "cn_http_status (cx_req c) = 0" "cx_mode c = DIRECT" "\<not> keeps_alive c" "rq_headers (cx_req c) = array_init"
      "cx_resp_headers c = array_init" "cx_write_queue c = chunkqueue_init" "cx_content_queue c = chunkqueue_init" "cx_read_queue c = chunkqueue_init"
    using assms(2) by (simp_all add: clean_conn_def)
  have hook: "se_connection_reset env_quiet x = x" for x by (simp add: env_quiet_def)
  have "\<exists>eff c1. connection_reset env_quiet srv c = Inr (eff, c1)"
    using c(4-7) by (simp add: connection_reset_def hook Let_def req_reset_def array_reset_init chunkqueue_reset_init)
  then obtain eff1 c1 where r: "connection_reset env_quiet srv c = Inr (eff1, c1)" by blast
  note k = reset_keeps [OF env_quiet_ok r]
  have "\<not> keeps_alive c1" "cx_read_queue c1 = chunkqueue_init" "cx_id c1 = cx_id c" using k(2,4,5) c(3,8) by auto
  then have "\<exists>eff2 s2 c2. sm_error env_quiet srv c = Inr (eff2, False, s2, c2) \<and> cx_state c2 = CON_STATE_CONNECT \<and> cx_read_queue c2 = chunkqueue_init"
    using c(1,2) r assms(3) by (simp add: sm_error_def Let_def connection_close_def set_keep_alive_def)
  then obtain eff2 s2 c2 where e: "sm_error env_quiet srv c = Inr (eff2, False, s2, c2)" "cx_state c2 = CON_STATE_CONNECT"
      "cx_read_queue c2 = chunkqueue_init" by blast
  have s1: "sm_step env_quiet srv c = Inr (eff2, False, s2, c2)" using e(1) assms(1) by (simp add: sm_step_def)
  have "\<exists>c3. sm_step env_quiet s2 c2 = Inr ([], False, s2, c3) \<and> cx_state c3 = CON_STATE_CONNECT"
    using e(2,3) by (simp add: sm_step_def sm_connect_def chunkqueue_reset_init)
  then show ?thesis using s1 e(2) assms(1) by (auto simp: numeral_2_eq_2)
qed


end
