(* ===== verification/Lt_Conn_Loop.thy ===== *)
theory Lt_Conn_Loop
  imports Lt_Conn_Machine
begin

text \<open>
  The loop of the state machine ends: every turn that does not end it either uses up bytes the client has
  sent or brings the connection nearer to its next request.
\<close>

section \<open>Reading, whatever the socket answers\<close>

lemma clean_last_empty:
  assumes "list_all rd_chunk cs" "bf_used (ck_mem c) = 0"
  shows "clean_chunks (cs @ [c]) = (cs, [c])"
proof -
  have tail: "xs \<noteq> [] \<Longrightarrow> list_all (\<lambda>c. bf_used (ck_mem c) \<noteq> 0) xs \<Longrightarrow> clean_tail (xs @ [c]) = (xs, [c])" for xs
  proof (induction xs rule: induct_list012)
    case (2 x)
    then show ?case using assms(2) by simp
  next
    case (3 x y zs)
    then show ?case by simp
  qed simp
  have ne: "list_all (\<lambda>c. bf_used (ck_mem c) \<noteq> 0) cs" using assms(1) by (auto simp: list_all_iff rd_chunk_def)
  show ?thesis
  proof (cases cs)
    case Nil
    then show ?thesis using assms(2) by simp
  next
    case (Cons x xs)
    then have "clean_chunks (cs @ [c]) = clean_tail (cs @ [c])" using ne by simp
    then show ?thesis using tail [of cs] ne Cons by simp
  qed
qed

definition reads_at_most :: "read_env \<Rightarrow> nat \<Rightarrow> bool" where
  "reads_at_most e b \<longleftrightarrow> (\<forall>m d. re_read e m = Inr d \<longrightarrow> length d \<le> b)"

lemma clean_empty_queue:
  assumes q: "read_queue_ok q" and u: "chunkqueue_get_unused_chunk q = (c, cq)" "ck_wf c" "cq_ok cq" "cq_chunks cq = cq_chunks q"
    and b: "buf_ok b" "bf_used b = 0"
  shows "read_queue_ok (clean_queue (chunkqueue_append_chunk cq (mem_chunk b c)))"
    "cq_chunks (clean_queue (chunkqueue_append_chunk cq (mem_chunk b c))) = cq_chunks q"
proof -
  let ?c = "mem_chunk b c"
  have h: "holds b []" using b by (simp add: holds_def)
  have wf: "ck_wf ?c" using u(2) h holds_text [OF h] by (simp add: ck_wf_def mem_chunk_def)
  have rd: "list_all rd_chunk (cq_chunks q)" using q by (simp add: read_queue_ok_def)
  have cl: "clean_chunks (cq_chunks q @ [?c]) = (cq_chunks q, [?c])" using clean_last_empty [OF rd, of ?c] b(2) by (simp add: mem_chunk_def)
  have len: "length (cq_unused cq) \<le> 4"
    using u(1,3) q by (auto simp: chunkqueue_get_unused_chunk_def read_queue_ok_def cq_ok_def split: list.splits)
  have e: "clean_queue (chunkqueue_append_chunk cq ?c) =
      cq\<lparr>cq_chunks := cq_chunks q, cq_unused := ?c # cq_unused cq, cq_unused_chunks := cq_unused_chunks cq + 1\<rparr>"
    using cl u(4) by (simp add: clean_queue_def chunkqueue_append_chunk_def)
  show "cq_chunks (clean_queue (chunkqueue_append_chunk cq ?c)) = cq_chunks q" unfolding e by simp
  show "read_queue_ok (clean_queue (chunkqueue_append_chunk cq ?c))"
    using q u(3) wf len unfolding e by (auto simp: read_queue_ok_def cq_ok_def)
qed

lemma read_any:
  assumes q: "read_queue_ok (cx_read_queue con)" and h: "connection_handle_read e con = Inr (r, con')" and b: "reads_at_most e n"
  shows "cx_req con' = cx_req con" "cx_in_error_handler con' = cx_in_error_handler con"
    "r = -1 \<Longrightarrow> cx_state con' = cx_state con \<or> cx_state con' = CON_STATE_ERROR"
    "r \<noteq> -1 \<Longrightarrow> cx_state con' = cx_state con \<and> read_queue_ok (clean_queue (cx_read_queue con')) \<and>
       length (unread_all (cq_chunks (clean_queue (cx_read_queue con')))) \<le> length (pending con) + n"
proof -
  have frame: "cx_req con' = cx_req con \<and> cx_in_error_handler con' = cx_in_error_handler con \<and>
      (r = -1 \<longrightarrow> cx_state con' = cx_state con \<or> cx_state con' = CON_STATE_ERROR) \<and> (r \<noteq> -1 \<longrightarrow> cx_state con' = cx_state con)"
    using h by (auto simp: connection_handle_read_def Let_def connection_set_state_def bindR_eq_Inr
        split: if_splits option.splits prod.splits sum.splits sock_errno.splits)
  then show "cx_req con' = cx_req con" "cx_in_error_handler con' = cx_in_error_handler con"
    "r = -1 \<Longrightarrow> cx_state con' = cx_state con \<or> cx_state con' = CON_STATE_ERROR" by auto
  assume r: "r \<noteq> -1"
  then obtain k where io: "\<not> cx_is_ssl con" "re_ioctl e = Some k"
    using h by (auto simp: connection_handle_read_def split: if_splits option.splits)
  have "cq_ok (cx_read_queue con)" using q by (simp add: read_queue_ok_def)
  then obtain c cq where u: "chunkqueue_get_unused_chunk (cx_read_queue con) = (c, cq)" "ck_wf c" "cq_ok cq"
      "cq_chunks cq = cq_chunks (cx_read_queue con)" by (rule get_unused_ok)
  define m where "m = buffer_prepare_copy (buffer_reset (ck_mem c)) (nat (k + 1))"
  have "buf_ok (buffer_reset (ck_mem c))" using u(2) by (auto simp: ck_wf_def intro: holds_ok buffer_reset_holds)
  then have m: "buf_ok m" "bf_used m = 0" using prepare_copy_spec by (simp_all add: m_def)
  have res: "read_queue_ok (clean_queue (cx_read_queue con')) \<and>
      length (unread_all (cq_chunks (clean_queue (cx_read_queue con')))) \<le> length (pending con) + n"
  proof (cases "\<exists>d. re_read e (bf_size m - 1) = Inr d \<and> d \<noteq> []")
    case False
    then have "cx_read_queue con' = chunkqueue_append_chunk cq (mem_chunk m c)"
      using h io u(1) r by (auto simp: connection_handle_read_def Let_def m_def [symmetric] connection_set_state_def
          split: sum.splits sock_errno.splits if_splits)
    then show ?thesis using clean_empty_queue [OF q u m] by simp
  next
    case True
    then obtain d where d: "re_read e (bf_size m - 1) = Inr d" "d \<noteq> []" by blast
    then obtain p where p: "blit 0 (d @ [0]) (bf_ptr m) = Inr p"
        and q': "cx_read_queue con' = chunkqueue_append_chunk cq (mem_chunk (m\<lparr>bf_ptr := p, bf_used := length d + 1\<rparr>) c)"
      using h io u(1) by (auto simp: connection_handle_read_def Let_def m_def [symmetric] bindR_eq_Inr)
    have "length d < bf_size m" using p m(1) by (auto simp: blit_def buf_ok_def split: if_splits)
    then have ho: "holds (m\<lparr>bf_ptr := p, bf_used := length d + 1\<rparr>) d" using prepared_holds [OF m(1) _ m(2), of d] p by auto
    let ?c = "mem_chunk (m\<lparr>bf_ptr := p, bf_used := length d + 1\<rparr>) c"
    have t: "buf_text (ck_mem ?c) = d" using ho by (simp add: mem_chunk_def holds_text)
    have c: "rd_chunk ?c" "ck_offset ?c = 0" "unread ?c = d"
      using ho t u(2) by (simp_all add: rd_chunk_def ck_wf_def mem_chunk_def unread_def)
    have chunks: "cq_chunks (cx_read_queue con') = cq_chunks (cx_read_queue con) @ [?c]" using q' u(4) by (simp add: chunkqueue_append_chunk_def)
    have all: "list_all rd_chunk (cq_chunks (cx_read_queue con'))" using q c(1) chunks by (simp add: read_queue_ok_def)
    have "cq_ok (cx_read_queue con')" using append_mem_chunk [OF u(3,2) ho] q' by simp
    then have "read_queue_ok (cx_read_queue con')"
      using q c chunks by (auto simp: read_queue_ok_def tl_append split: list.split)
    moreover have "length d \<le> n" using d(1) b by (auto simp: reads_at_most_def)
    ultimately show ?thesis using clean_queue_id [OF all] chunks c(3) by simp
  qed
  then show "cx_state con' = cx_state con \<and> read_queue_ok (clean_queue (cx_read_queue con')) \<and>
       length (unread_all (cq_chunks (clean_queue (cx_read_queue con')))) \<le> length (pending con) + n" using frame r by simp
qed

text \<open>A queue after a header or a body was taken out: chunks read to their end, then the rest.\<close>

definition left_over :: "chunk list \<Rightarrow> nat \<Rightarrow> bool" where
  "left_over ds n \<longleftrightarrow> (\<exists>us cs. ds = us @ cs \<and> list_all (\<lambda>c. rd_chunk c \<and> unread c = []) us \<and> list_all rd_chunk cs \<and>
     list_all (\<lambda>c. ck_offset c = 0) (tl cs) \<and> length (unread_all cs) \<le> n)"

lemma left_overI: "list_all rd_chunk cs \<Longrightarrow> list_all (\<lambda>c. ck_offset c = 0) (tl cs) \<Longrightarrow> length (unread_all cs) \<le> n \<Longrightarrow> left_over cs n"
  unfolding left_over_def by (intro exI [of _ "[]"] exI [of _ cs]) simp

lemma left_over_rd: "left_over ds n \<Longrightarrow> list_all rd_chunk ds"
  by (auto simp: left_over_def list_all_iff)

lemma left_over_Cons: "rd_chunk c \<Longrightarrow> unread c = [] \<Longrightarrow> left_over ds n \<Longrightarrow> left_over (c # ds) n"
proof -
  assume c: "rd_chunk c" "unread c = []" and "left_over ds n"
  then obtain us cs where "ds = us @ cs" "list_all (\<lambda>c. rd_chunk c \<and> unread c = []) us" "list_all rd_chunk cs"
      "list_all (\<lambda>c. ck_offset c = 0) (tl cs)" "length (unread_all cs) \<le> n" by (auto simp: left_over_def)
  then show ?thesis unfolding left_over_def using c by (intro exI [of _ "c # us"] exI [of _ cs]) simp
qed

lemma left_over_mono: "left_over ds n \<Longrightarrow> n \<le> m \<Longrightarrow> left_over ds m"
  by (force simp: left_over_def)

lemma remove_left_over:
  assumes "cq_ok cq" "left_over (cq_chunks cq) n" "chunkqueue_remove_finished_chunks cq = Inr (eff, cq')"
  shows "read_queue_ok cq' \<and> length (unread_all (cq_chunks cq')) \<le> n"
proof -
  obtain us cs where l: "cq_chunks cq = us @ cs" "list_all (\<lambda>c. rd_chunk c \<and> unread c = []) us" "list_all rd_chunk cs"
      "list_all (\<lambda>c. ck_offset c = 0) (tl cs)" "length (unread_all cs) \<le> n" using assms(2) by (auto simp: left_over_def)
  show ?thesis using remove_read [OF assms(1) l(1-4)] assms(3) l(5) by auto
qed

lemma scan_text_sound:
  assumes "scan_text nxt i (s @ [0]) = Inr (Some (d, m))"
  shows "d = 0 \<and> 4 \<le> m \<and> m \<le> i + length s \<or> d = 1 \<and> 1 \<le> m \<and> (\<exists>n. nxt = Some n \<and> m < bf_used (ck_mem n))"
  using assms
proof (induction s arbitrary: i)
  case (Cons ch s)
  have ih: "scan_text nxt (i + 1) (s @ [0]) = Inr (Some (d, m)) \<Longrightarrow> ?case" using Cons.IH [of "i + 1"] by auto
  show ?case
  proof (cases "ch = 13 \<and> 3 \<le> length s \<and> take 4 (ch # s @ [0]) = crlf2")
    case True
    then show ?thesis using Cons.prems unfolding append_Cons scan_text.simps by auto
  next
    case no: False
    show ?thesis
    proof (cases "\<exists>n. nxt = Some n \<and> \<not> 3 \<le> length s \<and> ch = 13 \<and> bf_used (ck_mem n) > 4 - length (s @ [0]) \<and>
        scan_text nxt i (ch # s @ [0]) = Inr (Some (1, 4 - length (s @ [0])))")
      case True
      then show ?thesis using Cons.prems by auto
    next
      case False
      then have "scan_text nxt (i + 1) (s @ [0]) = Inr (Some (d, m))"
        using Cons.prems no unfolding append_Cons scan_text.simps
        by (auto simp: bindR_eq_Inr simp del: take_Suc_Cons split: if_splits option.splits)
      then show ?thesis by (rule ih)
    qed
  qed
qed simp

lemma find_header_sound:
  assumes "find_header k cs = Inr (Some (j, off))" "list_all rd_chunk cs" "list_all (\<lambda>c. ck_offset c = 0) (tl cs)"
  shows "k \<le> j \<and> j - k < length cs \<and> 1 \<le> off \<and> off \<le> length (unread (cs ! (j - k)))"
  using assms
proof (induction cs arbitrary: k)
  case (Cons c cs)
  have rd: "rd_chunk c" "list_all rd_chunk cs" using Cons.prems by simp_all
  let ?nxt = "case cs of [] \<Rightarrow> None | n # _ \<Rightarrow> Some n"
  obtain r where r: "scan_text ?nxt 0 (unread c @ [0]) = Inr r"
      and f: "(case r of Some (d, off) \<Rightarrow> Inr (Some (k + d, off)) | None \<Rightarrow> find_header (k + 1) cs) = Inr (Some (j, off))"
    using Cons.prems(1) unfolding find_header.simps chunk_view_unread [OF rd(1)] bindR_Inr bindR_eq_Inr by blast
  show ?case
  proof (cases r)
    case None
    have "list_all (\<lambda>c. ck_offset c = 0) (tl cs)" using Cons.prems(3) by (cases cs) simp_all
    then have ih: "k + 1 \<le> j \<and> j - (k + 1) < length cs \<and> 1 \<le> off \<and> off \<le> length (unread (cs ! (j - (k + 1))))"
      using Cons.IH [of "k + 1"] f None rd(2) by simp
    then have "j - k = Suc (j - (k + 1))" by linarith
    then show ?thesis using ih by simp
  next
    case (Some p)
    then obtain d where d: "r = Some (d, off)" "j = k + d" using f by (cases p) auto
    from scan_text_sound [OF r [unfolded d(1)]] show ?thesis
    proof
      assume "d = 0 \<and> 4 \<le> off \<and> off \<le> 0 + length (unread c)"
      then show ?thesis using d(2) by simp
    next
      assume a: "d = 1 \<and> 1 \<le> off \<and> (\<exists>n. ?nxt = Some n \<and> off < bf_used (ck_mem n))"
      then obtain x xs where x: "cs = x # xs" "off < bf_used (ck_mem x)" by (cases cs) auto
      have "rd_chunk x" "ck_offset x = 0" using x(1) rd(2) Cons.prems(3) by simp_all
      then have "off \<le> length (unread x)" using rd_chunk_text(1) [of x] x(2) by (simp add: unread_def)
      then show ?thesis using a d(2) x(1) by simp
    qed
  qed
qed simp

lemma read_header_any:
  assumes q: "read_queue_ok (cx_read_queue con)" and h: "read_header con = Inr con'"
  shows "cq_ok (cx_read_queue con')" "cx_in_error_handler con' = cx_in_error_handler con"
    "con' = con \<or> cx_state con' = CON_STATE_REQUEST_END \<and> 0 < length (pending con) \<and> left_over (cq_chunks (cx_read_queue con')) (length (pending con) - 1) \<or>
     cx_state con' = CON_STATE_HANDLE_REQUEST \<and> \<not> keeps_alive con' \<and> cx_read_queue con' = cx_read_queue con"
proof -
  let ?cs = "cq_chunks (cx_read_queue con)"
  have ok: "cq_ok (cx_read_queue con)" "list_all rd_chunk ?cs" "list_all (\<lambda>c. ck_offset c = 0) (tl ?cs)" using q by (simp_all add: read_queue_ok_def)
  obtain r where r: "find_header 0 ?cs = Inr r" using h by (auto simp: read_header_def bindR_eq_Inr)
  have goal: "cq_ok (cx_read_queue con') \<and> cx_in_error_handler con' = cx_in_error_handler con \<and>
    (con' = con \<or> cx_state con' = CON_STATE_REQUEST_END \<and> 0 < length (pending con) \<and> left_over (cq_chunks (cx_read_queue con')) (length (pending con) - 1) \<or>
     cx_state con' = CON_STATE_HANDLE_REQUEST \<and> \<not> keeps_alive con' \<and> cx_read_queue con' = cx_read_queue con)"
  proof (cases r)
    case None
    then show ?thesis using h r ok(1) by (auto simp: read_header_def connection_set_state_def set_keep_alive_def set_status_def split: if_splits)
  next
    case (Some p)
    then obtain j off where p: "r = Some (j, off)" by (cases p) auto
    note s = find_header_sound [OF r [unfolded p] ok(2,3)]
    have j: "j < length ?cs" "off \<le> length (unread (?cs ! j))" "1 \<le> off" using s by simp_all
    obtain us where us: "copy_header j off ?cs = Inr (unread_all (take j ?cs) @ take off (unread (?cs ! j)),
          us @ (?cs ! j)\<lparr>ck_offset := ck_offset (?cs ! j) + int off\<rparr> # drop (Suc j) ?cs)"
        "list_all (\<lambda>c. rd_chunk c \<and> unread c = []) us"
      using copy_header_cuts [OF ok(2) j(1,2)] by blast
    let ?d = "(?cs ! j)\<lparr>ck_offset := ck_offset (?cs ! j) + int off\<rparr>" and ?rest = "drop (Suc j) ?cs"
    have dj: "rd_chunk ?d" "unread ?d = drop off (unread (?cs ! j))"
      using rd_chunk_forward [OF _ j(2)] ok(2) j(1) by (simp_all add: list_all_length)
    have cut: "pending con = unread_all (take j ?cs) @ unread (?cs ! j) @ unread_all ?rest"
      by (metis append_take_drop_id Cons_nth_drop_Suc j(1) unread_all_simps(2,3))
    have len: "length (unread_all (?d # ?rest)) \<le> length (pending con) - 1" "0 < length (pending con)"
      using dj(2) j(2,3) unfolding cut by auto
    have rds: "list_all rd_chunk (?d # ?rest)" "list_all (\<lambda>c. ck_offset c = 0) (tl (?d # ?rest))"
    proof -
      show "list_all rd_chunk (?d # ?rest)" using dj(1) ok(2) set_drop_subset [of "Suc j" ?cs] by (auto simp: list_all_iff)
      show "list_all (\<lambda>c. ck_offset c = 0) (tl (?d # ?rest))"
        using ok(3) set_drop_subset [of j "tl ?cs"] by (auto simp: list_all_iff drop_Suc)
    qed
    have lo: "left_over (us @ ?d # ?rest) (length (pending con) - 1)"
      unfolding left_over_def using us(2) rds len(1) by blast
    have "\<forall>c \<in> set (us @ ?d # ?rest). rd_chunk c" using left_over_rd [OF lo] by (auto simp: list_all_iff)
    then have "cq_ok ((cx_read_queue con)\<lparr>cq_chunks := us @ ?d # ?rest\<rparr>)" using ok(1) by (simp add: cq_ok_def rd_chunk_def) blast
    then show ?thesis using h r p us(1) lo len(2) by (auto simp: read_header_def connection_set_state_def)
  qed
  then show "cq_ok (cx_read_queue con')" "cx_in_error_handler con' = cx_in_error_handler con"
    "con' = con \<or> cx_state con' = CON_STATE_REQUEST_END \<and> 0 < length (pending con) \<and> left_over (cq_chunks (cx_read_queue con')) (length (pending con) - 1) \<or>
     cx_state con' = CON_STATE_HANDLE_REQUEST \<and> \<not> keeps_alive con' \<and> cx_read_queue con' = cx_read_queue con" by simp_all
qed

lemma get_unused_bytes_in: "chunkqueue_get_unused_chunk cq = (c, cq') \<Longrightarrow> cq_bytes_in cq' = cq_bytes_in cq"
  by (auto simp: chunkqueue_get_unused_chunk_def split: list.splits)

lemma post_to_mem_bytes_in: "post_to_mem cq t = Inr cq' \<Longrightarrow> cq_bytes_in cq' = cq_bytes_in cq"
  by (auto simp: post_to_mem_def chunkqueue_get_append_buffer_def set_last_def chunkqueue_append_chunk_def bindR_eq_Inr Let_def
      get_unused_bytes_in split: prod.splits)

lemma bindR_E: "bindR m f = Inr y \<Longrightarrow> (\<And>x. m = Inr x \<Longrightarrow> f x = Inr y \<Longrightarrow> P) \<Longrightarrow> P"
  by (auto simp: bindR_eq_Inr)

lemma bindR_pairE: "bindR m (\<lambda>(a, b). f a b) = Inr y \<Longrightarrow> (\<And>a b. m = Inr (a, b) \<Longrightarrow> f a b = Inr y \<Longrightarrow> P) \<Longrightarrow> P"
  by (auto simp: bindR_eq_Inr)

lemma tempfile_bytes_in:
  assumes "chunkqueue_get_append_tempfile mk cq = Inr cq'"
  shows "cq_bytes_in cq' = cq_bytes_in cq"
proof -
  obtain c cq1 where u: "chunkqueue_get_unused_chunk cq = (c, cq1)" by (cases "chunkqueue_get_unused_chunk cq")
  have "\<exists>x. cq' = chunkqueue_append_chunk cq1 x"
    using assms unfolding chunkqueue_get_append_tempfile_def u Let_def prod.case
    by (elim bindR_E [where m = "buffer_init_string (Some (map char_byte ''/var/tmp/'' @ tmp_pattern))"] bindR_pairE) auto
  then show ?thesis using get_unused_bytes_in [OF u] by (auto simp: chunkqueue_append_chunk_def)
qed

lemma post_file_bytes_in: "post_file e cq = Inr (eff, cq') \<Longrightarrow> cq_bytes_in cq' = cq_bytes_in cq"
  by (auto simp: post_file_def Let_def bindR_eq_Inr set_last_def dest!: tempfile_bytes_in split: if_splits)

lemma post_to_file_bytes_in: "post_to_file e clen cq t = Inr (eff, cq', b) \<Longrightarrow> cq_bytes_in cq' = cq_bytes_in cq"
  by (auto simp: post_to_file_def Let_def bindR_eq_Inr set_last_def dest!: post_file_bytes_in split: if_splits)

lemma post_loop_any:
  assumes "post_loop e clen dst cs = Inr (eff, dst', cs', ok)" "list_all rd_chunk cs" "list_all (\<lambda>c. ck_offset c = 0) (tl cs)"
  shows "left_over cs' (length (unread_all cs))"
  using assms
proof (induction cs arbitrary: dst eff cs')
  case Nil
  then show ?case by (simp add: left_overI)
next
  case (Cons c cs)
  have c: "rd_chunk c" "list_all rd_chunk cs" using Cons.prems(2) by simp_all
  have tl: "list_all (\<lambda>c. ck_offset c = 0) cs" "list_all (\<lambda>c. ck_offset c = 0) (tl cs)"
    using Cons.prems(3) by (simp, cases cs, simp_all)
  have same: "left_over (c # cs) (length (unread_all (c # cs)))" using Cons.prems(2,3) by (simp add: left_overI)
  show ?case
  proof (cases "cq_bytes_in dst = clen")
    case True
    then show ?thesis using Cons.prems(1) same by simp
  next
    case False
    from c(1) obtain m where m: "ck_offset c = int m" "m \<le> length (buf_text (ck_mem c))"
        "bf_used (ck_mem c) = length (buf_text (ck_mem c)) + 1" "unread c = drop m (buf_text (ck_mem c))" by (rule rd_chunk_numbers)
    define n where "n = (if int (length (unread c)) > clen - cq_bytes_in dst then clen - cq_bytes_in dst else int (length (unread c)))"
    have have_len: "int (bf_used (ck_mem c)) - ck_offset c - 1 = int (length (unread c))" using m by simp
    obtain t eff1 dst1 b where t: "chunk_bytes c n = Inr t"
        and put: "(if clen > 64 * 1024 then post_to_file e clen dst t
                     else bindR (post_to_mem dst t) (\<lambda>dst. Inr ([], dst, True))) = Inr (eff1, dst1, b)"
        and w: "(if b then bindR (post_loop e clen (dst1\<lparr>cq_bytes_in := cq_bytes_in dst1 + n\<rparr>) cs) (\<lambda>(eff', dst, cs, ok).
                       Inr (eff1 @ eff', dst, c\<lparr>ck_offset := ck_offset c + n\<rparr> # cs, ok))
                else Inr (eff1, dst1, c # cs, False)) = Inr (eff, dst', cs', ok)"
      using Cons.prems(1) False m(3) unfolding post_loop.simps Let_def have_len n_def [symmetric]
      by (simp add: bindR_eq_Inr) blast
    have bi: "cq_bytes_in dst1 = cq_bytes_in dst"
      using put post_to_file_bytes_in [of e clen dst t] post_to_mem_bytes_in [of dst t] by (auto simp: bindR_eq_Inr split: if_splits)
    have n0: "0 \<le> n" "n \<le> int (length (unread c))" using t by (auto simp: chunk_bytes_def bindR_eq_Inr n_def)
    show ?thesis
    proof (cases b)
      case False
      then show ?thesis using w same by simp
    next
      case True
      obtain k where k: "n = int k" "k \<le> length (unread c)" using n0 by (metis nat_0_le nat_le_iff)
      let ?c = "c\<lparr>ck_offset := ck_offset c + n\<rparr>"
      obtain eff2 ds where p: "post_loop e clen (dst1\<lparr>cq_bytes_in := cq_bytes_in dst1 + n\<rparr>) cs = Inr (eff2, dst', ds, ok)" "cs' = ?c # ds"
        using w True by (auto simp: bindR_eq_Inr)
      note ih = Cons.IH [OF p(1) c(2) tl(2)]
      note fwd = rd_chunk_forward [OF c(1) k(2)]
      show ?thesis
      proof (cases "k = length (unread c)")
        case True
        then have "left_over (?c # ds) (length (unread_all cs))" using fwd ih k(1) by (intro left_over_Cons) simp_all
        then show ?thesis using p(2) left_over_mono by simp
      next
        case part: False
        then have "cq_bytes_in dst1 + n = clen" using k n_def bi by (simp split: if_splits)
        then have ds: "ds = cs" using p(1) by (cases cs) simp_all
        have "left_over (?c # cs) (length (unread_all (?c # cs)))" using fwd(1) k(1) c(2) tl(1) by (intro left_overI) simp_all
        then show ?thesis using p(2) ds fwd(2) k(1) left_over_mono by fastforce
      qed
    qed
  qed
qed

lemma read_post_any:
  assumes q: "read_queue_ok (cx_read_queue con)" and h: "read_post e con = Inr (eff, con')"
  shows "cq_ok (cx_read_queue con')" "left_over (cq_chunks (cx_read_queue con')) (length (pending con))"
    "cx_state con' = cx_state con \<or> cx_state con' = CON_STATE_HANDLE_REQUEST" "cx_in_error_handler con' = cx_in_error_handler con"
    "keeps_alive con' \<Longrightarrow> keeps_alive con"
proof -
  let ?cs = "cq_chunks (cx_read_queue con)" and ?len = "int (rq_content_length (cx_req con))"
  have ok: "cq_ok (cx_read_queue con)" "list_all rd_chunk ?cs" "list_all (\<lambda>c. ck_offset c = 0) (tl ?cs)" using q by (simp_all add: read_queue_ok_def)
  obtain eff1 dst ds b where p: "post_loop e ?len (cx_content_queue con) ?cs = Inr (eff1, dst, ds, b)"
      and r: "cx_read_queue con' = (cx_read_queue con)\<lparr>cq_chunks := ds\<rparr>" "cx_state con' = cx_state con \<or> cx_state con' = CON_STATE_HANDLE_REQUEST"
        "cx_in_error_handler con' = cx_in_error_handler con" "keeps_alive con' \<longrightarrow> keeps_alive con"
    using h by (auto simp: read_post_def Let_def bindR_eq_Inr connection_set_state_def set_keep_alive_def set_status_def split: if_splits)
  note l = post_loop_any [OF p ok(2,3)]
  have "\<forall>c \<in> set ds. rd_chunk c" using left_over_rd [OF l] by (auto simp: list_all_iff)
  then show "cq_ok (cx_read_queue con')" using ok(1) r(1) by (simp add: cq_ok_def rd_chunk_def) blast
  show "left_over (cq_chunks (cx_read_queue con')) (length (pending con))" using l r(1) by simp
  show "cx_state con' = cx_state con \<or> cx_state con' = CON_STATE_HANDLE_REQUEST" "cx_in_error_handler con' = cx_in_error_handler con"
    "keeps_alive con' \<Longrightarrow> keeps_alive con" using r by auto
qed

text \<open>The first part of the handler, a read if the socket is readable.\<close>

lemma first_read_any:
  assumes q: "read_queue_ok (cx_read_queue con)" and b: "reads_at_most re n"
    and c1: "(if cx_is_readable con then connection_handle_read re (con\<lparr>cx_read_idle_ts := ts\<rparr>) else Inr (0, con)) = Inr (r1, c1)"
  shows "r1 \<noteq> -1 \<longrightarrow> cx_state c1 = cx_state con \<and> read_queue_ok (clean_queue (cx_read_queue c1)) \<and>
      length (unread_all (cq_chunks (clean_queue (cx_read_queue c1)))) \<le> length (pending con) + n"
    and "r1 = -1 \<longrightarrow> cx_state c1 = cx_state con \<or> cx_state c1 = CON_STATE_ERROR" and "keeps_alive c1 = keeps_alive con"
proof (atomize (full), cases "cx_is_readable con")
  case True
  let ?c0 = "con\<lparr>cx_read_idle_ts := ts\<rparr>"
  have q0: "read_queue_ok (cx_read_queue ?c0)" using q by simp
  have h0: "connection_handle_read re ?c0 = Inr (r1, c1)" using c1 True by simp
  show "(r1 \<noteq> -1 \<longrightarrow> cx_state c1 = cx_state con \<and> read_queue_ok (clean_queue (cx_read_queue c1)) \<and>
      length (unread_all (cq_chunks (clean_queue (cx_read_queue c1)))) \<le> length (pending con) + n) \<and>
    (r1 = -1 \<longrightarrow> cx_state c1 = cx_state con \<or> cx_state c1 = CON_STATE_ERROR) \<and> keeps_alive c1 = keeps_alive con"
    using read_any [OF q0 h0 b] by simp
next
  case False
  then have "r1 = 0" "c1 = con" using c1 by simp_all
  moreover have "clean_queue (cx_read_queue con) = cx_read_queue con" using q by (intro clean_queue_id) (simp add: read_queue_ok_def)
  ultimately show "(r1 \<noteq> -1 \<longrightarrow> cx_state c1 = cx_state con \<and> read_queue_ok (clean_queue (cx_read_queue c1)) \<and>
      length (unread_all (cq_chunks (clean_queue (cx_read_queue c1)))) \<le> length (pending con) + n) \<and>
    (r1 = -1 \<longrightarrow> cx_state c1 = cx_state con \<or> cx_state c1 = CON_STATE_ERROR) \<and> keeps_alive c1 = keeps_alive con"
    using q by simp
qed

text \<open>What a read state becomes, if it changes: the queue is in order again and at most \<open>n\<close> bytes longer.\<close>

lemma read_state_any:
  assumes q: "read_queue_ok (cx_read_queue con)" and b: "reads_at_most re n"
    and h: "connection_handle_read_state re fe ts con = Inr (r, eff, con')"
    and st: "cx_state con = CON_STATE_READ \<or> cx_state con = CON_STATE_READ_POST"
  shows "cx_state con' = cx_state con \<or> cx_state con' = CON_STATE_ERROR \<or>
    read_queue_ok (cx_read_queue con') \<and>
    (cx_state con = CON_STATE_READ \<and> cx_state con' = CON_STATE_REQUEST_END \<and> length (pending con') + 1 \<le> length (pending con) + n \<or>
     cx_state con' = CON_STATE_HANDLE_REQUEST \<and> length (pending con') \<le> length (pending con) + n \<and>
       (cx_state con = CON_STATE_READ \<longrightarrow> \<not> keeps_alive con'))"
proof (cases "cx_state con' = cx_state con \<or> cx_state con' = CON_STATE_ERROR")
  case False
  let ?c0 = "con\<lparr>cx_read_idle_ts := ts\<rparr>"
  obtain r1 c1 where c1: "(if cx_is_readable con then connection_handle_read re ?c0 else Inr (0, con)) = Inr (r1, c1)"
      and rest: "(if r1 = -1 then Inr (-1, [], c1)
           else bindR (read_body fe (cx_state con) (c1\<lparr>cx_read_queue := clean_queue (cx_read_queue c1)\<rparr>)) (\<lambda>(eff, c).
                  let c = (if r1 = -2 \<and> cx_state con = cx_state c then connection_set_state c CON_STATE_ERROR else c)
                  in bindR (chunkqueue_remove_finished_chunks (cx_read_queue c)) (\<lambda>(ceff, cq).
                       Inr (0, eff @ map Cleanup ceff, c\<lparr>cx_read_queue := cq\<rparr>)))) = Inr (r, eff, con')"
    using h unfolding connection_handle_read_state_def Let_def by (elim bindR_pairE)
  note c1q = first_read_any [OF q b c1]
  have r1: "r1 \<noteq> -1" using c1q(2) rest False by auto
  let ?c = "c1\<lparr>cx_read_queue := clean_queue (cx_read_queue c1)\<rparr>"
  have cq: "read_queue_ok (cx_read_queue ?c)" "length (pending ?c) \<le> length (pending con) + n" "cx_state ?c = cx_state con" using c1q(1) r1 by simp_all
  obtain eff1 c2 eff2 cq2 where b2: "read_body fe (cx_state con) ?c = Inr (eff1, c2)" and c3: "cx_state c2 = cx_state con'" "keeps_alive con' = keeps_alive c2"
      "chunkqueue_remove_finished_chunks (cx_read_queue c2) = Inr (eff2, cq2)" "cx_read_queue con' = cq2"
    using rest r1 False by (auto simp: Let_def bindR_eq_Inr split: if_splits)
  from st show ?thesis
  proof
    assume s: "cx_state con = CON_STATE_READ"
    then have rh: "read_header ?c = Inr c2" using b2 by (auto simp: read_body_def bindR_eq_Inr)
    note a = read_header_any [OF cq(1) rh]
    have ne: "c2 \<noteq> ?c" using c3(1) False cq(3) by auto
    from a(3) ne consider "cx_state c2 = CON_STATE_REQUEST_END" "0 < length (pending ?c)" "left_over (cq_chunks (cx_read_queue c2)) (length (pending ?c) - 1)"
      | "cx_state c2 = CON_STATE_HANDLE_REQUEST" "\<not> keeps_alive c2" "cx_read_queue c2 = cx_read_queue ?c" by blast
    then show ?thesis
    proof cases
      case 1
      have "read_queue_ok cq2 \<and> length (unread_all (cq_chunks cq2)) \<le> length (pending ?c) - 1" by (rule remove_left_over [OF a(1) 1(3) c3(3)])
      then have k: "read_queue_ok (cx_read_queue con')" "length (pending con') \<le> length (pending ?c) - 1" unfolding c3(4) by blast+
      have "length (pending con') + 1 \<le> length (pending con) + n" using k(2) 1(2) cq(2) by linarith
      with k(1) show ?thesis using 1(1) s c3(1) by simp
    next
      case 2
      have "left_over (cq_chunks (cx_read_queue c2)) (length (pending ?c))"
        using cq(1) unfolding 2(3) by (intro left_overI) (simp_all add: read_queue_ok_def)
      from remove_left_over [OF a(1) this c3(3)] show ?thesis using 2 c3 cq(2) by auto
    qed
  next
    assume s: "cx_state con = CON_STATE_READ_POST"
    then have rp: "read_post fe ?c = Inr (eff1, c2)" using b2 by (simp add: read_body_def)
    note a = read_post_any [OF cq(1) rp]
    from remove_left_over [OF a(1,2) c3(3)] show ?thesis using a(3) s c3 cq(2,3) False by auto
  qed
qed blast

section \<open>The measure\<close>

definition resting :: "connection_state set" where
  "resting = {CON_STATE_CONNECT, CON_STATE_CLOSE, CON_STATE_ERROR}"

text \<open>The way from a state to the next request, shorter if the connection will be closed.\<close>

fun rank :: "connection_state \<Rightarrow> bool \<Rightarrow> bool \<Rightarrow> nat" where
  "rank CON_STATE_CONNECT ka er = 0"
| "rank CON_STATE_CLOSE ka er = 1"
| "rank CON_STATE_ERROR ka er = 2"
| "rank CON_STATE_RESPONSE_END ka er = (if ka then 12 else 3)"
| "rank CON_STATE_WRITE ka er = (if ka then 13 else 4)"
| "rank CON_STATE_RESPONSE_START ka er = (if ka then 14 else 5)"
| "rank CON_STATE_HANDLE_REQUEST ka er = (if ka then 15 else 6) + (if er then 0 else 1)"
| "rank CON_STATE_READ ka er = 9"
| "rank CON_STATE_REQUEST_START ka er = 10"
| "rank CON_STATE_READ_POST ka er = 18"
| "rank CON_STATE_REQUEST_END ka er = 19"

abbreviation rank_of :: "connection \<Rightarrow> nat" where
  "rank_of con \<equiv> rank (cx_state con) (keeps_alive con) (cx_in_error_handler con)"

definition way :: "nat \<Rightarrow> connection \<Rightarrow> nat" where
  "way left con = (if cx_state con \<in> resting then rank_of con else 20 * (length (pending con) + left) + rank_of con)"

definition loop_inv :: "connection \<Rightarrow> bool" where
  "loop_inv con \<longleftrightarrow> cx_state con \<in> resting \<or> read_queue_ok (cx_read_queue con)"

lemma rank_bounds: "rank st ka er < 20" "st \<notin> resting \<Longrightarrow> 3 \<le> rank st ka er" "st \<in> resting \<Longrightarrow> rank st ka er < 3"
  by (cases st; simp add: resting_def)+

lemma way_rests: "cx_state con \<notin> resting \<Longrightarrow> cx_state con' \<in> resting \<Longrightarrow> way l' con' < way l con \<and> loop_inv con'"
  using rank_bounds(2) [of "cx_state con" "keeps_alive con" "cx_in_error_handler con"]
    rank_bounds(3) [of "cx_state con'" "keeps_alive con'" "cx_in_error_handler con'"]
  by (simp add: way_def loop_inv_def)

text \<open>A step that leaves the queue alone and goes down.\<close>

lemma way_down:
  assumes "loop_inv con" "cx_state con \<notin> resting" "cx_read_queue con' = cx_read_queue con" "l' \<le> l" "rank_of con' < rank_of con"
  shows "way l' con' < way l con \<and> loop_inv con'"
proof (cases "cx_state con' \<in> resting")
  case True
  then show ?thesis by (rule way_rests [OF assms(2)])
next
  case False
  then show ?thesis using assms by (simp add: way_def loop_inv_def)
qed

text \<open>A step of the two reading states.\<close>

lemma read_down:
  assumes st: "cx_state con = CON_STATE_READ \<or> cx_state con = CON_STATE_READ_POST" and b: "reads_at_most (se_read e) b" and l: "l' + b = l"
    and inv: "loop_inv con" and s: "sm_step e srv con = Inr (eff, again, srv', con')" and go: "again \<or> cx_state con' \<noteq> cx_state con"
  shows "way l' con' < way l con \<and> loop_inv con'"
proof -
  obtain r eff1 where h: "connection_handle_read_state (se_read e) (se_file e) (cs_cur_ts srv) con = Inr (r, eff1, con')" "\<not> again"
    using s st by (auto simp: sm_step_def sm_read_def bindR_eq_Inr)
  have nr: "cx_state con \<notin> resting" using st by (auto simp: resting_def)
  then have q: "read_queue_ok (cx_read_queue con)" using inv by (simp add: loop_inv_def)
  from read_state_any [OF q b h(1) st] go h(2) st
  show ?thesis using way_rests [OF nr, of con' l' l] l rank_bounds(1) [of "cx_state con'" "keeps_alive con'" "cx_in_error_handler con'"]
    by (auto simp: way_def loop_inv_def resting_def)
qed

lemma step_down:
  assumes e: "hooks_ok e" "\<forall>c. fst (se_prepare e c) \<noteq> HANDLER_COMEBACK" "reads_at_most (se_read e) b" and l: "l' + b = l"
    and inv: "loop_inv con" and s: "sm_step e srv con = Inr (eff, again, srv', con')" and go: "again \<or> cx_state con' \<noteq> cx_state con"
  shows "way l' con' < way l con \<and> loop_inv con'"
proof -
  have le: "l' \<le> l" using l by simp
  show ?thesis
  proof (cases "cx_state con")
    case CON_STATE_CONNECT
    then show ?thesis using s go by (auto simp: sm_step_def sm_connect_def bindR_eq_Inr)
  next
    case CON_STATE_CLOSE
    then have c: "sm_close e srv con = Inr (eff, again, srv', con')" using s by (simp add: sm_step_def)
    then have "cx_state con' = CON_STATE_CONNECT" using close_step(1,2) [OF c] CON_STATE_CLOSE go by auto
    then show ?thesis using CON_STATE_CLOSE by (simp add: way_def loop_inv_def resting_def)
  next
    case CON_STATE_ERROR
    then have c: "sm_error e srv con = Inr (eff, again, srv', con')" using s by (simp add: sm_step_def)
    then have "cx_state con' = CON_STATE_CONNECT \<or> cx_state con' = CON_STATE_CLOSE" using error_step(2) [OF e(1) c] by auto
    then show ?thesis using CON_STATE_ERROR by (auto simp: way_def loop_inv_def resting_def)
  next
    case CON_STATE_REQUEST_START
    then have "cx_state con' = CON_STATE_READ" "cx_read_queue con' = cx_read_queue con" using s by (auto simp: sm_step_def sm_request_start_def)
    then show ?thesis using CON_STATE_REQUEST_START by (intro way_down [OF inv _ _ le]) (simp_all add: resting_def)
  next
    case CON_STATE_REQUEST_END
    then have "cx_state con' \<in> {CON_STATE_READ_POST, CON_STATE_HANDLE_REQUEST}" "cx_read_queue con' = cx_read_queue con"
      using s by (auto simp: sm_step_def sm_request_end_def bindR_eq_Inr Let_def)
    then show ?thesis using CON_STATE_REQUEST_END by (intro way_down [OF inv _ _ le]) (auto simp: resting_def)
  next
    case CON_STATE_RESPONSE_START
    then have "sm_response_start e srv con = Inr (eff, again, srv', con')" using s by (simp add: sm_step_def)
    from response_start_step [OF this] show ?thesis
      using CON_STATE_RESPONSE_START by (intro way_down [OF inv _ _ le]) (auto simp: resting_def)
  next
    case CON_STATE_RESPONSE_END
    then have "sm_response_end e srv con = Inr (eff, again, srv', con')" using s by (simp add: sm_step_def)
    from response_end_step(2,3) [OF e(1) this] show ?thesis
      using CON_STATE_RESPONSE_END by (intro way_down [OF inv _ _ le]) (auto simp: resting_def)
  next
    case CON_STATE_HANDLE_REQUEST
    then have hs: "sm_handle_request e srv con = Inr (eff, again, srv', con')" using s by (simp add: sm_step_def)
    note h = handle_request_step [OF e(1) hs CON_STATE_HANDLE_REQUEST]
    have "rank_of con' < rank_of con"
    proof (cases again)
      case True
      then show ?thesis using h(2,3) e(2) CON_STATE_HANDLE_REQUEST by auto
    next
      case False
      then show ?thesis using h(2,4) go CON_STATE_HANDLE_REQUEST by auto
    qed
    then show ?thesis using h(1) CON_STATE_HANDLE_REQUEST by (intro way_down [OF inv _ _ le]) (simp_all add: resting_def)
  next
    case CON_STATE_WRITE
    then have w: "sm_write e srv con = Inr (eff, again, srv', con')" using s by (simp add: sm_step_def)
    note d = write_step [OF w CON_STATE_WRITE]
    show ?thesis using CON_STATE_WRITE go d by (intro way_down [OF inv _ _ le]) (auto simp: resting_def)
  next
    case CON_STATE_READ
    then show ?thesis by (intro read_down [OF _ e(3) l inv s go]) simp
  next
    case CON_STATE_READ_POST
    then show ?thesis by (intro read_down [OF _ e(3) l inv s go]) simp
  qed
qed

section \<open>The loop ends\<close>

lemma machine_ends_aux:
  assumes e: "\<forall>j. hooks_ok (env j) \<and> (\<forall>c. fst (se_prepare (env j) c) \<noteq> HANDLER_COMEBACK) \<and> reads_at_most (se_read (env j)) (b j)"
    and total: "\<forall>j. sum b {..<j} \<le> B"
  shows "loop_inv con \<Longrightarrow> way (B - sum b {..<k}) con < n \<Longrightarrow> connection_state_machine n env k srv con \<noteq> Inr None"
proof (induction n arbitrary: k srv con)
  case (Suc n)
  show ?case
  proof (cases "sm_step (env k) srv con")
    case (Inl f)
    then show ?thesis by simp
  next
    case (Inr p)
    then obtain eff again s1 c1 where p: "sm_step (env k) srv con = Inr (eff, again, s1, c1)" by (cases p) auto
    show ?thesis
    proof (cases "again \<or> cx_state c1 \<noteq> cx_state con")
      case False
      then show ?thesis using p by simp
    next
      case True
      have "sum b {..<Suc k} \<le> B" using total by blast
      then have l: "(B - sum b {..<k + 1}) + b k = B - sum b {..<k}" by simp
      have d: "way (B - sum b {..<k + 1}) c1 < way (B - sum b {..<k}) con \<and> loop_inv c1"
        using step_down [OF _ _ _ l Suc.prems(1) p True] e by blast
      then have "connection_state_machine n env (k + 1) s1 c1 \<noteq> Inr None" using Suc.prems(2) by (intro Suc.IH) auto
      then show ?thesis using p True by (auto simp: bindR_eq_Inr)
    qed
  qed
qed simp

lemma quiet_no_fault:
  "\<exists>r. connection_state_machine (n + 2) (\<lambda>_. env_quiet) 0 srv_small ((connection_init conf_plain [] 0)\<lparr>cx_state := CON_STATE_REQUEST_START\<rparr>) = Inr r"
  by (simp add: sm_step_def sm_request_start_def connection_init_def config_setup_connection_def connection_set_state_def sm_read_def
      connection_handle_read_state_def env_quiet_def Let_def clean_queue_def chunkqueue_init_def read_body_def read_header_def
      chunkqueue_length_def chunkqueue_remove_finished_chunks_def)



end
