(* ===== verification/Lt_Net_Facts.thy ===== *)
theory Lt_Net_Facts
  imports Lt_Net Lt_Conn_Read_Facts
begin

text \<open>
  What the backends promise: the bytes the socket takes are those at the front of the queue, in order, none
  twice and none skipped. The interface is a locale, interpreted on the three backends.
\<close>

section \<open>Chunks that can be sent\<close>

text \<open>\<open>fs\<close> gives the contents of a file; a file chunk lies inside its file.\<close>

definition sendable :: "(bytes \<Rightarrow> bytes) \<Rightarrow> chunk \<Rightarrow> bool" where
  "sendable fs c \<longleftrightarrow> ck_wf c \<and> 0 \<le> ck_offset c \<and>
     (case ck_type c of
        MEM_CHUNK \<Rightarrow> bf_used (ck_mem c) = 0 \<or> ck_offset c < int (bf_used (ck_mem c))
      | FILE_CHUNK \<Rightarrow> 0 \<le> ck_start c \<and> ck_offset c \<le> ck_length c \<and>
          ck_start c + ck_length c \<le> int (length (fs (buf_text (ck_name c)))) \<and>
          bf_used (ck_name c) \<noteq> 0 \<and> 0 \<notin> set (buf_text (ck_name c))
      | UNUSED_CHUNK \<Rightarrow> False)"

definition honest :: "(bytes \<Rightarrow> bytes) \<Rightarrow> net_ans \<Rightarrow> bool" where
  "honest fs a \<longleftrightarrow> na_file a = fs \<and> (\<forall>nm. na_stat a nm = Some (int (length (fs nm)))) \<and>
     (\<forall>t n. na_write a t = Inr n \<longrightarrow> n \<le> length t)"

lemma honest_simps: "honest fs a \<Longrightarrow> na_file a = fs" "honest fs a \<Longrightarrow> na_stat a nm = Some (int (length (fs nm)))"
  "honest fs a \<Longrightarrow> na_write a t = Inr n \<Longrightarrow> n \<le> length t"
  by (auto simp: honest_def)

lemma honest_taken: "honest fs a \<Longrightarrow> taken (na_write a t) = Inr n \<Longrightarrow> n \<le> length t"
  by (auto simp: taken_def split: sum.splits if_splits dest: honest_simps(3))

text \<open>The bytes of a chunk in numbers.\<close>

lemma sendable_mem:
  assumes "sendable fs c" "ck_type c = MEM_CHUNK" "bf_used (ck_mem c) \<noteq> 0"
  shows "chunk_bytes c (mem_left c) = Inr (ck_rest fs c)" "int (length (ck_rest fs c)) = mem_left c"
proof -
  define s where "s = buf_text (ck_mem c)"
  have h: "holds (ck_mem c) s" using assms(1) by (simp add: sendable_def ck_wf_def s_def)
  then have u: "bf_used (ck_mem c) = length s + 1" using assms(3) by (auto simp: holds_def)
  obtain m where m: "ck_offset c = int m" "m \<le> length s" using assms u by (auto simp: sendable_def intro: nonneg_int_cases [of "ck_offset c"])
  have rest: "ck_rest fs c = drop m s" using assms(2) by (simp add: ck_rest_def s_def m(1))
  show "int (length (ck_rest fs c)) = mem_left c" using m(2) by (simp add: rest mem_left_def u m(1))
  have r: "read_cells (length s) (bf_ptr (ck_mem c)) = Inr s" using holds_read [OF h assms(3)] u by simp
  have e: "ck_offset c + mem_left c = int (length s)" by (simp add: mem_left_def u)
  then have "chunk_bytes c (mem_left c) = bindR (checkR (0 \<le> mem_left c \<and> 0 \<le> ck_offset c) OutOfBounds) (\<lambda>_. Inr (drop m s))"
    using r by (simp add: chunk_bytes_def m(1))
  then show "chunk_bytes c (mem_left c) = Inr (ck_rest fs c)" using m(2) by (simp add: rest mem_left_def u m(1))
qed

lemma sendable_mem_empty: "ck_type c = MEM_CHUNK \<Longrightarrow> sendable fs c \<Longrightarrow> bf_used (ck_mem c) = 0 \<Longrightarrow> ck_rest fs c = []"
  by (auto simp: ck_rest_def sendable_def ck_wf_def holds_def)

lemma sendable_file:
  assumes "sendable fs c" "ck_type c = FILE_CHUNK"
  shows "cstr (bf_ptr (ck_name c)) = Inr (buf_text (ck_name c))" "int (length (ck_rest fs c)) = ck_length c - ck_offset c"
    "ck_rest fs c = take (nat (ck_length c - ck_offset c)) (drop (nat (ck_start c + ck_offset c)) (fs (buf_text (ck_name c))))"
    "0 \<le> ck_start c" "0 \<le> ck_offset c" "ck_offset c \<le> ck_length c" "ck_start c + ck_length c \<le> int (length (fs (buf_text (ck_name c))))"
proof -
  show "0 \<le> ck_start c" "0 \<le> ck_offset c" "ck_offset c \<le> ck_length c" "ck_start c + ck_length c \<le> int (length (fs (buf_text (ck_name c))))"
    using assms by (auto simp: sendable_def)
  then show "int (length (ck_rest fs c)) = ck_length c - ck_offset c" using assms(2) by (simp add: ck_rest_def)
  show "ck_rest fs c = take (nat (ck_length c - ck_offset c)) (drop (nat (ck_start c + ck_offset c)) (fs (buf_text (ck_name c))))"
    using assms(2) by (simp add: ck_rest_def)
  show "cstr (bf_ptr (ck_name c)) = Inr (buf_text (ck_name c))"
    using assms by (intro holds_cstr) (auto simp: sendable_def ck_wf_def)
qed

text \<open>A finished chunk is one with nothing left.\<close>

lemma finished_iff: "sendable fs c \<Longrightarrow> chunk_finished c \<longleftrightarrow> ck_rest fs c = []"
proof (cases "ck_type c")
  case MEM_CHUNK
  assume s: "sendable fs c"
  show ?thesis
  proof (cases "bf_used (ck_mem c) = 0")
    case False
    from sendable_mem(2) [OF s MEM_CHUNK this] have "ck_rest fs c = [] \<longleftrightarrow> mem_left c = 0" by (cases "ck_rest fs c") auto
    then show ?thesis using MEM_CHUNK False by (auto simp: chunk_finished_def mem_left_def)
  qed (use sendable_mem_empty [OF MEM_CHUNK s] MEM_CHUNK in \<open>simp add: chunk_finished_def\<close>)
next
  case FILE_CHUNK
  assume s: "sendable fs c"
  from sendable_file(2) [OF s FILE_CHUNK] have "ck_rest fs c = [] \<longleftrightarrow> ck_offset c = ck_length c" by (cases "ck_rest fs c") auto
  then show ?thesis using FILE_CHUNK by (simp add: chunk_finished_def)
qed (simp add: sendable_def)

lemma advance:
  assumes "sendable fs c" "r \<le> length (ck_rest fs c)"
  shows "ck_rest fs (c\<lparr>ck_offset := ck_offset c + int r\<rparr>) = drop r (ck_rest fs c)" "sendable fs (c\<lparr>ck_offset := ck_offset c + int r\<rparr>)"
proof -
  have o: "0 \<le> ck_offset c" using assms(1) by (simp add: sendable_def)
  have "ck_rest fs (c\<lparr>ck_offset := ck_offset c + int r\<rparr>) = drop r (ck_rest fs c) \<and> sendable fs (c\<lparr>ck_offset := ck_offset c + int r\<rparr>)"
  proof (cases "ck_type c")
    case MEM_CHUNK
    have "int r \<le> mem_left c \<or> bf_used (ck_mem c) = 0" using assms(2) sendable_mem(2) [OF assms(1) MEM_CHUNK] by linarith
    then show ?thesis using MEM_CHUNK assms o by (auto simp: ck_rest_def sendable_def ck_wf_def mem_left_def nat_add_distrib add.commute)
  next
    case FILE_CHUNK
    note f = sendable_file [OF assms(1) FILE_CHUNK]
    have "int r \<le> ck_length c - ck_offset c" using assms(2) f(2) by linarith
    moreover have "nat (ck_length c - (ck_offset c + int r)) = nat (ck_length c - ck_offset c) - r" by simp
    moreover have "nat (ck_start c + (ck_offset c + int r)) = r + nat (ck_start c + ck_offset c)" using o f(4) by simp
    ultimately show ?thesis using FILE_CHUNK assms(1) o by (simp add: ck_rest_def sendable_def ck_wf_def drop_take)
  qed (use assms in \<open>simp add: sendable_def\<close>)
  then show "ck_rest fs (c\<lparr>ck_offset := ck_offset c + int r\<rparr>) = drop r (ck_rest fs c)" "sendable fs (c\<lparr>ck_offset := ck_offset c + int r\<rparr>)" by simp_all
qed

lemma delivered_append [simp]: "delivered (a @ b) = delivered a @ delivered b"
  by (induction a rule: delivered.induct) simp_all

lemma delivered_tidy [simp]: "delivered (map Tidy es) = []"
  by (induction es) simp_all

section \<open>One chunk\<close>

text \<open>What a call may do with a chunk: take its bytes from the front, and tell whether something is left.\<close>

definition step_ok :: "(bytes \<Rightarrow> bytes) \<Rightarrow> chunk \<Rightarrow> outcome \<times> net_effect list \<times> chunk \<Rightarrow> bool" where
  "step_ok fs c = (\<lambda>(out, eff, c'). sendable fs c' \<and> ck_type c' = ck_type c \<and> delivered eff @ ck_rest fs c' = ck_rest fs c \<and>
     (case out of Finished \<Rightarrow> ck_rest fs c' = [] | Partly \<Rightarrow> ck_rest fs c' \<noteq> [] | Failed r \<Rightarrow> r < 0))"

lemma step_ok_failed: "sendable fs c' \<Longrightarrow> ck_type c' = ck_type c \<Longrightarrow> ck_rest fs c' = ck_rest fs c \<Longrightarrow> delivered eff = [] \<Longrightarrow> r < 0 \<Longrightarrow>
    step_ok fs c (Failed r, eff, c')"
  by (simp add: step_ok_def)

text \<open>The fields that only say how a file is open do not matter.\<close>

definition view :: "chunk \<Rightarrow> chunk_type \<times> buffer \<times> buffer \<times> int \<times> int \<times> int" where
  "view c = (ck_type c, ck_mem c, ck_name c, ck_start c, ck_length c, ck_offset c)"

lemma view_eq: "view c = view d \<Longrightarrow> sendable fs c = sendable fs d \<and> ck_rest fs c = ck_rest fs d"
  by (cases "ck_type d") (simp_all add: view_def sendable_def ck_rest_def ck_wf_def)

lemma handle_fields [simp]:
  "sendable fs (c\<lparr>ck_fd := x\<rparr>) = sendable fs c" "ck_rest fs (c\<lparr>ck_fd := x\<rparr>) = ck_rest fs c"
  "sendable fs (c\<lparr>ck_fd := x, ck_offset := y\<rparr>) = sendable fs (c\<lparr>ck_offset := y\<rparr>)"
  "ck_rest fs (c\<lparr>ck_fd := x, ck_offset := y\<rparr>) = ck_rest fs (c\<lparr>ck_offset := y\<rparr>)"
  using view_eq [of "c\<lparr>ck_fd := x\<rparr>" c fs] view_eq [of "c\<lparr>ck_fd := x, ck_offset := y\<rparr>" "c\<lparr>ck_offset := y\<rparr>" fs]
  by (simp_all add: view_def)

lemma write_mem_ok:
  assumes "honest fs a" "sendable fs c" "ck_type c = MEM_CHUNK"
  shows "\<exists>x. write_mem a c = Inr x \<and> step_ok fs c x"
proof (cases "bf_used (ck_mem c) = 0")
  case True
  then show ?thesis using assms sendable_mem_empty [of c fs] by (simp add: write_mem_def step_ok_def)
next
  case False
  note m = sendable_mem [OF assms(2,3) False]
  show ?thesis
  proof (cases "na_write a (ck_rest fs c)")
    case (Inl e)
    then show ?thesis using m(1) False assms(2) by (simp add: write_mem_def step_ok_def)
  next
    case (Inr r)
    have r: "r \<le> length (ck_rest fs c)" using honest_simps(3) [OF assms(1) Inr] .
    let ?c = "c\<lparr>ck_offset := ck_offset c + int r\<rparr>"
    note adv = advance [OF assms(2) r]
    have "chunk_finished ?c \<longleftrightarrow> ck_offset c + int r = int (bf_used (ck_mem c)) - 1" using assms(3) False by (simp add: chunk_finished_def)
    with finished_iff [OF adv(2)] have "ck_offset c + int r = int (bf_used (ck_mem c)) - 1 \<longleftrightarrow> ck_rest fs ?c = []" by simp
    then show ?thesis using Inr m(1) False adv by (simp add: write_mem_def step_ok_def Let_def)
  qed
qed

text \<open>The end of a file chunk after a call.\<close>

lemma file_advance:
  assumes "sendable fs c" "ck_type c = FILE_CHUNK" "r \<le> length (ck_rest fs c)"
  shows "ck_offset c + int r = ck_length c \<longleftrightarrow> drop r (ck_rest fs c) = []"
  using assms(3) sendable_file(2) [OF assms(1,2)] by auto

lemma write_file_ok:
  assumes "honest fs a" "sendable fs c" "ck_type c = FILE_CHUNK"
  shows "\<exists>x. write_file a c = Inr x \<and> step_ok fs c x"
proof -
  note f = sendable_file [OF assms(2,3)]
  let ?nm = "buf_text (ck_name c)"
  have m: "mapped (fs ?nm) 0 (int (length (fs ?nm))) (ck_start c + ck_offset c) (ck_length c - ck_offset c) = Inr (ck_rest fs c)"
    using f(3-7) by (simp add: mapped_def)
  show ?thesis
  proof (cases "na_open a ?nm = -1 \<or> \<not> na_mmap a \<or> (\<exists>e. na_write a (ck_rest fs c) = Inl e) \<or> na_write a (ck_rest fs c) = Inr 0")
    case True
    then show ?thesis using f(1,4-7) m assms(2) honest_simps(1,2) [OF assms(1)]
      by (auto simp: write_file_def Let_def intro!: step_ok_failed)
  next
    case False
    then obtain r where r: "na_write a (ck_rest fs c) = Inr r" "r \<noteq> 0" by (cases "na_write a (ck_rest fs c)") auto
    have le: "r \<le> length (ck_rest fs c)" using honest_simps(3) [OF assms(1) r(1)] .
    show ?thesis using False r f(1,4-7) m advance [OF assms(2) le] file_advance [OF assms(2,3) le] honest_simps(1,2) [OF assms(1)]
      by (simp add: write_file_def Let_def step_ok_def)
  qed
qed

lemma write_chunk_ok: "honest fs a \<Longrightarrow> sendable fs c \<Longrightarrow> \<exists>x. write_chunk a c = Inr x \<and> step_ok fs c x"
  using write_mem_ok [of fs a c] write_file_ok [of fs a c] by (cases "ck_type c") (simp_all add: write_chunk_def, simp add: sendable_def)

text \<open>What \<open>sendfile\<close> is offered is a front part of what is left, and what the function does with the answer.\<close>

lemma sendfile_file_eq:
  assumes "honest fs a" "sendable fs c" "ck_type c = FILE_CHUNK"
  obtains t k fd where "t = take k (ck_rest fs c)" "ck_rest fs c \<noteq> [] \<Longrightarrow> 0 < k" "fd = (if ck_fd c = -1 then na_open a (buf_text (ck_name c)) else ck_fd c)"
    "sendfile_file a c = (if fd = -1 then Inr (Failed (-1), [], c)
      else case taken (na_write a t) of Inl e \<Rightarrow> Inr (Failed e, [], c\<lparr>ck_fd := fd\<rparr>)
         | Inr r \<Rightarrow> if r = 0 then Inr (Failed (-2), [], c\<lparr>ck_fd := fd\<rparr>)
             else if ck_offset c + int r = ck_length c
             then Inr (Finished, [Put (take r t), Tidy (Close fd)], c\<lparr>ck_offset := ck_offset c + int r, ck_fd := -1\<rparr>)
             else Inr (Partly, [Put (take r t)], c\<lparr>ck_fd := fd, ck_offset := ck_offset c + int r\<rparr>))"
proof -
  note f = sendable_file [OF assms(2,3)]
  let ?nm = "buf_text (ck_name c)"
  define left toSend t fd where "left = ck_length c - ck_offset c" and "toSend = (if left > 2 ^ 30 - 1 then 2 ^ 30 - 1 else left mod 2 ^ 64)"
    and "t = take (nat toSend) (drop (nat (ck_start c + ck_offset c)) (fs ?nm))" and "fd = (if ck_fd c = -1 then na_open a ?nm else ck_fd c)"
  have "0 \<le> left" "left = int (length (ck_rest fs c))" using f(2,6) by (auto simp: left_def)
  moreover from this have "left > 2 ^ 30 - 1 \<or> left mod 2 ^ 64 = left" by (cases "left > 2 ^ 30 - 1") (simp_all add: mod_pos_pos_trivial)
  ultimately have "toSend \<le> left" "ck_rest fs c \<noteq> [] \<Longrightarrow> 0 < nat toSend" by (auto simp: toSend_def)
  moreover from this(1) have "t = take (nat toSend) (ck_rest fs c)" using f(3) by (simp add: t_def left_def min_absorb1)
  moreover have "\<not> ck_start c + ck_offset c > int (length (fs ?nm))" using f(6,7) by simp
  then have "sendfile_file a c = (if fd = -1 then Inr (Failed (-1), [], c)
      else case taken (na_write a t) of Inl e \<Rightarrow> Inr (Failed e, [], c\<lparr>ck_fd := fd\<rparr>)
         | Inr r \<Rightarrow> if r = 0 then Inr (Failed (-2), [], c\<lparr>ck_fd := fd\<rparr>)
             else if ck_offset c + int r = ck_length c
             then Inr (Finished, [Put (take r t), Tidy (Close fd)], c\<lparr>ck_offset := ck_offset c + int r, ck_fd := -1\<rparr>)
             else Inr (Partly, [Put (take r t)], c\<lparr>ck_fd := fd, ck_offset := ck_offset c + int r\<rparr>))"
    unfolding sendfile_file_def f(1) bindR_Inr Let_def honest_simps(1,2) [OF assms(1)] left_def [symmetric] toSend_def [symmetric]
      t_def [symmetric] fd_def [symmetric] by (cases "taken (na_write a t)") simp_all
  ultimately show ?thesis using that fd_def by blast
qed

lemma taken_error: "taken x = Inl e \<Longrightarrow> e < 0"
  by (auto simp: taken_def split: sum.splits if_splits)

lemma sendfile_file_ok:
  assumes "honest fs a" "sendable fs c" "ck_type c = FILE_CHUNK"
  shows "\<exists>x. sendfile_file a c = Inr x \<and> step_ok fs c x"
  using assms
proof (rule sendfile_file_eq)
  fix t k fd
  assume t: "t = take k (ck_rest fs c)" and sf: "sendfile_file a c = (if fd = -1 then Inr (Failed (-1), [], c)
      else case taken (na_write a t) of Inl e \<Rightarrow> Inr (Failed e, [], c\<lparr>ck_fd := fd\<rparr>)
         | Inr r \<Rightarrow> if r = 0 then Inr (Failed (-2), [], c\<lparr>ck_fd := fd\<rparr>)
             else if ck_offset c + int r = ck_length c
             then Inr (Finished, [Put (take r t), Tidy (Close fd)], c\<lparr>ck_offset := ck_offset c + int r, ck_fd := -1\<rparr>)
             else Inr (Partly, [Put (take r t)], c\<lparr>ck_fd := fd, ck_offset := ck_offset c + int r\<rparr>))"
  show ?thesis
  proof (cases "fd = -1 \<or> (\<exists>e. taken (na_write a t) = Inl e) \<or> taken (na_write a t) = Inr 0")
    case True
    then show ?thesis using taken_error assms(2) sf by (auto intro!: step_ok_failed)
  next
    case False
    then obtain r where r: "taken (na_write a t) = Inr r" "r \<noteq> 0" by (cases "taken (na_write a t)") auto
    have "r \<le> length t" by (rule honest_taken [OF assms(1) r(1)])
    then have le: "r \<le> length (ck_rest fs c)" "take r t = take r (ck_rest fs c)" by (auto simp: t)
    show ?thesis using False r sf advance [OF assms(2) le(1)] file_advance [OF assms(2,3) le(1)] le(2) by (simp add: step_ok_def)
  qed
qed

text \<open>
  The window of a mapped file chunk: it holds the next byte to send, lies inside the part to send, and is a
  full one unless it reaches the end. A chunk that is not mapped has not been begun.
\<close>

definition window :: "int \<Rightarrow> int \<Rightarrow> chunk \<Rightarrow> bool" where
  "window mo n c \<longleftrightarrow> 0 \<le> mo \<and> mo \<le> ck_start c + ck_offset c \<and> ck_start c + ck_offset c \<le> mo + n \<and>
     mo + n \<le> ck_start c + ck_length c \<and> (n = mmap_window \<or> mo + n = ck_start c + ck_length c)"

definition window_ok :: "chunk \<Rightarrow> bool" where
  "window_ok c \<longleftrightarrow> (ck_type c = FILE_CHUNK \<longrightarrow> ck_offset c \<noteq> ck_length c \<and>
     (case ck_mmap c of None \<Rightarrow> ck_offset c = 0 | Some n \<Rightarrow> window (ck_mmap_offset c) (int n) c))"

lemma skip_windows_bounds: "mo \<le> start \<Longrightarrow> mo \<le> skip_windows start mo \<and> skip_windows start mo \<le> start \<and> start \<le> skip_windows start mo + mmap_window"
proof (induction start mo rule: skip_windows.induct)
  case (1 start mo)
  show ?case
  proof (cases "mo + mmap_window < start")
    case True
    have w: "0 \<le> mmap_window" by (simp add: mmap_window_def)
    show ?thesis using 1(1) [OF True] True w by (subst (1 2 3) skip_windows.simps) simp
  next
    case False
    then show ?thesis using 1(2) by (subst (1 2 3) skip_windows.simps) simp
  qed
qed

text \<open>The new window fits.\<close>

lemma remap_window:
  assumes "sendable fs c" "ck_type c = FILE_CHUNK" "window_ok c" "case ck_mmap c of None \<Rightarrow> True | Some n \<Rightarrow> ck_start c + ck_offset c = ck_mmap_offset c + int n"
    and "writev_remap a nm c = (ok, eff, c')"
  shows "view c' = view c" "delivered eff = []" "ok \<Longrightarrow> \<exists>n. ck_mmap c' = Some n \<and> window (ck_mmap_offset c') (int n) c'"
proof -
  note f = sendable_file [OF assms(1,2)]
  define mo where "mo = (if ck_mmap c = None then skip_windows (ck_start c) 0 else ck_mmap_offset c + mmap_window)"
  define n where "n = (if ck_start c + ck_length c > mo + mmap_window then mmap_window else ck_start c + ck_length c - mo)"
  show "view c' = view c" "delivered eff = []"
    using assms(5) by (auto simp: writev_remap_def Let_def view_def split: if_splits option.splits)
  have mo: "0 \<le> mo \<and> mo \<le> ck_start c + ck_offset c \<and> ck_start c + ck_offset c \<le> mo + mmap_window"
  proof (cases "ck_mmap c")
    case None
    then show ?thesis using skip_windows_bounds [OF f(4)] assms(2,3) by (simp add: mo_def window_ok_def)
  next
    case (Some m)
    then have "ck_start c + ck_offset c = ck_mmap_offset c + mmap_window" "0 \<le> ck_mmap_offset c"
      using assms(2-4) f(6) by (auto simp: window_ok_def window_def)
    then show ?thesis using Some by (simp add: mo_def mmap_window_def)
  qed
  then have "window mo n c" "0 \<le> n" using f(6) by (auto simp: window_def n_def mmap_window_def)
  moreover assume ok
  then have "ck_mmap c' = Some (nat n) \<and> ck_mmap_offset c' = mo"
    using assms(5) by (auto simp: writev_remap_def Let_def mo_def n_def split: if_splits)
  ultimately show "\<exists>n. ck_mmap c' = Some n \<and> window (ck_mmap_offset c') (int n) c'"
    using \<open>view c' = view c\<close> by (simp add: window_def view_def)
qed

lemma writev_file_ok:
  assumes "honest fs a" "sendable fs c" "ck_type c = FILE_CHUNK" "window_ok c"
  shows "\<exists>out eff c'. writev_file a c = Inr (out, eff, c') \<and> step_ok fs c (out, eff, c') \<and> (out = Partly \<longrightarrow> window_ok c')"
proof -
  note f = sendable_file [OF assms(2,3)]
  let ?nm = "buf_text (ck_name c)" and ?abs = "ck_start c + ck_offset c"
  let ?re = "case ck_mmap c of None \<Rightarrow> True | Some n \<Rightarrow> ?abs = ck_mmap_offset c + int n"
  obtain ok eff c1 where c1: "(if ?re then writev_remap a ?nm c else (True, [], c)) = (ok, eff, c1)" by (metis prod_cases3)
  have "view c1 = view c \<and> delivered eff = [] \<and> (ok \<longrightarrow> (\<exists>n. ck_mmap c1 = Some n \<and> window (ck_mmap_offset c1) (int n) c1))"
  proof (cases ?re)
    case True
    then show ?thesis using remap_window [OF assms(2-4) True, of a ?nm ok eff c1] c1 by simp
  next
    case False
    then obtain n where "ck_mmap c = Some n" by (cases "ck_mmap c") auto
    then show ?thesis using False c1 assms(3,4) by (auto simp: window_ok_def)
  qed
  then have v: "view c1 = view c" "delivered eff = []" and win: "ok \<Longrightarrow> \<exists>n. ck_mmap c1 = Some n \<and> window (ck_mmap_offset c1) (int n) c1"
    by blast+
  have s1: "sendable fs c1" "ck_rest fs c1 = ck_rest fs c" "ck_type c1 = FILE_CHUNK" using view_eq [OF v(1), of fs] assms(2,3) v(1) by (auto simp: view_def)
  have wf: "writev_file a c = (if \<not> ok then Inr (Failed (-1), eff, c1)
      else let len = (case ck_mmap c1 of None \<Rightarrow> 0 | Some n \<Rightarrow> n)
           in bindR (mapped (fs ?nm) (ck_mmap_offset c1) (int len) ?abs (ck_mmap_offset c1 + int len - ?abs)) (\<lambda>t.
                case taken (na_write a t) of
                  Inl e \<Rightarrow> Inr (Failed e, eff, c1)
                | Inr r \<Rightarrow> let c = c1\<lparr>ck_offset := ck_offset c1 + int r\<rparr>
                     in if ck_offset c = ck_length c
                        then Inr (Finished, eff @ [Put (take r t), Tidy (Munmap len)], c\<lparr>ck_mmap := None\<rparr>)
                        else Inr (Partly, eff @ [Put (take r t)], c)))"
    using f(1,5-7) c1 honest_simps(1,2) [OF assms(1)] by (simp add: writev_file_def) (simp add: Let_def)
  show ?thesis
  proof (cases ok)
    case False
    then show ?thesis using wf s1 v(2) assms(3) by (auto intro!: step_ok_failed)
  next
    case True
    then obtain n where n: "ck_mmap c1 = Some n" "window (ck_mmap_offset c1) (int n) c1" using win by blast
    have vc: "ck_start c1 = ck_start c" "ck_offset c1 = ck_offset c" "ck_length c1 = ck_length c" using v(1) by (auto simp: view_def)
    define k where "k = ck_mmap_offset c1 + int n - ?abs"
    have k: "0 \<le> k" "k \<le> ck_length c - ck_offset c" using n(2) by (auto simp: window_def vc k_def)
    define t where "t = take (nat k) (ck_rest fs c)"
    have m: "mapped (fs ?nm) (ck_mmap_offset c1) (int n) ?abs k = Inr t"
      using n(2) f(3-7) k by (auto simp: mapped_def window_def vc k_def t_def min_absorb1)
    show ?thesis
    proof (cases "taken (na_write a t)")
      case (Inl e)
      then show ?thesis using wf True n(1) m taken_error s1 v(2) assms(3) by (auto simp: k_def [symmetric] intro!: step_ok_failed)
    next
      case (Inr r)
      have r: "r \<le> length (ck_rest fs c1)" "take r t = take r (ck_rest fs c1)" "int r \<le> k"
        using honest_taken [OF assms(1) Inr] k(1) s1(2) by (auto simp: t_def)
      note adv = advance [OF s1(1) r(1)] and fin = file_advance [OF s1(1,3) r(1)]
      have "view (c1\<lparr>ck_offset := ck_offset c1 + int r, ck_mmap := None\<rparr>) = view (c1\<lparr>ck_offset := ck_offset c1 + int r\<rparr>)" by (simp add: view_def)
      note v2 = view_eq [OF this, of fs]
      have "window_ok (c1\<lparr>ck_offset := ck_offset c1 + int r\<rparr>)" if "ck_offset c1 + int r \<noteq> ck_length c1"
        using n r(3) that by (auto simp: window_ok_def window_def k_def vc)
      then show ?thesis using wf True n(1) m Inr adv fin v2 r(2) s1 v(2) assms(3) by (simp add: k_def [symmetric] Let_def step_ok_def)
    qed
  qed
qed

section \<open>Many chunks\<close>

abbreviation rests :: "(bytes \<Rightarrow> bytes) \<Rightarrow> chunk list \<Rightarrow> bytes" where
  "rests fs cs \<equiv> concat (map (ck_rest fs) cs)"

text \<open>A file chunk with nothing left to send would count as an error.\<close>

definition unsent :: "chunk \<Rightarrow> bool" where
  "unsent c \<longleftrightarrow> (ck_type c = FILE_CHUNK \<longrightarrow> \<not> chunk_finished c)"

text \<open>
  What a call may do with a queue: the bytes taken are those at the front, and unless it fails finished
  chunks come before chunks that can go on.
\<close>

definition run_ok :: "(bytes \<Rightarrow> bytes) \<Rightarrow> (chunk \<Rightarrow> bool) \<Rightarrow> chunk list \<Rightarrow> int \<times> net_effect list \<times> chunk list \<Rightarrow> bool" where
  "run_ok fs ok cs = (\<lambda>(r, eff, cs'). (\<forall>c \<in> set cs'. sendable fs c) \<and> delivered eff @ rests fs cs' = rests fs cs \<and>
     (0 \<le> r \<longrightarrow> (\<exists>n. (\<forall>c \<in> set (take n cs'). chunk_finished c) \<and> (\<forall>c \<in> set (drop n cs'). ok c))))"

lemma run_ok_app:
  assumes "\<forall>d \<in> set ds. sendable fs d \<and> chunk_finished d" "delivered e = rests fs as" "run_ok fs ok bs (r, eff, cs')"
  shows "run_ok fs ok (as @ bs) (if r < 0 then r else r + int m, e @ eff, ds @ cs')"
proof -
  have ds: "rests fs ds = []" using assms(1) finished_iff by (auto simp: concat_eq_Nil_conv)
  have "\<exists>n. (\<forall>c \<in> set (take n (ds @ cs')). chunk_finished c) \<and> (\<forall>c \<in> set (drop n (ds @ cs')). ok c)" if r: "0 \<le> r"
  proof -
    obtain n where "\<forall>c \<in> set (take n cs'). chunk_finished c" "\<forall>c \<in> set (drop n cs'). ok c" using assms(3) r by (auto simp: run_ok_def)
    then show ?thesis using assms(1) by (intro exI [of _ "length ds + n"]) auto
  qed
  then show ?thesis using assms ds by (auto simp: run_ok_def simp del: concat_eq_Nil_conv)
qed

lemma run_ok_stop:
  assumes "sendable fs c'" "\<forall>c \<in> set cs. sendable fs c \<and> ok c" "delivered eff @ ck_rest fs c' = ck_rest fs c" "0 \<le> r \<Longrightarrow> ok c'"
  shows "run_ok fs ok (c # cs) (r, eff, c' # cs)"
proof -
  have "\<exists>n. (\<forall>x \<in> set (take n (c' # cs)). chunk_finished x) \<and> (\<forall>x \<in> set (drop n (c' # cs)). ok x)" if "0 \<le> r"
    using assms(2) assms(4) [OF that] by (intro exI [of _ "0 :: nat"]) auto
  then show ?thesis using assms(1-3) by (auto simp: run_ok_def)
qed

text \<open>One chunk of its own, then the rest.\<close>

lemma run_ok_step:
  assumes "sendable fs c" "\<forall>c \<in> set cs. sendable fs c \<and> ok c" "step_ok fs c (out, eff, c')" "out = Partly \<Longrightarrow> ok c'"
    and rest: "\<exists>x. next_run = Inr x \<and> run_ok fs ok cs x"
  shows "\<exists>x. (case out of Failed r \<Rightarrow> Inr (r, eff, c' # cs) | Partly \<Rightarrow> Inr (0, eff, c' # cs)
         | Finished \<Rightarrow> bindR next_run (\<lambda>(n, eff', cs). Inr (if n < 0 then n else n + 1, eff @ eff', c' # cs))) = (Inr x :: sent) \<and>
    run_ok fs ok (c # cs) x"
proof (cases out)
  case Finished
  obtain n eff' cs' where x: "next_run = Inr (n, eff', cs')" "run_ok fs ok cs (n, eff', cs')" using rest by auto
  have "sendable fs c'" "ck_rest fs c' = []" "delivered eff = ck_rest fs c" using assms(3) Finished by (auto simp: step_ok_def)
  then have "run_ok fs ok ([c] @ cs) (if n < 0 then n else n + int 1, eff @ eff', [c'] @ cs')"
    using x(2) finished_iff by (intro run_ok_app) auto
  then show ?thesis using Finished x(1) by (cases "n < 0") simp_all
next
  case Partly
  then show ?thesis using assms(2-4) by (auto simp: step_ok_def intro!: run_ok_stop)
next
  case (Failed r)
  then show ?thesis using assms(2,3) by (auto simp: step_ok_def intro!: run_ok_stop)
qed

lemma partly_unsent: "step_ok fs c (Partly, eff, c') \<Longrightarrow> unsent c'"
  using finished_iff by (auto simp: step_ok_def unsent_def)

lemma write_chunks_ok:
  assumes "\<forall>j. honest fs (env j)" "\<forall>c \<in> set cs. sendable fs c \<and> unsent c"
  shows "\<exists>x. write_chunks env k cs = Inr x \<and> run_ok fs unsent cs x"
  using assms(2)
proof (induction cs arbitrary: k)
  case Nil
  then show ?case by (simp add: run_ok_def)
next
  case (Cons c cs)
  obtain out eff c' where x: "write_chunk (env k) c = Inr (out, eff, c')" "step_ok fs c (out, eff, c')"
    using write_chunk_ok [of fs "env k" c] assms(1) Cons.prems by auto
  have "\<exists>y. write_chunks env (k + 1) cs = Inr y \<and> run_ok fs unsent cs y" using Cons by simp
  moreover have "out = Partly \<Longrightarrow> unsent c'" using x(2) partly_unsent by blast
  ultimately have "\<exists>y. (case out of Failed r \<Rightarrow> Inr (r, eff, c' # cs) | Partly \<Rightarrow> Inr (0, eff, c' # cs)
         | Finished \<Rightarrow> bindR (write_chunks env (k + 1) cs) (\<lambda>(n, eff', cs). Inr (if n < 0 then n else n + 1, eff @ eff', c' # cs))) = (Inr y :: sent) \<and>
      run_ok fs unsent (c # cs) y"
    using Cons.prems by (intro run_ok_step [OF _ _ x(2)]) simp_all
  then show ?case using x(1) by simp
qed

text \<open>Gathered chunks.\<close>

lemma iov_build_ok:
  assumes "\<forall>c \<in> set cs. sendable fs c \<and> ck_type c = MEM_CHUNK" "nb + length (rests fs cs) \<le> SSIZE_MAX"
  shows "iov_build nb cs = Inr (map (ck_rest fs) cs)"
  using assms
proof (induction cs arbitrary: nb)
  case (Cons c cs)
  show ?case
  proof (cases "bf_used (ck_mem c) = 0")
    case True
    then show ?thesis using Cons sendable_mem_empty [of c fs] by simp
  next
    case False
    then show ?thesis using Cons sendable_mem(1) [of fs c] by simp
  qed
qed simp

lemma iov_mark_ok:
  assumes "\<forall>c \<in> set cs. sendable fs c" "\<forall>c \<in> set (take m cs). ck_type c = MEM_CHUNK" "m \<le> length cs"
    and "r \<le> length (rests fs (take m cs))" "iov_mark r (map (ck_rest fs) (take m cs)) cs = (n, b, cs')"
  shows "(\<forall>c \<in> set cs'. sendable fs c \<and> (ck_type c = MEM_CHUNK \<or> c \<in> set cs)) \<and> drop m cs' = drop m cs \<and> length cs' = length cs \<and>
    take r (rests fs (take m cs)) @ rests fs cs' = rests fs cs \<and> (\<forall>c \<in> set (take n cs'). chunk_finished c) \<and> (b \<longrightarrow> n = m)"
  using assms
proof (induction m arbitrary: r cs n b cs')
  case (Suc m)
  from Suc.prems(3) obtain c ds where cs: "cs = c # ds" by (cases cs) auto
  have c: "sendable fs c" "ck_type c = MEM_CHUNK" using Suc.prems cs by simp_all
  show ?case
  proof (cases "length (ck_rest fs c) \<le> r")
    case True
    let ?c = "c\<lparr>ck_offset := ck_offset c + int (length (ck_rest fs c))\<rparr>" and ?r = "r - length (ck_rest fs c)"
    obtain n1 b1 ds' where m: "iov_mark ?r (map (ck_rest fs) (take m ds)) ds = (n1, b1, ds')" by (metis prod_cases3)
    have e: "n = Suc n1" "b = b1" "cs' = ?c # ds'" using Suc.prems(5) True unfolding cs take_Suc_Cons list.map iov_mark.simps m by simp_all
    note a = advance [OF c(1), of "length (ck_rest fs c)"]
    have "chunk_finished ?c" "ck_rest fs ?c = []" "sendable fs ?c" using finished_iff [OF a(2)] a by simp_all
    moreover have "(\<forall>c \<in> set ds'. sendable fs c \<and> (ck_type c = MEM_CHUNK \<or> c \<in> set ds)) \<and> drop m ds' = drop m ds \<and> length ds' = length ds \<and>
        take ?r (rests fs (take m ds)) @ rests fs ds' = rests fs ds \<and> (\<forall>c \<in> set (take n1 ds'). chunk_finished c) \<and> (b1 \<longrightarrow> n1 = m)"
      using Suc.prems(1-4) cs True by (intro Suc.IH [OF _ _ _ _ m]) auto
    ultimately show ?thesis using c(2) True by (auto simp: cs e)
  next
    case False
    let ?c = "c\<lparr>ck_offset := ck_offset c + int r\<rparr>"
    have e: "n = 0" "\<not> b" "cs' = ?c # ds" using Suc.prems(5) False by (auto simp: cs)
    note a = advance [OF c(1), of r]
    have "ck_rest fs ?c = drop r (ck_rest fs c)" "sendable fs ?c" using a False by simp_all
    then show ?thesis using Suc.prems(1) c(2) False by (auto simp: cs e)
  qed
qed simp

lemma gather_ok:
  assumes "\<forall>c \<in> set cs. sendable fs c" "length (rests fs cs) \<le> SSIZE_MAX"
  obtains m where "gather mx cs = Inr (map (ck_rest fs) (take m cs))" "m \<le> length cs" "\<forall>c \<in> set (take m cs). ck_type c = MEM_CHUNK"
proof -
  define ms where "ms = takeWhile (\<lambda>c. ck_type c = MEM_CHUNK) (take mx cs)"
  define m where "m = length ms"
  have "ms = take m (take mx cs)" unfolding m_def ms_def by (rule takeWhile_eq_take)
  moreover have "m \<le> mx" using length_takeWhile_le [of "\<lambda>c. ck_type c = MEM_CHUNK" "take mx cs"] by (simp add: m_def ms_def)
  ultimately have ms: "ms = take m cs" by simp
  have "m \<le> length cs" using length_takeWhile_le [of "\<lambda>c. ck_type c = MEM_CHUNK" "take mx cs"] by (simp add: m_def ms_def)
  moreover have mem: "\<forall>c \<in> set (take m cs). ck_type c = MEM_CHUNK" unfolding ms [symmetric] ms_def by (auto dest: set_takeWhileD)
  moreover have "rests fs cs = rests fs (take m cs) @ rests fs (drop m cs)" by (metis append_take_drop_id concat_append map_append)
  then have "length (rests fs (take m cs)) \<le> SSIZE_MAX" using assms(2) by simp
  then have "gather mx cs = Inr (map (ck_rest fs) (take m cs))"
    unfolding gather_def ms_def [symmetric] ms using assms(1) mem by (intro iov_build_ok) (auto dest: in_set_takeD)
  ultimately show ?thesis using that by blast
qed

text \<open>One call for a run of memory chunks, and the rest of the queue if it took all of them.\<close>

lemma run_ok_mark:
  assumes cs: "\<forall>c \<in> set cs. sendable fs c \<and> ok c" and mem: "\<And>c. ck_type c = MEM_CHUNK \<Longrightarrow> ok c"
    and m: "\<forall>c \<in> set (take m cs). ck_type c = MEM_CHUNK" "m \<le> length cs" and r: "r \<le> length (rests fs (take m cs))"
    and mk: "iov_mark r (map (ck_rest fs) (take m cs)) cs = (n, b, cs')"
    and rest: "b \<and> n > 0 \<Longrightarrow> drop n cs' = drop n cs \<Longrightarrow> n \<le> length cs \<Longrightarrow> \<exists>y. next_run = Inr y \<and> run_ok fs ok (drop n cs) y"
  shows "\<exists>x. (if b \<and> n > 0 then bindR next_run (\<lambda>(q, eff', rest).
        Inr (if q < 0 then q else q + int n, [Put (take r (rests fs (take m cs)))] @ eff', take n cs' @ rest))
      else Inr (int (n - 1), [Put (take r (rests fs (take m cs)))], cs')) = (Inr x :: sent) \<and> run_ok fs ok cs x"
proof -
  let ?t = "rests fs (take m cs)"
  have sd: "\<forall>c \<in> set cs. sendable fs c" using cs by blast
  note i = iov_mark_ok [OF sd m r mk]
  show ?thesis
  proof (cases "b \<and> n > 0")
    case True
    then have n: "n = m" and dr: "drop n cs' = drop n cs" using i by auto
    obtain q eff ds where y: "next_run = Inr (q, eff, ds)" "run_ok fs ok (drop n cs) (q, eff, ds)"
      using rest [OF True dr] n m(2) by auto
    have fin: "\<forall>d \<in> set (take n cs'). sendable fs d \<and> chunk_finished d" using i by (auto dest: in_set_takeD)
    then have "rests fs (take n cs') = []" using finished_iff by (auto simp: concat_eq_Nil_conv)
    then have "rests fs cs' = rests fs (drop n cs)" using dr by (metis append_Nil append_take_drop_id concat_append map_append)
    moreover have "rests fs cs = ?t @ rests fs (drop n cs)" unfolding n by (metis append_take_drop_id concat_append map_append)
    ultimately have "take r ?t = ?t" using i by auto
    then have "run_ok fs ok (take n cs @ drop n cs) (if q < 0 then q else q + int n, [Put (take r ?t)] @ eff, take n cs' @ ds)"
      using n by (intro run_ok_app [OF fin _ y(2)]) simp
    then show ?thesis using True y(1) by (cases "q < 0") simp_all
  next
    case False
    have "\<forall>c \<in> set cs'. ok c" using i mem cs by blast
    then have "run_ok fs ok cs (int (n - 1), [Put (take r ?t)], cs')"
      using i by (auto simp: run_ok_def intro!: exI [of _ n] dest: in_set_dropD)
    then show ?thesis using False by auto
  qed
qed

lemma gather_chunks_ok:
  assumes env: "\<forall>j. honest fs (env j)" and mem: "\<And>c. ck_type c = MEM_CHUNK \<Longrightarrow> ok c"
    and fl: "\<And>a c. honest fs a \<Longrightarrow> sendable fs c \<Longrightarrow> ck_type c = FILE_CHUNK \<Longrightarrow> ok c \<Longrightarrow>
      \<exists>out eff c'. fl a c = Inr (out, eff, c') \<and> step_ok fs c (out, eff, c') \<and> (out = Partly \<longrightarrow> ok c')"
  shows "\<forall>c \<in> set cs. sendable fs c \<and> ok c \<Longrightarrow> length (rests fs cs) \<le> SSIZE_MAX \<Longrightarrow>
    \<exists>x. gather_chunks mx fl env k cs = Inr x \<and> run_ok fs ok cs x"
proof (induction "length cs" arbitrary: cs k rule: less_induct)
  case less
  show ?case
  proof (cases cs)
    case Nil
    then show ?thesis by (simp add: run_ok_def)
  next
    case (Cons c ds)
    have c: "sendable fs c" "ok c" "\<forall>c \<in> set ds. sendable fs c \<and> ok c" "length (rests fs ds) \<le> SSIZE_MAX" using less.prems Cons by auto
    show ?thesis
    proof (cases "ck_type c")
      case UNUSED_CHUNK
      then show ?thesis using c(1) by (simp add: sendable_def)
    next
      case FILE_CHUNK
      obtain out eff c' where x: "fl (env k) c = Inr (out, eff, c')" "step_ok fs c (out, eff, c')" "out = Partly \<longrightarrow> ok c'"
        using fl [OF _ c(1) FILE_CHUNK c(2)] env by blast
      have "\<exists>y. gather_chunks mx fl env (k + 1) ds = Inr y \<and> run_ok fs ok ds y" using less.hyps [of ds] Cons c(3,4) by simp
      then have "\<exists>y. (case out of Failed r \<Rightarrow> Inr (r, eff, c' # ds) | Partly \<Rightarrow> Inr (0, eff, c' # ds)
           | Finished \<Rightarrow> bindR (gather_chunks mx fl env (k + 1) ds) (\<lambda>(n, eff', cs). Inr (if n < 0 then n else n + 1, eff @ eff', c' # cs))) = (Inr y :: sent) \<and>
          run_ok fs ok (c # ds) y" using x(3) by (intro run_ok_step [OF c(1,3) x(2)]) simp_all
      then show ?thesis using Cons FILE_CHUNK x(1) by simp
    next
      case MEM_CHUNK
      obtain m where g: "gather mx cs = Inr (map (ck_rest fs) (take m cs))" "m \<le> length cs" "\<forall>c \<in> set (take m cs). ck_type c = MEM_CHUNK"
        using gather_ok [of cs fs mx] less.prems by blast
      let ?t = "rests fs (take m cs)"
      show ?thesis
      proof (cases "taken (na_write (env k) ?t)")
        case (Inl e)
        have "e < 0" using Inl by (rule taken_error)
        then have "run_ok fs ok (c # ds) (e, [], c # ds)" using c by (intro run_ok_stop) auto
        then show ?thesis using Inl g(1) Cons MEM_CHUNK by simp
      next
        case (Inr r)
        have r: "r \<le> length ?t" using honest_taken [OF _ Inr] env by blast
        obtain n b cs' where mk: "iov_mark r (map (ck_rest fs) (take m cs)) cs = (n, b, cs')" by (metis prod_cases3)
        have "\<exists>y. gather_chunks mx fl env (k + 1) (drop n cs') = Inr y \<and> run_ok fs ok (drop n cs) y" if "b \<and> n > 0" "drop n cs' = drop n cs" "n \<le> length cs"
        proof -
          have "rests fs cs = rests fs (take n cs) @ rests fs (drop n cs)" by (metis append_take_drop_id concat_append map_append)
          moreover have "\<forall>c \<in> set (drop n cs). sendable fs c \<and> ok c" using less.prems(1) by (auto dest: in_set_dropD)
          ultimately show ?thesis using that(1,3) less.prems(2) unfolding that(2) by (intro less.hyps) auto
        qed
        from run_ok_mark [OF less.prems(1) mem g(3,2) r mk this] show ?thesis
          using Inr g(1) Cons MEM_CHUNK mk by (cases "b \<and> n > 0") (auto simp: Let_def)
      qed
    qed
  qed
qed

text \<open>The finished chunks at the front are removed, all of them.\<close>

lemma remove_front:
  assumes "cq_ok cq"
  shows "\<exists>eff k cq'. chunkqueue_remove_finished_chunks cq = Inr (eff, cq') \<and> cq_ok cq' \<and> cq_rest fs cq' = cq_rest fs cq \<and>
    cq_chunks cq' = drop k (cq_chunks cq) \<and> (cq_chunks cq' = [] \<or> \<not> chunk_finished (hd (cq_chunks cq'))) \<and> cq_bytes_out cq' = cq_bytes_out cq"
proof -
  obtain eff cq' where r: "chunkqueue_remove_finished_chunks cq = Inr (eff, cq')" "cq_ok cq'" "cq_rest fs cq' = cq_rest fs cq"
      "cq_chunks cq' = [] \<or> \<not> chunk_finished (hd (cq_chunks cq'))" using remove_finished_queue [OF assms, of fs] by blast
  have pre: "\<forall>c \<in> set (cq_chunks cq @ cq_unused cq). ck_wf c" "cq_unused_chunks cq = length (cq_unused cq)" "cq_unused_chunks cq \<le> 5"
    using assms by (simp_all add: cq_ok_def)
  obtain k where "cq_chunks cq' = drop k (cq_chunks cq)" "cq_bytes_out cq' = cq_bytes_out cq"
    using r(1) remove_finished_spec [OF pre] by (auto simp: chunkqueue_remove_finished_chunks_def bindR_eq_Inr)
  with r show ?thesis by blast
qed

lemma front_maximal:
  assumes "\<forall>c \<in> set (take n cs). chunk_finished c" "drop k cs = [] \<or> \<not> chunk_finished (hd (drop k cs))"
  shows "set (drop k cs) \<subseteq> set (drop n cs)"
proof (cases "n \<le> k")
  case False
  then have "drop k cs = []"
    using assms by (metis hd_drop_conv_nth in_set_conv_nth leI length_take min_less_iff_conj nth_take drop_eq_Nil not_le)
  then show ?thesis by simp
qed (rule set_drop_subset_set_drop)

definition queue_ready :: "(chunk \<Rightarrow> bool) \<Rightarrow> (bytes \<Rightarrow> bytes) \<Rightarrow> chunkqueue \<Rightarrow> bool" where
  "queue_ready ok fs cq \<longleftrightarrow> cq_ok cq \<and> (\<forall>c \<in> set (cq_chunks cq). sendable fs c \<and> ok c) \<and> length (cq_rest fs cq) \<le> SSIZE_MAX"

text \<open>Calls as long as something is left, one for each event that the socket is writable.\<close>

fun send_turns :: "backend_fun \<Rightarrow> (nat \<Rightarrow> nat \<Rightarrow> net_ans) \<Rightarrow> nat \<Rightarrow> nat \<Rightarrow> chunkqueue \<Rightarrow> (int \<times> bytes \<times> chunkqueue) res" where
  "send_turns send envs 0 i cq = Inr (1, [], cq)"
| "send_turns send envs (Suc n) i cq =
     bindR (send_queue (backend_write send) (envs i) cq) (\<lambda>(r, eff, cq).
       if r = 1 then bindR (send_turns send envs n (i + 1) cq) (\<lambda>(r, t, cq). Inr (r, delivered eff @ t, cq))
       else Inr (r, delivered eff, cq))"

section \<open>The interface of a backend\<close>

text \<open>
  A backend with the condition \<open>ok\<close> on the chunks it is given: every call sends from the front and leaves
  chunks that can go on.
\<close>

locale backend =
  fixes send :: backend_fun and ok :: "chunk \<Rightarrow> bool"
  assumes send_ok: "\<forall>j. honest fs (env j) \<Longrightarrow> \<forall>c \<in> set cs. sendable fs c \<and> ok c \<Longrightarrow> length (rests fs cs) \<le> SSIZE_MAX \<Longrightarrow>
    \<exists>x. send env k cs = Inr x \<and> run_ok fs ok cs x"
begin

text \<open>One call of \<open>network_write_chunkqueue\<close>.\<close>

lemma send_queue_ok:
  assumes "\<forall>j. honest fs (env j)" "queue_ready ok fs cq"
  shows "\<exists>r eff cq'. send_queue (backend_write send) env cq = Inr (r, eff, cq') \<and> delivered eff @ cq_rest fs cq' = cq_rest fs cq \<and>
    cq_bytes_out cq' = cq_bytes_out cq + int (length (delivered eff)) \<and>
    (0 \<le> r \<longrightarrow> queue_ready ok fs cq' \<and> (r = 0 \<longleftrightarrow> cq_chunks cq' = []) \<and> (cq_chunks cq' = [] \<or> \<not> chunk_finished (hd (cq_chunks cq'))))"
proof -
  have q: "cq_ok cq" "\<forall>c \<in> set (cq_chunks cq). sendable fs c \<and> ok c" "length (rests fs (cq_chunks cq)) \<le> SSIZE_MAX"
    using assms(2) by (auto simp: queue_ready_def cq_rest_def)
  obtain r eff cs where s: "send env 0 (cq_chunks cq) = Inr (r, eff, cs)" "run_ok fs ok (cq_chunks cq) (r, eff, cs)"
    using send_ok [OF assms(1) q(2,3), of 0] by auto
  let ?q = "cq\<lparr>cq_chunks := cs, cq_bytes_out := cq_bytes_out cq + int (length (delivered eff))\<rparr>"
  have b: "backend_write send env cq = Inr (r, eff, ?q)" using s(1) by (simp add: backend_write_def)
  have d: "delivered eff @ cq_rest fs ?q = cq_rest fs cq" "\<forall>c \<in> set cs. sendable fs c" using s(2) by (simp_all add: run_ok_def cq_rest_def)
  show ?thesis
  proof (cases "0 \<le> r")
    case False
    then show ?thesis using b d by (simp add: send_queue_def)
  next
    case True
    then obtain n where n: "\<forall>c \<in> set (take n cs). chunk_finished c" "\<forall>c \<in> set (drop n cs). ok c" using s(2) by (auto simp: run_ok_def)
    have "ck_wf c \<and> ck_type c \<noteq> UNUSED_CHUNK \<and> 0 \<le> ck_offset c" if "c \<in> set cs" for c using d(2) that by (auto simp: sendable_def)
    then have "cq_ok ?q" using q(1) by (auto simp: cq_ok_def)
    from remove_front [OF this, where fs = fs] obtain ceff k cq' where c: "chunkqueue_remove_finished_chunks ?q = Inr (ceff, cq')" "cq_ok cq'" "cq_rest fs cq' = cq_rest fs ?q"
        "cq_chunks cq' = drop k cs" "cq_chunks cq' = [] \<or> \<not> chunk_finished (hd (cq_chunks cq'))" "cq_bytes_out cq' = cq_bytes_out ?q"
      by auto
    have "set (drop k cs) \<subseteq> set (drop n cs)" using front_maximal [OF n(1) c(5) [unfolded c(4)]] .
    then have "\<forall>c \<in> set (cq_chunks cq'). sendable fs c \<and> ok c" using n(2) d(2) unfolding c(4) by (auto dest: in_set_dropD)
    moreover have "length (cq_rest fs cq') \<le> SSIZE_MAX" using q(3) unfolding c(3) cq_rest_def [of fs cq, symmetric] d(1) [symmetric] by simp
    ultimately have "queue_ready ok fs cq'" using c(2) by (simp add: queue_ready_def)
    then show ?thesis using b True c d(1) by (auto simp: send_queue_def chunkqueue_is_empty_def)
  qed
qed

lemma send_turns_ok:
  assumes "\<forall>i j. honest fs (envs i j)"
  shows "queue_ready ok fs cq \<Longrightarrow> \<exists>r t cq'. send_turns send envs n i cq = Inr (r, t, cq') \<and> t @ cq_rest fs cq' = cq_rest fs cq \<and>
    (r = 0 \<longrightarrow> cq_chunks cq' = [])"
proof (induction n arbitrary: i cq)
  case (Suc n)
  obtain r eff q where c: "send_queue (backend_write send) (envs i) cq = Inr (r, eff, q)" "delivered eff @ cq_rest fs q = cq_rest fs cq"
      "0 \<le> r \<longrightarrow> queue_ready ok fs q \<and> (r = 0 \<longleftrightarrow> cq_chunks q = [])"
    using send_queue_ok [OF _ Suc.prems, of "envs i"] assms by blast
  show ?case
  proof (cases "r = 1")
    case True
    then obtain r' t q' where "send_turns send envs n (i + 1) q = Inr (r', t, q')" "t @ cq_rest fs q' = cq_rest fs q" "r' = 0 \<longrightarrow> cq_chunks q' = []"
      using Suc.IH [of q "i + 1"] c(3) by auto
    moreover from this(2) c(2) have "(delivered eff @ t) @ cq_rest fs q' = cq_rest fs cq" by simp
    ultimately show ?thesis using c(1) True by auto
  next
    case False
    then show ?thesis using c by auto
  qed
qed simp

end

text \<open>A socket that takes something whenever it is offered something.\<close>

definition eager :: "net_ans \<Rightarrow> bool" where
  "eager a \<longleftrightarrow> (\<forall>nm. na_open a nm \<noteq> -1) \<and> na_mmap a \<and> (\<forall>t. \<exists>n. na_write a t = Inr n \<and> (t \<noteq> [] \<longrightarrow> 0 < n))"

text \<open>A backend that sends something when it can.\<close>

locale live_backend = backend +
  assumes moves: "\<forall>j. honest fs (env j) \<and> eager (env j) \<Longrightarrow> \<forall>c \<in> set cs. sendable fs c \<and> ok c \<Longrightarrow> length (rests fs cs) \<le> SSIZE_MAX \<Longrightarrow>
    send env k cs = Inr (r, eff, cs') \<Longrightarrow> 0 \<le> r \<and> (rests fs cs \<noteq> [] \<longrightarrow> delivered eff \<noteq> [])"
begin

lemma send_queue_moves:
  assumes "\<forall>j. honest fs (env j) \<and> eager (env j)" "queue_ready ok fs cq" "send_queue (backend_write send) env cq = Inr (r, eff, cq')"
  shows "r = 0 \<or> r = 1" "cq_rest fs cq \<noteq> [] \<Longrightarrow> delivered eff \<noteq> []"
proof -
  have q: "\<forall>c \<in> set (cq_chunks cq). sendable fs c \<and> ok c" "length (rests fs (cq_chunks cq)) \<le> SSIZE_MAX"
    using assms(2) by (auto simp: queue_ready_def cq_rest_def)
  obtain r1 eff1 cs1 where s: "send env 0 (cq_chunks cq) = Inr (r1, eff1, cs1)" using send_ok [OF _ q, of env 0] assms(1) by auto
  from moves [OF assms(1) q s] have m: "0 \<le> r1" "cq_rest fs cq \<noteq> [] \<longrightarrow> delivered eff1 \<noteq> []" by (auto simp: cq_rest_def)
  then obtain ceff where "eff = eff1 @ map Tidy ceff" "r = 0 \<or> r = 1"
    using assms(3) s by (auto simp: send_queue_def backend_write_def bindR_eq_Inr split: if_splits)
  then show "r = 0 \<or> r = 1" "cq_rest fs cq \<noteq> [] \<Longrightarrow> delivered eff \<noteq> []" using m by auto
qed

text \<open>One call for each byte and one more are enough.\<close>

lemma send_turns_end:
  assumes "\<forall>i j. honest fs (envs i j) \<and> eager (envs i j)"
  shows "queue_ready ok fs cq \<Longrightarrow> length (cq_rest fs cq) < n \<Longrightarrow> \<exists>cq'. send_turns send envs n i cq = Inr (0, cq_rest fs cq, cq') \<and> cq_chunks cq' = []"
proof (induction n arbitrary: i cq)
  case (Suc n)
  obtain r eff q where c: "send_queue (backend_write send) (envs i) cq = Inr (r, eff, q)" "delivered eff @ cq_rest fs q = cq_rest fs cq"
      "0 \<le> r \<longrightarrow> queue_ready ok fs q \<and> (r = 0 \<longleftrightarrow> cq_chunks q = []) \<and> (cq_chunks q = [] \<or> \<not> chunk_finished (hd (cq_chunks q)))"
    using send_queue_ok [OF _ Suc.prems(1), of "envs i"] assms by blast
  have r: "r = 0 \<or> r = 1" "cq_rest fs cq \<noteq> [] \<Longrightarrow> delivered eff \<noteq> []" using send_queue_moves [OF _ Suc.prems(1) c(1)] assms by blast+
  show ?case
  proof (cases "r = 0")
    case True
    then have "cq_rest fs q = []" using c(3) by (simp add: cq_rest_def)
    then show ?thesis using c True by auto
  next
    case False
    then have r1: "r = 1" using r(1) by simp
    then obtain d ds where q: "cq_chunks q = d # ds" "\<not> chunk_finished d" "sendable fs d" using c(3) by (cases "cq_chunks q") (auto simp: queue_ready_def)
    then have "cq_rest fs q \<noteq> []" using finished_iff by (auto simp: cq_rest_def)
    then have "cq_rest fs cq \<noteq> []" using c(2) by auto
    from arg_cong [OF c(2), of length] r(2) [OF this] have "length (cq_rest fs q) < length (cq_rest fs cq)" by (cases "delivered eff") auto
    then obtain q' where "send_turns send envs n (i + 1) q = Inr (0, cq_rest fs q, q')" "cq_chunks q' = []"
      using Suc.IH [of q "i + 1"] Suc.prems(2) c(3) r1 by auto
    then show ?thesis using c(1,2) r1 by simp
  qed
qed simp

end

section \<open>The three backends\<close>

lemma eager_write: "honest fs a \<Longrightarrow> eager a \<Longrightarrow> \<exists>n. na_write a t = Inr n \<and> n \<le> length t \<and> (t \<noteq> [] \<longrightarrow> 0 < n)"
  by (auto simp: eager_def dest: honest_simps(3)) (metis honest_simps(3))

text \<open>No failure, and something goes out if something is there.\<close>

definition step_moves :: "(bytes \<Rightarrow> bytes) \<Rightarrow> chunk \<Rightarrow> outcome \<times> net_effect list \<times> chunk \<Rightarrow> bool" where
  "step_moves fs c = (\<lambda>(out, eff, c'). (\<forall>r. out \<noteq> Failed r) \<and> (ck_rest fs c \<noteq> [] \<longrightarrow> delivered eff \<noteq> []))"

lemma write_mem_moves:
  assumes "honest fs a" "eager a" "sendable fs c" "ck_type c = MEM_CHUNK" "write_mem a c = Inr x"
  shows "step_moves fs c x"
proof -
  obtain n where n: "na_write a (ck_rest fs c) = Inr n" "ck_rest fs c \<noteq> [] \<longrightarrow> 0 < n" using eager_write [OF assms(1,2)] by blast
  show ?thesis using assms(5) n sendable_mem(1) [OF assms(3,4)] sendable_mem_empty [OF assms(4,3)]
    by (auto simp: write_mem_def step_moves_def Let_def split: if_splits)
qed

lemma unsent_rest: "sendable fs c \<Longrightarrow> unsent c \<Longrightarrow> ck_type c = FILE_CHUNK \<Longrightarrow> ck_rest fs c \<noteq> []"
  using finished_iff by (auto simp: unsent_def)

lemma write_file_moves:
  assumes "honest fs a" "eager a" "sendable fs c" "ck_type c = FILE_CHUNK" "unsent c" "write_file a c = Inr x"
  shows "step_moves fs c x"
proof -
  note f = sendable_file [OF assms(3,4)]
  let ?nm = "buf_text (ck_name c)"
  have m: "mapped (fs ?nm) 0 (int (length (fs ?nm))) (ck_start c + ck_offset c) (ck_length c - ck_offset c) = Inr (ck_rest fs c)"
    using f(3-7) by (simp add: mapped_def)
  have ne: "ck_rest fs c \<noteq> []" by (rule unsent_rest [OF assms(3,5,4)])
  then obtain n where n: "na_write a (ck_rest fs c) = Inr n" "0 < n" using eager_write [OF assms(1,2)] by blast
  have "na_open a ?nm \<noteq> -1" "na_mmap a" using assms(2) by (auto simp: eager_def)
  then show ?thesis using assms(6) n ne f(1,4-7) m honest_simps(1,2) [OF assms(1)]
    by (auto simp: write_file_def step_moves_def Let_def split: if_splits)
qed

lemma sendfile_file_moves:
  assumes "honest fs a" "eager a" "sendable fs c" "ck_type c = FILE_CHUNK" "unsent c" "sendfile_file a c = Inr x"
  shows "step_moves fs c x"
  using assms(1,3,4)
proof (rule sendfile_file_eq)
  fix t k fd
  assume t: "t = take k (ck_rest fs c)" "ck_rest fs c \<noteq> [] \<Longrightarrow> 0 < k" and fd: "fd = (if ck_fd c = -1 then na_open a (buf_text (ck_name c)) else ck_fd c)"
    and sf: "sendfile_file a c = (if fd = -1 then Inr (Failed (-1), [], c)
      else case taken (na_write a t) of Inl e \<Rightarrow> Inr (Failed e, [], c\<lparr>ck_fd := fd\<rparr>)
         | Inr r \<Rightarrow> if r = 0 then Inr (Failed (-2), [], c\<lparr>ck_fd := fd\<rparr>)
             else if ck_offset c + int r = ck_length c
             then Inr (Finished, [Put (take r t), Tidy (Close fd)], c\<lparr>ck_offset := ck_offset c + int r, ck_fd := -1\<rparr>)
             else Inr (Partly, [Put (take r t)], c\<lparr>ck_fd := fd, ck_offset := ck_offset c + int r\<rparr>))"
  have "t \<noteq> []" using t unsent_rest [OF assms(3,5,4)] by auto
  then obtain n where n: "na_write a t = Inr n" "0 < n" using eager_write [OF assms(1,2)] by blast
  moreover have "fd \<noteq> -1" using fd assms(2) by (auto simp: eager_def)
  ultimately show ?thesis using assms(6) sf \<open>t \<noteq> []\<close> by (auto simp: taken_def step_moves_def split: if_splits)
qed

text \<open>A loop over chunks moves if its steps do.\<close>

definition run_moves :: "(bytes \<Rightarrow> bytes) \<Rightarrow> chunk list \<Rightarrow> int \<times> net_effect list \<times> chunk list \<Rightarrow> bool" where
  "run_moves fs cs = (\<lambda>(r, eff, cs'). 0 \<le> r \<and> (rests fs cs \<noteq> [] \<longrightarrow> delivered eff \<noteq> []))"

lemma run_moves_step:
  assumes "step_moves fs c (out, eff, c')" "step_ok fs c (out, eff, c')" "\<And>y. next_run = Inr y \<Longrightarrow> run_moves fs cs y"
    and "(case out of Failed r \<Rightarrow> Inr (r, eff, c' # cs) | Partly \<Rightarrow> Inr (0, eff, c' # cs)
         | Finished \<Rightarrow> bindR next_run (\<lambda>(n, eff', cs). Inr (if n < 0 then n else n + 1, eff @ eff', c' # cs))) = (Inr x :: sent)"
  shows "run_moves fs (c # cs) x"
proof (cases out)
  case Finished
  then obtain n eff' cs' where y: "next_run = Inr (n, eff', cs')" "x = (if n < 0 then n else n + 1, eff @ eff', c' # cs')"
    using assms(4) by (auto simp: bindR_eq_Inr)
  then show ?thesis using assms(1) assms(3) [OF y(1)] by (auto simp: run_moves_def step_moves_def)
next
  case Partly
  then have "ck_rest fs c \<noteq> []" using assms(2) by (auto simp: step_ok_def)
  then show ?thesis using assms(1,4) Partly by (auto simp: run_moves_def step_moves_def)
qed (use assms(1) in \<open>simp add: step_moves_def\<close>)

lemma write_chunks_moves:
  assumes "\<forall>j. honest fs (env j) \<and> eager (env j)" "\<forall>c \<in> set cs. sendable fs c \<and> unsent c" "write_chunks env k cs = Inr x"
  shows "run_moves fs cs x"
  using assms(2,3)
proof (induction cs arbitrary: k x)
  case Nil
  then show ?case by (auto simp: run_moves_def)
next
  case (Cons c cs)
  have e: "honest fs (env k)" "eager (env k)" using assms(1) by auto
  have c: "sendable fs c" "unsent c" using Cons.prems(1) by auto
  obtain out eff c' where y: "write_chunk (env k) c = Inr (out, eff, c')" "step_ok fs c (out, eff, c')" using write_chunk_ok [OF e(1) c(1)] by auto
  have "step_moves fs c (out, eff, c')"
    using write_mem_moves [OF e c(1)] write_file_moves [OF e c(1) _ c(2)] y(1) c(1)
    by (cases "ck_type c") (auto simp: write_chunk_def sendable_def)
  moreover have "\<And>y. write_chunks env (k + 1) cs = Inr y \<Longrightarrow> run_moves fs cs y" using Cons by simp
  ultimately show ?case using Cons.prems(2) y by (intro run_moves_step) auto
qed

lemma gather_positive:
  assumes "gather mx (c # cs) = Inr (map f (take m (c # cs)))" "ck_type c = MEM_CHUNK" "0 < mx"
  shows "0 < m"
proof (rule ccontr)
  assume "\<not> 0 < m"
  then have "iov_build 0 (c # takeWhile (\<lambda>c. ck_type c = MEM_CHUNK) (take (mx - 1) cs)) = Inr []"
    using assms by (cases mx) (auto simp: gather_def)
  then show False by (auto simp: bindR_eq_Inr split: if_splits)
qed

text \<open>A call stops inside the run only if the run has bytes.\<close>

lemma stuck_has_bytes:
  "\<not> (b \<and> n > 0) \<Longrightarrow> m \<le> length cs \<Longrightarrow> iov_mark r (map (ck_rest fs) (take m cs)) cs = (n, b, cs') \<Longrightarrow> 0 < m \<Longrightarrow> rests fs (take m cs) \<noteq> []"
proof (induction m arbitrary: r cs n b cs')
  case (Suc m)
  then obtain c ds where cs: "cs = c # ds" by (cases cs) auto
  show ?case
  proof (cases "ck_rest fs c = []")
    case True
    obtain n1 b1 ds' where m: "iov_mark r (map (ck_rest fs) (take m ds)) ds = (n1, b1, ds')" by (metis prod_cases3)
    have e: "n = Suc n1" "b = b1" using Suc.prems(3) True m unfolding cs by auto
    have "0 < m" using Suc.prems(1) e m by (cases m) auto
    moreover have "\<not> (b1 \<and> n1 > 0)" using Suc.prems(1) e by auto
    ultimately have "rests fs (take m ds) \<noteq> []" using Suc.IH [OF _ _ m] Suc.prems(2) cs by auto
    then show ?thesis by (simp add: cs)
  qed (simp add: cs)
qed simp

lemma gather_chunks_moves:
  assumes env: "\<forall>j. honest fs (env j) \<and> eager (env j)" and mx: "0 < mx" and mem: "\<And>c. ck_type c = MEM_CHUNK \<Longrightarrow> ok c"
    and fl: "\<And>a c x. honest fs a \<Longrightarrow> eager a \<Longrightarrow> sendable fs c \<Longrightarrow> ck_type c = FILE_CHUNK \<Longrightarrow> ok c \<Longrightarrow> fl a c = Inr x \<Longrightarrow> step_ok fs c x \<and> step_moves fs c x"
  shows "\<forall>c \<in> set cs. sendable fs c \<and> ok c \<Longrightarrow> length (rests fs cs) \<le> SSIZE_MAX \<Longrightarrow> gather_chunks mx fl env k cs = Inr x \<Longrightarrow> run_moves fs cs x"
proof (induction "length cs" arbitrary: cs k x rule: less_induct)
  case less
  have e: "honest fs (env k)" "eager (env k)" using env by auto
  show ?case
  proof (cases cs)
    case Nil
    then show ?thesis using less.prems(3) by (auto simp: run_moves_def)
  next
    case (Cons c ds)
    have c: "sendable fs c" "ok c" "\<forall>c \<in> set ds. sendable fs c \<and> ok c" "length (rests fs ds) \<le> SSIZE_MAX" using less.prems Cons by auto
    show ?thesis
    proof (cases "ck_type c")
      case UNUSED_CHUNK
      then show ?thesis using c(1) by (simp add: sendable_def)
    next
      case FILE_CHUNK
      then obtain out eff c' where y: "fl (env k) c = Inr (out, eff, c')" using less.prems(3) Cons by (auto simp: bindR_eq_Inr)
      have m: "step_ok fs c (out, eff, c')" "step_moves fs c (out, eff, c')" using fl [OF e c(1) FILE_CHUNK c(2) y] by simp_all
      have "\<And>y. gather_chunks mx fl env (k + 1) ds = Inr y \<Longrightarrow> run_moves fs ds y" using less.hyps [of ds] Cons c(3,4) by simp
      then show ?thesis using less.prems(3) FILE_CHUNK y unfolding Cons by (intro run_moves_step [OF m(2,1)]) auto
    next
      case MEM_CHUNK
      obtain m where g: "gather mx cs = Inr (map (ck_rest fs) (take m cs))" "m \<le> length cs" "\<forall>c \<in> set (take m cs). ck_type c = MEM_CHUNK"
        using gather_ok [of cs fs mx] less.prems(1,2) by blast
      have "0 < m" using gather_positive [OF g(1) [unfolded Cons] MEM_CHUNK mx] .
      let ?t = "rests fs (take m cs)"
      obtain r where r: "na_write (env k) ?t = Inr r" "r \<le> length ?t" "?t \<noteq> [] \<longrightarrow> 0 < r" using eager_write [OF e] by blast
      obtain n b cs' where mk: "iov_mark r (map (ck_rest fs) (take m cs)) cs = (n, b, cs')" by (metis prod_cases3)
      have sd: "\<forall>c \<in> set cs. sendable fs c" using less.prems(1) by blast
      note i = iov_mark_ok [OF sd g(3,2) r(2) mk]
      have run: "gather_chunks mx fl env k cs = (if b \<and> n > 0 then bindR (gather_chunks mx fl env (k + 1) (drop n cs)) (\<lambda>(q, eff', rest).
            Inr (if q < 0 then q else q + int n, [Put (take r ?t)] @ eff', take n cs' @ rest)) else Inr (int (n - 1), [Put (take r ?t)], cs'))"
        using g(1) r(1) mk i Cons MEM_CHUNK by (auto simp: taken_def Let_def)
      have split: "rests fs cs = ?t @ rests fs (drop m cs)" by (metis append_take_drop_id concat_append map_append)
      show ?thesis
      proof (cases "b \<and> n > 0")
        case True
        then have n: "n = m" using i by simp
        obtain q eff rest where y: "gather_chunks mx fl env (k + 1) (drop m cs) = Inr (q, eff, rest)"
            "x = (if q < 0 then q else q + int n, [Put (take r ?t)] @ eff, take n cs' @ rest)"
          using less.prems(3) run True n by (auto simp: bindR_eq_Inr)
        have d: "length (drop m cs) < length cs" "length (rests fs (drop m cs)) \<le> SSIZE_MAX" "\<forall>c \<in> set (drop m cs). sendable fs c \<and> ok c"
          using \<open>0 < m\<close> Cons split less.prems(1,2) by (auto dest: in_set_dropD simp del: set_simps)
        have "run_moves fs (drop m cs) (q, eff, rest)" by (rule less.hyps [OF d(1,3,2) y(1)])
        then show ?thesis using y(2) r(3) split by (auto simp: run_moves_def simp del: concat_eq_Nil_conv)
      next
        case False
        then have x: "x = (int (n - 1), [Put (take r ?t)], cs')" using less.prems(3) run by auto
        have "?t \<noteq> []" using False mk \<open>0 < m\<close> stuck_has_bytes [OF _ g(2)] by blast
        then show ?thesis using x r(3) by (auto simp: run_moves_def simp del: concat_eq_Nil_conv)
      qed
    qed
  qed
qed

text \<open>The laws hold for the three functions.\<close>

lemma write_backend: "live_backend write_chunks unsent"
proof
  show "\<exists>x. write_chunks env k cs = Inr x \<and> run_ok fs unsent cs x"
    if "\<forall>j. honest fs (env j)" "\<forall>c \<in> set cs. sendable fs c \<and> unsent c" "length (rests fs cs) \<le> SSIZE_MAX" for fs env cs k
    using write_chunks_ok [OF that(1,2)] .
  show "0 \<le> r \<and> (rests fs cs \<noteq> [] \<longrightarrow> delivered eff \<noteq> [])"
    if "\<forall>j. honest fs (env j) \<and> eager (env j)" "\<forall>c \<in> set cs. sendable fs c \<and> unsent c" "length (rests fs cs) \<le> SSIZE_MAX"
      "write_chunks env k cs = Inr (r, eff, cs')" for fs env cs k r eff cs'
    using write_chunks_moves [OF that(1,2,4)] unfolding run_moves_def by simp
qed

lemma sendfile_unsent:
  assumes "honest fs a" "sendable fs c" "ck_type c = FILE_CHUNK" "unsent c"
  shows "\<exists>out eff c'. sendfile_file a c = Inr (out, eff, c') \<and> step_ok fs c (out, eff, c') \<and> (out = Partly \<longrightarrow> unsent c')"
  using sendfile_file_ok [OF assms(1-3)] partly_unsent by (metis prod_cases3)

lemma sendfile_backend: "live_backend sendfile_chunks unsent"
proof
  have mem: "unsent c" if "ck_type c = MEM_CHUNK" for c using that by (simp add: unsent_def)
  show "\<exists>x. sendfile_chunks env k cs = Inr x \<and> run_ok fs unsent cs x"
    if "\<forall>j. honest fs (env j)" "\<forall>c \<in> set cs. sendable fs c \<and> unsent c" "length (rests fs cs) \<le> SSIZE_MAX" for fs env cs k
    unfolding sendfile_chunks_def by (rule gather_chunks_ok [OF that(1) mem sendfile_unsent that(2,3)])
  have mx: "0 < UIO_MAXIOV" by (simp add: UIO_MAXIOV_def)
  have fl: "step_ok fs c x \<and> step_moves fs c x"
    if "honest fs a" "eager a" "sendable fs c" "ck_type c = FILE_CHUNK" "unsent c" "sendfile_file a c = Inr x" for fs a c x
    using sendfile_file_ok [OF that(1,3,4)] sendfile_file_moves [OF that] that(6) by auto
  show "0 \<le> r \<and> (rests fs cs \<noteq> [] \<longrightarrow> delivered eff \<noteq> [])"
    if "\<forall>j. honest fs (env j) \<and> eager (env j)" "\<forall>c \<in> set cs. sendable fs c \<and> unsent c" "length (rests fs cs) \<le> SSIZE_MAX"
      "sendfile_chunks env k cs = Inr (r, eff, cs')" for fs env cs k r eff cs'
  proof -
    have "run_moves fs cs (r, eff, cs')"
    proof (rule gather_chunks_moves [OF that(1) mx _ _ that(2,3)])
      show "gather_chunks UIO_MAXIOV sendfile_file env k cs = Inr (r, eff, cs')" using that(4) by (simp only: sendfile_chunks_def)
    qed (rule mem fl; assumption)+
    then show ?thesis by (simp add: run_moves_def)
  qed
qed

lemma writev_backend: "backend (writev_chunks mx) window_ok"
proof
  have mem: "window_ok c" if "ck_type c = MEM_CHUNK" for c using that by (simp add: window_ok_def)
  show "\<exists>x. writev_chunks mx env k cs = Inr x \<and> run_ok fs window_ok cs x"
    if "\<forall>j. honest fs (env j)" "\<forall>c \<in> set cs. sendable fs c \<and> window_ok c" "length (rests fs cs) \<le> SSIZE_MAX" for fs env cs k
    unfolding writev_chunks_def by (rule gather_chunks_ok [OF that(1) mem writev_file_ok that(2,3)])
qed

interpretation wr: live_backend write_chunks unsent
  by (rule write_backend)

interpretation sf: live_backend sendfile_chunks unsent
  by (rule sendfile_backend)

interpretation wv: backend "writev_chunks mx" window_ok for mx
  by (rule writev_backend)

section \<open>Properties\<close>

text \<open>What a queue must satisfy for a backend.\<close>

definition backend_cond :: "network_backend_t \<Rightarrow> chunk \<Rightarrow> bool" where
  "backend_cond b = (if b = NETWORK_BACKEND_WRITEV then window_ok else unsent)"

text \<open>
  C36. Whatever backend is configured and however little the socket takes at a time, what it has taken after
  any number of calls is the front of the queue, byte for byte, and what remains in the queue is the rest;
  a result of 0 means that everything was sent.
\<close>

theorem queue_is_sent_in_order:
  assumes "select_backend conf = Some b" "\<forall>i j. honest fs (envs i j)" "queue_ready (backend_cond b) fs cq"
  shows "\<exists>r t cq'. send_turns (backend_of mx b) envs n i cq = Inr (r, t, cq') \<and> t @ cq_rest fs cq' = cq_rest fs cq \<and>
    (r = 0 \<longrightarrow> t = cq_rest fs cq)"
proof -
  have "\<exists>r t cq'. send_turns (backend_of mx b) envs n i cq = Inr (r, t, cq') \<and> t @ cq_rest fs cq' = cq_rest fs cq \<and> (r = 0 \<longrightarrow> cq_chunks cq' = [])"
  proof (cases b)
    case NETWORK_BACKEND_WRITE
    then show ?thesis using assms(3) wr.send_turns_ok [OF assms(2), of cq n i] by (simp add: backend_cond_def)
  next
    case NETWORK_BACKEND_WRITEV
    then show ?thesis using assms(3) wv.send_turns_ok [OF assms(2), of cq mx n i] by (simp add: backend_cond_def)
  next
    case NETWORK_BACKEND_LINUX_SENDFILE
    then show ?thesis using assms(3) sf.send_turns_ok [OF assms(2), of cq n i] by (simp add: backend_cond_def)
  qed
  then obtain r t cq' where "send_turns (backend_of mx b) envs n i cq = Inr (r, t, cq')" "t @ cq_rest fs cq' = cq_rest fs cq"
    "r = 0 \<longrightarrow> cq_rest fs cq' = []" by (auto simp: cq_rest_def)
  then show ?thesis by auto
qed

text \<open>A queue with a memory chunk and two bytes of a file, and a socket that takes one byte at a time.\<close>

definition file_of :: "bytes \<Rightarrow> int \<Rightarrow> int \<Rightarrow> chunk" where
  "file_of nm start len = chunk_init\<lparr>ck_type := FILE_CHUNK, ck_start := start, ck_length := len,
     ck_name := \<lparr>bf_ptr = map Some (nm @ [0]), bf_used = length nm + 1, bf_size = length nm + 1\<rparr>\<rparr>"

definition cq_mixed :: chunkqueue where
  "cq_mixed = chunkqueue_init\<lparr>cq_chunks := [mem_of [72, 73], file_of [102] 1 2]\<rparr>"

definition fs_small :: "bytes \<Rightarrow> bytes" where
  "fs_small = (\<lambda>_. [48, 49, 50, 51])"

definition ans_slow :: net_ans where
  "ans_slow = \<lparr>na_write = (\<lambda>t. Inr (min 1 (length t))), na_stat = (\<lambda>_. Some 4), na_open = (\<lambda>_. 7), na_file = fs_small, na_mmap = True\<rparr>"

lemma file_of_facts: "ck_wf (file_of nm s l)" "ck_type (file_of nm s l) = FILE_CHUNK" "ck_offset (file_of nm s l) = 0" "ck_start (file_of nm s l) = s"
  "ck_length (file_of nm s l) = l" "buf_text (ck_name (file_of nm s l)) = nm" "bf_used (ck_name (file_of nm s l)) \<noteq> 0" "ck_mmap (file_of nm s l) = None"
proof -
  have h: "holds (ck_name (file_of nm s l)) nm" by (simp add: file_of_def holds_def buf_ok_def)
  then show "buf_text (ck_name (file_of nm s l)) = nm" by (rule holds_text)
  then show "ck_wf (file_of nm s l)" using h holds_own [OF buffer_init_holds] by (simp add: ck_wf_def) (simp add: file_of_def chunk_init_def)
qed (simp_all add: file_of_def chunk_init_def)

lemma ans_slow_ok: "honest fs_small ans_slow" "eager ans_slow"
  by (auto simp: honest_def eager_def ans_slow_def fs_small_def Suc_le_eq)

lemma cq_mixed_ready: "queue_ready unsent fs_small cq_mixed" "queue_ready window_ok fs_small cq_mixed" "cq_rest fs_small cq_mixed = [72, 73, 49, 50]"
proof -
  have m: "sendable fs_small (mem_of [72, 73])" "ck_rest fs_small (mem_of [72, 73]) = [72, 73]"
    using mem_of_facts [of "[72, 73]"] by (auto simp: sendable_def ck_rest_def unread_def)
  have f: "sendable fs_small (file_of [102] 1 2)" "ck_rest fs_small (file_of [102] 1 2) = [49, 50]"
    by (simp_all add: sendable_def ck_rest_def file_of_facts fs_small_def)
  show r: "cq_rest fs_small cq_mixed = [72, 73, 49, 50]" using m(2) f(2) by (simp add: cq_rest_def cq_mixed_def)
  have "cq_ok cq_mixed" by (simp add: cq_ok_def cq_mixed_def chunkqueue_init_def file_of_facts mem_of_facts)
  moreover have "unsent (mem_of t)" "unsent (file_of [102] 1 2)" "window_ok (mem_of t)" "window_ok (file_of [102] 1 2)" for t
    by (simp_all add: unsent_def window_ok_def chunk_finished_def file_of_facts mem_of_facts)
  ultimately show "queue_ready unsent fs_small cq_mixed" "queue_ready window_ok fs_small cq_mixed"
    using m(1) f(1) r by (simp_all add: queue_ready_def SSIZE_MAX_def cq_mixed_def chunkqueue_init_def)
qed

theorem queue_is_sent_in_order_witness:
  "\<exists>r t cq'. send_turns (backend_of 1024 NETWORK_BACKEND_WRITEV) (\<lambda>_ _. ans_slow) 3 0 cq_mixed = Inr (r, t, cq') \<and>
     t @ cq_rest fs_small cq' = [72, 73, 49, 50]"
proof -
  have "select_backend (map char_byte ''writev'') = Some NETWORK_BACKEND_WRITEV" by code_simp
  from queue_is_sent_in_order [OF this, of fs_small "\<lambda>_ _. ans_slow" cq_mixed 1024 3 0]
  show ?thesis using ans_slow_ok cq_mixed_ready by (auto simp: backend_cond_def)
qed

end
