(* ===== verification/Lt_Conn_Write.thy ===== *)
theory Lt_Conn_Write
  imports Lt_Conn_Loop Lt_Net_Facts
begin

text \<open>
  The response on its way: the events of a writable socket, the backends below them and the state of the
  connection together.
\<close>

section \<open>Events of a writable socket\<close>

definition rv_writable :: revents where
  "rv_writable = \<lparr>rv_in = False, rv_out = True, rv_err = False, rv_hup = False, rv_other = False\<rparr>"

fun writable_events :: "(nat \<Rightarrow> sm_env) \<Rightarrow> nat \<Rightarrow> nat \<Rightarrow> csrv \<Rightarrow> connection \<Rightarrow> (effect list \<times> csrv \<times> connection) res" where
  "writable_events es 0 i srv con = Inr ([], srv, con)"
| "writable_events es (Suc n) i srv con =
     (if cx_state con \<noteq> CON_STATE_WRITE then Inr ([], srv, con)
      else bindR (connection_handle_fdevent (es i) rv_writable srv con) (\<lambda>(eff, srv, con).
           bindR (writable_events es n (i + 1) srv con) (\<lambda>(eff', srv, con). Inr (eff @ eff', srv, con))))"

text \<open>What a socket has got.\<close>

fun to_socket :: "int \<Rightarrow> effect list \<Rightarrow> bytes" where
  "to_socket fd [] = []"
| "to_socket fd (Net d (Put t) # es) = (if d = fd then t else []) @ to_socket fd es"
| "to_socket fd (_ # es) = to_socket fd es"

lemma to_socket_append [simp]: "to_socket fd (a @ b) = to_socket fd a @ to_socket fd b"
  by (induction fd a rule: to_socket.induct) simp_all

lemma to_socket_net [simp]: "to_socket fd (map (Net fd) eff) = delivered eff"
  by (induction eff rule: delivered.induct) simp_all

text \<open>A response that is complete and not limited.\<close>

definition writing :: "connection \<Rightarrow> bool" where
  "writing con \<longleftrightarrow> cx_state con = CON_STATE_WRITE \<and> cx_file_finished con \<and> cx_kbytes_per_second con = 0 \<and> cx_global_kbytes_per_second con = 0"

lemma unlimited_write:
  assumes "writing con" "send_queue (backend_write (cs_backend srv)) env (cx_write_queue con) = Inr (r, eff, q)"
  shows "network_write_chunkqueue env srv con = Inr (r, map (Net (cx_fd con)) eff,
    srv\<lparr>cs_global_bytes := cs_global_bytes srv + (cq_bytes_out q - cq_bytes_out (cx_write_queue con))\<rparr>,
    con\<lparr>cx_write_queue := q, cx_bytes_written := cx_bytes_written con + (cq_bytes_out q - cq_bytes_out (cx_write_queue con)),
        cx_bytes_written_cur_second := cx_bytes_written_cur_second con + (cq_bytes_out q - cq_bytes_out (cx_write_queue con))\<rparr>)"
  using assms by (simp add: network_write_chunkqueue_def writing_def Let_def)

lemma writable_event:
  assumes "writing con" "cq_chunks (cx_write_queue con) \<noteq> []"
    and "send_queue (backend_write (cs_backend srv)) (se_net e) (cx_write_queue con) = Inr (r, eff, q)" "r = 0 \<or> r = 1"
  obtains srv' con' where "connection_handle_fdevent e rv_writable srv con = Inr (map (Net (cx_fd con)) eff, srv', con')"
    "cs_backend srv' = cs_backend srv" "cx_write_queue con' = q" "cx_fd con' = cx_fd con"
    "cx_bytes_written con' = cx_bytes_written con + (cq_bytes_out q - cq_bytes_out (cx_write_queue con))"
    "r = 0 \<Longrightarrow> cx_state con' = CON_STATE_RESPONSE_END" "r = 1 \<Longrightarrow> writing con'"
proof -
  let ?c = "con\<lparr>cx_is_writable := True\<rparr>" and ?s = "joblist_append srv con"
  have w: "writing ?c" "cx_write_queue ?c = cx_write_queue con" "cs_backend ?s = cs_backend srv"
    using assms(1) by (simp_all add: writing_def joblist_append_def)
  obtain s1 c1 where n: "network_write_chunkqueue (se_net e) ?s ?c = Inr (r, map (Net (cx_fd con)) eff, s1, c1)" "cs_backend s1 = cs_backend srv"
      "cx_write_queue c1 = q" "cx_fd c1 = cx_fd con" "cx_bytes_written c1 = cx_bytes_written con + (cq_bytes_out q - cq_bytes_out (cx_write_queue con))"
      "writing c1"
    using unlimited_write [of ?c ?s "se_net e" r eff q, unfolded w(2,3), OF w(1) assms(3)] w(1) assms(1) by (simp add: joblist_append_def writing_def)
  have c1: "cx_state c1 = CON_STATE_WRITE" "cx_file_finished c1" using n(6) by (simp_all add: writing_def)
  have e: "chunkqueue_is_empty (cx_write_queue ?c) = 0" "cx_state ?c = CON_STATE_WRITE" "cx_is_writable ?c" using assms(1,2) by (simp_all add: chunkqueue_is_empty_def writing_def)
  have flags: "fdevent_flags rv_writable con = ?c" by (simp add: fdevent_flags_def rv_writable_def)
  define c2 where "c2 = (if r = 0 then connection_set_state c1 CON_STATE_RESPONSE_END else c1\<lparr>cx_is_writable := False\<rparr>)"
  define s2 where "s2 = (if r = 0 then joblist_append s1 c2 else s1)"
  define c3 where "c3 = (if cx_state c2 = CON_STATE_WRITE then c2\<lparr>cx_write_request_ts := cs_cur_ts s2\<rparr> else c2)"
  have st: "cx_state c2 = (if r = 0 then CON_STATE_RESPONSE_END else CON_STATE_WRITE)" using c1 by (simp add: c2_def connection_set_state_def)
  have h: "connection_handle_write e ?s ?c = Inr (map (Net (cx_fd con)) eff, s2, c2)"
    unfolding connection_handle_write_def n(1) using c1 assms(4) by (auto simp: s2_def c2_def Let_def)
  have "write_queue e ?s ?c = Inr (map (Net (cx_fd con)) eff, s2, c3)" unfolding write_queue_def h using e by (simp add: c3_def)
  then have ev: "connection_handle_fdevent e rv_writable srv con = Inr (map (Net (cx_fd con)) eff, s2, c3)"
    unfolding connection_handle_fdevent_def Let_def flags using e(2) st by (auto simp: c3_def)
  show ?thesis
  proof (rule that [OF ev])
    show "cs_backend s2 = cs_backend srv" using n(2) by (simp add: s2_def joblist_append_def)
    show "cx_write_queue c3 = q" "cx_fd c3 = cx_fd con"
      "cx_bytes_written c3 = cx_bytes_written con + (cq_bytes_out q - cq_bytes_out (cx_write_queue con))"
      using n(3-5) by (simp_all add: c3_def c2_def connection_set_state_def)
    show "r = 0 \<Longrightarrow> cx_state c3 = CON_STATE_RESPONSE_END" using st by (simp add: c3_def)
    show "r = 1 \<Longrightarrow> writing c3" using n(6) by (simp add: c3_def c2_def writing_def)
  qed
qed

lemma rest_unfinished: "queue_ready ok fs q \<Longrightarrow> cq_chunks q \<noteq> [] \<Longrightarrow> \<not> chunk_finished (hd (cq_chunks q)) \<Longrightarrow> cq_rest fs q \<noteq> []"
  using finished_iff by (cases "cq_chunks q") (auto simp: queue_ready_def cq_rest_def)

section \<open>The whole response\<close>

context live_backend
begin

lemma writable_events_end:
  assumes "\<forall>i j. honest fs (se_net (es i) j) \<and> eager (se_net (es i) j)"
  shows "writing con \<Longrightarrow> cs_backend srv = send \<Longrightarrow> queue_ready ok fs (cx_write_queue con) \<Longrightarrow> cq_chunks (cx_write_queue con) \<noteq> [] \<Longrightarrow>
    length (cq_rest fs (cx_write_queue con)) < n \<Longrightarrow>
    \<exists>eff srv' con'. writable_events es n i srv con = Inr (eff, srv', con') \<and> to_socket (cx_fd con) eff = cq_rest fs (cx_write_queue con) \<and>
      cx_state con' = CON_STATE_RESPONSE_END \<and> cx_bytes_written con' = cx_bytes_written con + int (length (cq_rest fs (cx_write_queue con)))"
proof (induction n arbitrary: i srv con)
  case (Suc n)
  let ?q = "cx_write_queue con"
  have st: "cx_state con = CON_STATE_WRITE" using Suc.prems(1) by (simp add: writing_def)
  obtain r eff q where c: "send_queue (backend_write send) (se_net (es i)) ?q = Inr (r, eff, q)" "delivered eff @ cq_rest fs q = cq_rest fs ?q"
      "cq_bytes_out q = cq_bytes_out ?q + int (length (delivered eff))"
      "0 \<le> r \<longrightarrow> queue_ready ok fs q \<and> (r = 0 \<longleftrightarrow> cq_chunks q = []) \<and> (cq_chunks q = [] \<or> \<not> chunk_finished (hd (cq_chunks q)))"
    using send_queue_ok [OF _ Suc.prems(3), of "se_net (es i)"] assms by blast
  have r: "r = 0 \<or> r = 1" "cq_rest fs ?q \<noteq> [] \<Longrightarrow> delivered eff \<noteq> []" using send_queue_moves [OF _ Suc.prems(3) c(1)] assms by blast+
  obtain s1 c1 where e: "connection_handle_fdevent (es i) rv_writable srv con = Inr (map (Net (cx_fd con)) eff, s1, c1)"
      "cs_backend s1 = send" "cx_write_queue c1 = q" "cx_fd c1 = cx_fd con"
      "cx_bytes_written c1 = cx_bytes_written con + int (length (delivered eff))"
      "r = 0 \<Longrightarrow> cx_state c1 = CON_STATE_RESPONSE_END" "r = 1 \<Longrightarrow> writing c1"
    using writable_event [OF Suc.prems(1,4) c(1) [folded Suc.prems(2)] r(1)] c(3) Suc.prems(2) by auto
  show ?case
  proof (cases "r = 0")
    case True
    then have "cq_rest fs q = []" "writable_events es n (i + 1) s1 c1 = Inr ([], s1, c1)" using c(4) e(6) by (simp add: cq_rest_def, cases n, simp_all)
    then show ?thesis using e(1,5,6) c(2) True st by auto
  next
    case False
    then have r1: "r = 1" using r(1) by simp
    have ne: "cq_chunks q \<noteq> []" using c(4) r1 by auto
    have "cq_rest fs q \<noteq> []" using rest_unfinished [of ok fs q] c(4) r1 ne by auto
    then have "cq_rest fs ?q \<noteq> []" using c(2) by auto
    from arg_cong [OF c(2), of length] r(2) [OF this] have "length (cq_rest fs q) < length (cq_rest fs ?q)" by (cases "delivered eff") auto
    then have "length (cq_rest fs (cx_write_queue c1)) < n" using Suc.prems(5) e(3) by simp
    then obtain eff2 s2 c2 where "writable_events es n (i + 1) s1 c1 = Inr (eff2, s2, c2)" "to_socket (cx_fd con) eff2 = cq_rest fs q"
        "cx_state c2 = CON_STATE_RESPONSE_END" "cx_bytes_written c2 = cx_bytes_written c1 + int (length (cq_rest fs q))"
      using Suc.IH [of c1 s1 "i + 1"] e(2-4,7) c(4) r1 ne by auto
    moreover from arg_cong [OF c(2), of length] have "length (delivered eff) + length (cq_rest fs q) = length (cq_rest fs ?q)" by simp
    ultimately show ?thesis using e(1,5) st c(2) by auto
  qed
qed simp

end


definition con_mixed :: connection where
  "con_mixed = (connection_init conf_plain [] 0)\<lparr>cx_state := CON_STATE_WRITE, cx_file_finished := True, cx_is_writable := True, cx_fd := 5, cx_write_queue := cq_mixed\<rparr>"

lemma con_mixed_facts: "writing con_mixed" "cx_write_queue con_mixed = cq_mixed" "cx_fd con_mixed = 5" "cq_chunks cq_mixed \<noteq> []"
  "cs_backend srv_small = sendfile_chunks"
  by (simp_all add: con_mixed_def writing_def connection_init_def config_setup_connection_def conf_plain_def cq_mixed_def srv_small_def)


text \<open>
  C40. The default backend gives up on a client for a signal: when \<open>sendfile\<close> is interrupted, or finds the
  socket full, before it has taken a byte, the connection goes to its error state, although both cases are
  meant to be tried again.
\<close>

theorem interrupted_sendfile_drops_client:
  assumes "writing con" "cx_is_writable con" "cs_backend srv = sendfile_chunks" "cq_chunks (cx_write_queue con) = c # cs" "sendable fs c"
    and "ck_type c = FILE_CHUNK" "honest fs (se_net e 0)" "\<forall>nm. na_open (se_net e 0) nm \<noteq> -1"
    and "\<forall>t. na_write (se_net e 0) t = Inl err" "err = EAGAIN \<or> err = EINTR"
  shows "\<exists>eff srv' con'. sm_write e srv con = Inr (eff, False, srv', con') \<and> cx_state con' = CON_STATE_ERROR"
proof -
  obtain c' where f: "sendfile_file (se_net e 0) c = Inr (Failed (-2), [], c')"
  proof (rule sendfile_file_eq [OF assms(7,5,6)])
    fix t k fd
    assume fd: "fd = (if ck_fd c = -1 then na_open (se_net e 0) (buf_text (ck_name c)) else ck_fd c)"
      and sf: "sendfile_file (se_net e 0) c = (if fd = -1 then Inr (Failed (-1), [], c)
        else case taken (na_write (se_net e 0) t) of Inl e \<Rightarrow> Inr (Failed e, [], c\<lparr>ck_fd := fd\<rparr>)
           | Inr r \<Rightarrow> if r = 0 then Inr (Failed (-2), [], c\<lparr>ck_fd := fd\<rparr>)
               else if ck_offset c + int r = ck_length c
               then Inr (Finished, [Put (take r t), Tidy (Close fd)], c\<lparr>ck_offset := ck_offset c + int r, ck_fd := -1\<rparr>)
               else Inr (Partly, [Put (take r t)], c\<lparr>ck_fd := fd, ck_offset := ck_offset c + int r\<rparr>))"
    have "taken (na_write (se_net e 0) t) = Inr 0" using assms(9,10) by (auto simp: taken_def)
    moreover have "fd \<noteq> -1" using fd assms(8) by simp
    ultimately show thesis using sf that by simp
  qed
  let ?q = "(cx_write_queue con)\<lparr>cq_chunks := c' # cs\<rparr>"
  have "send_queue (backend_write (cs_backend srv)) (se_net e) (cx_write_queue con) = Inr (-2, [], ?q)"
    using f assms(3,4,6) by (simp add: send_queue_def backend_write_def sendfile_chunks_def)
  from unlimited_write [OF assms(1) this] obtain s1 c1 where n: "network_write_chunkqueue (se_net e) srv con = Inr (-2, [], s1, c1)" by auto
  have "chunkqueue_is_empty (cx_write_queue con) = 0" using assms(4) by (simp add: chunkqueue_is_empty_def)
  then show ?thesis using assms(2) n by (simp add: sm_write_def write_queue_def connection_handle_write_def Let_def)
qed

theorem interrupted_sendfile_drops_client_witness:
  "\<exists>eff srv' con'. sm_write (env_quiet\<lparr>se_net := \<lambda>_. ans_slow\<lparr>na_write := \<lambda>_. Inl EINTR\<rparr>\<rparr>) srv_small
       (con_mixed\<lparr>cx_write_queue := chunkqueue_init\<lparr>cq_chunks := [file_of [102] 1 2]\<rparr>\<rparr>) = Inr (eff, False, srv', con') \<and>
     cx_state con' = CON_STATE_ERROR"
proof -
  let ?con = "con_mixed\<lparr>cx_write_queue := chunkqueue_init\<lparr>cq_chunks := [file_of [102] 1 2]\<rparr>\<rparr>"
  let ?e = "env_quiet\<lparr>se_net := \<lambda>_. ans_slow\<lparr>na_write := \<lambda>_. Inl EINTR\<rparr>\<rparr>"
  have c: "writing ?con" "cx_is_writable ?con" "cq_chunks (cx_write_queue ?con) = [file_of [102] 1 2]"
    using con_mixed_facts(1) by (simp_all add: writing_def) (simp add: con_mixed_def)
  have f: "sendable fs_small (file_of [102] 1 2)" "ck_type (file_of [102] 1 2) = FILE_CHUNK"
    using cq_mixed_ready(1) by (simp_all add: queue_ready_def cq_mixed_def file_of_facts)
  show ?thesis
    by (rule interrupted_sendfile_drops_client [OF c(1,2) con_mixed_facts(5) c(3) f, of _ EINTR])
       (simp_all add: honest_def ans_slow_def fs_small_def)
qed

end
