(* ===== verification/Lt_Server.thy ===== *)
theory Lt_Server
  imports Lt_Conn
begin

text \<open>
  The main loop of the web server (\<open>server.c\<close>) and the handler of its listening sockets (\<open>network.c\<close>): timeouts
  once a second, the switch of the listening sockets, the queue of connections that wait for a descriptor,
  the events, the jobs. Signals, log files and the triggers of plugins are left out. \<open>None\<close> is a state
  machine or a list of jobs that did not end within the turns given.
\<close>

section \<open>Running connections\<close>

type_synonym run = "(effect list \<times> csrv) option res"

definition then_run :: "run \<Rightarrow> (csrv \<Rightarrow> run) \<Rightarrow> run" where
  "then_run m f =
     bindR m (\<lambda>r. case r of
       None \<Rightarrow> Inr None
     | Some (eff, srv) \<Rightarrow> bindR (f srv) (\<lambda>r. Inr (map_option (\<lambda>(eff', srv). (eff @ eff', srv)) r)))"

definition put_conn :: "nat \<Rightarrow> connection \<Rightarrow> csrv \<Rightarrow> csrv" where
  "put_conn c con srv = srv\<lparr>cs_conns := (cs_conns srv)(c := con)\<rparr>"

definition run_conn :: "nat \<Rightarrow> (nat \<Rightarrow> sm_env) \<Rightarrow> csrv \<Rightarrow> nat \<Rightarrow> run" where
  "run_conn n env srv c =
     bindR (connection_state_machine n env 0 srv (cs_conns srv c)) (\<lambda>r.
       Inr (map_option (\<lambda>(eff, srv, con). (eff, put_conn c con srv)) r))"

section \<open>Listening sockets\<close>

text \<open>The answers for connection \<open>k\<close> of one event: descriptor, \<open>fcntl\<close>, the run of the machine, the hook for jobs.\<close>

record listen_env =
  le_accept :: "nat \<Rightarrow> int option"
  le_fcntl :: "nat \<Rightarrow> bool"
  le_env :: "nat \<Rightarrow> nat \<Rightarrow> sm_env"
  le_joblist :: "connection \<Rightarrow> connection"

text \<open>\<open>m\<close> more connections may be accepted; the loop ends with the first one that is not.\<close>

fun accept_loop :: "nat \<Rightarrow> listen_env \<Rightarrow> nat \<Rightarrow> nat \<Rightarrow> csrv \<Rightarrow> run" where
  "accept_loop n l 0 k srv = Inr (Some ([], srv))"
| "accept_loop n l (Suc m) k srv =
     bindR (connection_accept (le_env l k 0) (le_accept l k) (le_fcntl l k) srv) (\<lambda>(eff, srv, con).
       case con of
         None \<Rightarrow> Inr (Some (eff, srv))
       | Some con \<Rightarrow>
           let c = cx_id con
           in then_run (then_run (Inr (Some (eff, srv))) (\<lambda>srv. run_conn n (le_env l k) srv c)) (\<lambda>srv.
                accept_loop n l m (k + 1) (put_conn c (le_joblist l (cs_conns srv c)) srv)))"

definition rv_readable :: revents where
  "rv_readable = \<lparr>rv_in = True, rv_out = False, rv_err = False, rv_hup = False, rv_other = False\<rparr>"

definition network_server_handle_fdevent :: "nat \<Rightarrow> listen_env \<Rightarrow> revents \<Rightarrow> csrv \<Rightarrow> handler_t \<times> run" where
  "network_server_handle_fdevent n l rv srv =
     (if rv \<noteq> rv_readable then (HANDLER_ERROR, Inr (Some ([], srv))) else (HANDLER_GO_ON, accept_loop n l 100 0 srv))"

section \<open>A new second\<close>

text \<open>Division as in C, towards zero.\<close>

definition c_quot :: "int \<Rightarrow> int \<Rightarrow> int" where
  "c_quot a b = sgn a * sgn b * (\<bar>a\<bar> div \<bar>b\<bar>)"

definition read_timeout :: "int \<Rightarrow> connection \<Rightarrow> bool" where
  "read_timeout cur_ts con \<longleftrightarrow> (cx_state con = CON_STATE_READ \<or> cx_state con = CON_STATE_READ_POST) \<and>
     (if cn_request_count (cx_req con) = 1 then cur_ts - cx_read_idle_ts con > cx_max_read_idle con
      else cur_ts - cx_read_idle_ts con > cx_max_keep_alive_idle con)"

definition write_timeout :: "int \<Rightarrow> connection \<Rightarrow> bool" where
  "write_timeout cur_ts con \<longleftrightarrow> cx_state con = CON_STATE_WRITE \<and> cx_write_request_ts con \<noteq> 0 \<and>
     cur_ts - cx_write_request_ts con > cx_max_write_idle con"

text \<open>The checks of one connection; the first component tells whether the machine has to run.\<close>

definition check_conn :: "int \<Rightarrow> connection \<Rightarrow> bool \<times> connection" where
  "check_conn cur_ts con =
     (let late = read_timeout cur_ts con;
          con = (if late then connection_set_state con CON_STATE_ERROR else con);
          stuck = write_timeout cur_ts con;
          con = (if stuck then connection_set_state con CON_STATE_ERROR else con);
          t_diff = (if cur_ts - cx_connection_start con = 0 then 1 else cur_ts - cx_connection_start con);
          free = (cx_traffic_limit_reached con \<and>
                  (cx_kbytes_per_second con = 0 \<or> c_quot (cx_bytes_written con) t_diff < cx_kbytes_per_second con * 1024))
      in (late \<or> stuck \<or> free, if free then con\<lparr>cx_traffic_limit_reached := False\<rparr> else con))"

definition visit_conn :: "nat \<Rightarrow> (nat \<Rightarrow> sm_env) \<Rightarrow> csrv \<Rightarrow> nat \<Rightarrow> run" where
  "visit_conn n env srv c =
     (let (changed, con) = check_conn (cs_cur_ts srv) (cs_conns srv c); srv = put_conn c con srv
      in then_run (if changed then run_conn n env srv c else Inr (Some ([], srv))) (\<lambda>srv.
           Inr (Some ([], (put_conn c ((cs_conns srv c)\<lparr>cx_bytes_written_cur_second := 0\<rparr>) srv)\<lparr>cs_global_bytes := 0\<rparr>))))"

text \<open>
  The walk over the table, \<open>k\<close> the entries it can still visit: the table is as long as at the start of the
  walk or shorter, the index goes up by one.
\<close>

fun timeout_walk :: "nat \<Rightarrow> (nat \<Rightarrow> nat \<Rightarrow> sm_env) \<Rightarrow> nat \<Rightarrow> nat \<Rightarrow> csrv \<Rightarrow> run" where
  "timeout_walk n env 0 ndx srv = Inr (Some ([], srv))"
| "timeout_walk n env (Suc k) ndx srv =
     (if ndx < pl_used (cs_pool srv)
      then bindR (get_at (pl_ptr (cs_pool srv)) (int ndx)) (\<lambda>c.
             then_run (visit_conn n (env ndx) srv c) (timeout_walk n env k (ndx + 1)))
      else Inr (Some ([], srv)))"

definition new_second :: "nat \<Rightarrow> (nat \<Rightarrow> nat \<Rightarrow> sm_env) \<Rightarrow> int \<Rightarrow> csrv \<Rightarrow> run" where
  "new_second n env min_ts srv =
     (if min_ts \<noteq> cs_cur_ts srv then timeout_walk n env (pl_used (cs_pool srv)) 0 (srv\<lparr>cs_cur_ts := min_ts\<rparr>)
      else Inr (Some ([], srv)))"

section \<open>Descriptors and jobs\<close>

text \<open>\<open>free_fds\<close> connections that wait for a descriptor may go on.\<close>

fun fdwait_loop :: "nat \<Rightarrow> (nat \<Rightarrow> nat \<Rightarrow> sm_env) \<Rightarrow> nat \<Rightarrow> csrv \<Rightarrow> run" where
  "fdwait_loop n env 0 srv = Inr (Some ([], srv))"
| "fdwait_loop n env (Suc free_fds) srv =
     (case fdwaitqueue_unshift srv of
        (None, srv) \<Rightarrow> Inr (Some ([], srv))
      | (Some c, srv) \<Rightarrow> then_run (run_conn n (env free_fds) srv c) (\<lambda>srv.
          fdwait_loop n env free_fds (srv\<lparr>cs_want_fds := cs_want_fds srv - 1\<rparr>)))"

definition serve_fdwait :: "nat \<Rightarrow> (nat \<Rightarrow> nat \<Rightarrow> sm_env) \<Rightarrow> csrv \<Rightarrow> run" where
  "serve_fdwait n env srv =
     (if cs_want_fds srv \<noteq> 0 then fdwait_loop n env (nat (cs_max_fds srv - cs_cur_fds srv - 16)) srv else Inr (Some ([], srv)))"

text \<open>Jobs that come while the list is worked through are done in the same pass.\<close>

fun job_loop :: "nat \<Rightarrow> (nat \<Rightarrow> nat \<Rightarrow> sm_env) \<Rightarrow> (connection \<Rightarrow> connection) \<Rightarrow> nat \<Rightarrow> nat \<Rightarrow> csrv \<Rightarrow> run" where
  "job_loop n env hook 0 ndx srv = Inr None"
| "job_loop n env hook (Suc k) ndx srv =
     (if ndx < length (cs_joblist srv)
      then let c = cs_joblist srv ! ndx
           in then_run (run_conn n (env ndx) srv c) (\<lambda>srv. job_loop n env hook k (ndx + 1) (put_conn c (hook (cs_conns srv c)) srv))
      else Inr (Some ([], srv\<lparr>cs_joblist := []\<rparr>)))"

section \<open>Events\<close>

datatype polled = OnListen listen_env revents | OnConn nat revents sm_env

text \<open>A handler that returns \<open>HANDLER_ERROR\<close> ends the server.\<close>

fun poll_loop :: "nat \<Rightarrow> polled list \<Rightarrow> csrv \<Rightarrow> run" where
  "poll_loop n [] srv = Inr (Some ([], srv))"
| "poll_loop n (OnListen l rv # ps) srv =
     (let (r, run) = network_server_handle_fdevent n l rv srv
      in if r = HANDLER_ERROR then Inl Abort else then_run run (poll_loop n ps))"
| "poll_loop n (OnConn c rv e # ps) srv =
     bindR (connection_handle_fdevent e rv srv (cs_conns srv c)) (\<lambda>(eff, srv, con).
       then_run (Inr (Some (eff, put_conn c con srv))) (poll_loop n ps))"

section \<open>The listening sockets\<close>

record mainloop =
  ml_sockets_disabled :: bool
  ml_srv_sockets :: "int list"
  ml_pid_file :: bytes
  ml_changeroot :: bytes
  ml_shutdown :: bool

text \<open>The limits 0.8 and 0.9 of the descriptors and connections, as fractions.\<close>

definition enable_sockets :: "bool \<Rightarrow> csrv \<Rightarrow> mainloop \<Rightarrow> effect list \<times> mainloop" where
  "enable_sockets graceful srv ml =
     (if 5 * (cs_cur_fds srv + cs_want_fds srv) < 4 * cs_max_fds srv \<and>
         10 * pl_used (cs_pool srv) < 9 * cs_max_conns srv \<and> \<not> graceful
      then (map (\<lambda>fd. EventAdd fd FDEVENT_IN) (ml_srv_sockets ml), ml\<lparr>ml_sockets_disabled := False\<rparr>)
      else ([], ml))"

definition close_listener :: "mainloop \<Rightarrow> int \<Rightarrow> effect list" where
  "close_listener ml fd =
     [Unregister fd, CloseSocket fd] @ (if ml_pid_file ml \<noteq> [] \<and> ml_changeroot ml = [] then [Chunk (Unlink (ml_pid_file ml))] else [])"

definition disable_sockets :: "bool \<Rightarrow> csrv \<Rightarrow> mainloop \<Rightarrow> effect list \<times> mainloop" where
  "disable_sockets graceful srv ml =
     (if 10 * (cs_cur_fds srv + cs_want_fds srv) > 9 * cs_max_fds srv \<or> pl_used (cs_pool srv) > cs_max_conns srv \<or> graceful
      then (concat (map (\<lambda>fd. EventDel fd # (if graceful then close_listener ml fd else [])) (ml_srv_sockets ml)),
            ml\<lparr>ml_sockets_disabled := True, ml_srv_sockets := (if graceful then map (\<lambda>_. -1) (ml_srv_sockets ml) else ml_srv_sockets ml)\<rparr>)
      else ([], ml))"

definition switch_sockets :: "bool \<Rightarrow> csrv \<Rightarrow> mainloop \<Rightarrow> effect list \<times> mainloop" where
  "switch_sockets graceful srv ml =
     (if ml_sockets_disabled ml then enable_sockets graceful srv ml else disable_sockets graceful srv ml)"

section \<open>One turn of the main loop\<close>

record turn_env =
  tu_now :: int
  tu_graceful :: bool
  tu_second :: "nat \<Rightarrow> nat \<Rightarrow> sm_env"
  tu_fdwait :: "nat \<Rightarrow> nat \<Rightarrow> sm_env"
  tu_polled :: "polled list"
  tu_jobs :: "nat \<Rightarrow> nat \<Rightarrow> sm_env"
  tu_joblist :: "connection \<Rightarrow> connection"

definition main_turn :: "nat \<Rightarrow> turn_env \<Rightarrow> csrv \<times> mainloop \<Rightarrow> (effect list \<times> csrv \<times> mainloop) option res" where
  "main_turn n t = (\<lambda>(srv, ml).
     bindR (new_second n (tu_second t) (tu_now t) srv) (\<lambda>r. case r of
       None \<Rightarrow> Inr None
     | Some (eff, srv) \<Rightarrow>
         let (eff', ml) = switch_sockets (tu_graceful t) srv ml;
             ml = (if tu_graceful t \<and> pl_used (cs_pool srv) = 0 then ml\<lparr>ml_shutdown := True\<rparr> else ml)
         in bindR (then_run (then_run (serve_fdwait n (tu_fdwait t) srv) (poll_loop n (tu_polled t)))
                     (job_loop n (tu_jobs t) (tu_joblist t) n 0)) (\<lambda>r.
              Inr (map_option (\<lambda>(eff'', srv). (eff @ eff' @ eff'', srv, ml)) r))))"

text \<open>Turns until the server is told to stop.\<close>

fun main_loop :: "nat \<Rightarrow> turn_env list \<Rightarrow> csrv \<times> mainloop \<Rightarrow> (effect list \<times> csrv \<times> mainloop) option res" where
  "main_loop n [] (srv, ml) = Inr (Some ([], srv, ml))"
| "main_loop n (t # ts) (srv, ml) =
     (if ml_shutdown ml then Inr (Some ([], srv, ml))
      else bindR (main_turn n t (srv, ml)) (\<lambda>r. case r of
             None \<Rightarrow> Inr None
           | Some (eff, s) \<Rightarrow> bindR (main_loop n ts s) (\<lambda>r. Inr (map_option (\<lambda>(eff', s). (eff @ eff', s)) r))))"

end
