(* ===== verification/Lt_Server_Facts.thy ===== *)
theory Lt_Server_Facts
  imports Lt_Server Lt_Conn_Machine
begin

text \<open>
  The main loop as a whole: the table of connections never outgrows its limit, the walk of each second closes
  exactly the connections that are overdue among those it visits, and which one it skips.
\<close>

section \<open>The size of the table\<close>

definition bounded :: "csrv \<Rightarrow> csrv \<Rightarrow> bool" where
  "bounded srv srv' \<longleftrightarrow> cs_max_conns srv' = cs_max_conns srv \<and> pl_used (cs_pool srv') \<le> max (pl_used (cs_pool srv)) (cs_max_conns srv) \<and>
     (pool_ok (cs_pool srv) \<longrightarrow> pool_ok (cs_pool srv'))"

lemma bounded_refl [simp]: "bounded srv srv"
  by (simp add: bounded_def)

lemma bounded_trans: "bounded a b \<Longrightarrow> bounded b c \<Longrightarrow> bounded a c"
  by (auto simp: bounded_def)

text \<open>Nothing but the pool and the limit matters.\<close>

lemma bounded_same: "cs_max_conns srv' = cs_max_conns srv \<Longrightarrow> cs_pool srv' = cs_pool srv \<Longrightarrow> bounded srv srv'"
  by (simp add: bounded_def)

lemma bounded_updates [simp]:
  "bounded a (joblist_append srv con) = bounded a srv" "bounded a (fdwaitqueue_append srv con) = bounded a srv"
  "bounded a (put_conn c con srv) = bounded a srv" "bounded a (srv\<lparr>cs_want_fds := w\<rparr>) = bounded a srv"
  "bounded a (srv\<lparr>cs_con_written := x\<rparr>) = bounded a srv" "bounded a (srv\<lparr>cs_con_closed := x\<rparr>) = bounded a srv"
  "bounded a (srv\<lparr>cs_req := r\<rparr>) = bounded a srv" "bounded a (srv\<lparr>cs_cur_ts := t\<rparr>) = bounded a srv"
  "bounded a (srv\<lparr>cs_joblist := j\<rparr>) = bounded a srv" "bounded a (srv\<lparr>cs_fdwaitqueue := j\<rparr>) = bounded a srv"
  "bounded a (srv\<lparr>cs_global_bytes := g\<rparr>) = bounded a srv" "bounded a (srv\<lparr>cs_date := d\<rparr>) = bounded a srv"
  "bounded a (srv\<lparr>cs_tmp_buf := b\<rparr>) = bounded a srv"
  by (simp_all add: bounded_def joblist_append_def fdwaitqueue_append_def put_conn_def)

lemma del_shrinks: "connection_del p c = Inr (r, p') \<Longrightarrow> pl_used p' \<le> pl_used p"
  by (auto simp: connection_del_def Let_def bindR_eq_Inr split: if_splits)

lemma del_keeps_ok: "connection_del p c = Inr (r, p') \<Longrightarrow> pool_ok p \<Longrightarrow> pool_ok p'"
  using pool_del_ok [of p c] pool_del_closed [of p c] by (cases "c \<in> pool_open p") auto

text \<open>What holds of the result, when there is one: the rules take an operation apart along \<open>bindR\<close>.\<close>

definition okR :: "('a \<Rightarrow> bool) \<Rightarrow> 'a res \<Rightarrow> bool" where
  "okR P m \<longleftrightarrow> (\<forall>x. m = Inr x \<longrightarrow> P x)"

lemma okR_Inl [simp]: "okR P (Inl e)"
  by (simp add: okR_def)

lemma okR_Inr [simp]: "okR P (Inr x) \<longleftrightarrow> P x"
  by (simp add: okR_def)

lemma okR_bind: "okR Q m \<Longrightarrow> (\<And>x. Q x \<Longrightarrow> okR P (f x)) \<Longrightarrow> okR P (bindR m f)"
  by (auto simp: okR_def bindR_eq_Inr)

lemma okR_bind_any: "(\<And>x. okR P (f x)) \<Longrightarrow> okR P (bindR m f)"
  by (auto simp: okR_def bindR_eq_Inr)

lemma okR_mono: "okR Q m \<Longrightarrow> (\<And>x. Q x \<Longrightarrow> P x) \<Longrightarrow> okR P m"
  by (simp add: okR_def)

lemma okR_D: "okR P m \<Longrightarrow> m = Inr x \<Longrightarrow> P x"
  by (simp add: okR_def)

lemma okR_if: "(b \<Longrightarrow> okR P m) \<Longrightarrow> (\<not> b \<Longrightarrow> okR P m') \<Longrightarrow> okR P (if b then m else m')"
  by simp

lemma close_bounded: "okR (\<lambda>(eff, srv', con'). bounded srv srv') (connection_close srv con)"
  by (auto simp: connection_close_def okR_def bindR_eq_Inr bounded_def le_max_iff_disj dest: del_shrinks del_keeps_ok)

lemma error_file_bounded: "okR (\<lambda>(srv', con'). bounded srv srv') (error_file e srv con)"
  by (auto simp: error_file_def Let_def intro!: okR_bind_any bounded_same split: option.split)

lemma error_body_bounded: "okR (\<lambda>(srv', con'). bounded srv srv') (error_body e srv con)"
  unfolding error_body_def Let_def
  by (rule okR_bind [where Q = "\<lambda>(srv', con'). bounded srv srv'"])
    (auto simp: error_file_bounded intro!: okR_bind_any)

lemma prepare_status_bounded: "okR (\<lambda>(eff, srv', con'). bounded srv srv') (prepare_status e srv con)"
  unfolding prepare_status_def Let_def
  by (intro okR_if) (auto intro: okR_bind [OF error_body_bounded] okR_bind_any)

lemma write_header_bounded: "okR (\<lambda>(srv', con'). bounded srv srv') (http_response_write_header e srv con)"
  unfolding http_response_write_header_def Let_def
  by (auto intro!: okR_bind_any bounded_same)

lemma write_prepare_bounded: "okR (\<lambda>(eff, srv', con'). bounded srv srv') (connection_handle_write_prepare e srv con)"
  unfolding connection_handle_write_prepare_def
  apply (rule okR_bind_any, clarify)
  apply (rule okR_bind [OF prepare_status_bounded], clarify)
  apply (rule okR_bind_any, clarify?)
  apply (rule okR_bind_any, clarify?)
  apply (rule okR_bind [OF write_header_bounded])
  apply (auto intro: bounded_trans)
  done

lemma network_write_bounded: "okR (\<lambda>(r, eff, srv', con'). bounded srv srv') (network_write_chunkqueue env srv con)"
  unfolding network_write_chunkqueue_def Let_def
  by (intro okR_if okR_bind_any) auto

lemma handle_write_bounded: "okR (\<lambda>(eff, srv', con'). bounded srv srv') (connection_handle_write e srv con)"
  unfolding connection_handle_write_def Let_def
  by (rule okR_bind [OF network_write_bounded]) (auto intro: bounded_trans)

lemma write_queue_bounded: "okR (\<lambda>(eff, srv', con'). bounded srv srv') (write_queue e srv con)"
  unfolding write_queue_def
  by (intro okR_if okR_bind [OF handle_write_bounded]) auto

lemma handle_request_bounded: "okR (\<lambda>(eff, again, srv', con'). bounded srv srv') (sm_handle_request e srv con)"
  unfolding sm_handle_request_def
  apply (rule okR_bind_any, clarify)
  subgoal for eff r c by (cases r) (auto simp: split_def Let_def)
  done

lemma response_end_bounded: "okR (\<lambda>(eff, again, srv', con'). bounded srv srv') (sm_response_end e srv con)"
proof -
  let ?s = "srv\<lparr>cs_con_written := cs_con_written srv + 1\<rparr>"
  have "okR (\<lambda>(eff, srv', con'). bounded srv srv') (bindR (connection_close ?s c) (\<lambda>(eff, srv, con).
      Inr (eff, srv\<lparr>cs_con_closed := cs_con_closed srv + 1\<rparr>, con)))" for c
    by (rule okR_bind [OF close_bounded]) (auto simp: bounded_def)
  note c = this [of "se_connection_close e (se_request_done e con)"]
  show ?thesis unfolding sm_response_end_def Let_def
    apply (rule okR_bind [where Q = "\<lambda>(eff, srv', con'). bounded srv srv'"])
     apply (rule okR_if, simp, rule c)
    apply (auto intro!: okR_bind_any)
    done
qed

lemma error_bounded: "okR (\<lambda>(eff, again, srv', con'). bounded srv srv') (sm_error e srv con)"
  unfolding sm_error_def Let_def
  apply (rule okR_bind_any, clarify)
  apply (rule okR_bind [where Q = "\<lambda>(eff, srv', con'). bounded srv srv'"])
   apply (rule okR_if)
    apply (simp_all add: close_bounded)
  apply (auto simp: bounded_def)
  done

lemma sm_close_bounded: "okR (\<lambda>(eff, again, srv', con'). bounded srv srv') (sm_close e srv con)"
  unfolding sm_close_def Let_def
  by (intro okR_if okR_bind [OF close_bounded]) auto

lemma sm_step_bounded: "okR (\<lambda>(eff, again, srv', con'). bounded srv srv') (sm_step e srv con)"
  unfolding sm_step_def
  by (cases "cx_state con")
    (auto simp: handle_request_bounded response_end_bounded error_bounded sm_close_bounded
      sm_request_start_def sm_request_end_def sm_response_start_def sm_connect_def sm_read_def sm_write_def Let_def
      intro: okR_bind [OF write_prepare_bounded] okR_bind [OF write_queue_bounded] okR_bind_any)

section \<open>The parts of a turn\<close>

text \<open>The same of a run, which may not have come to its end.\<close>

definition run_bounded :: "csrv \<Rightarrow> run \<Rightarrow> bool" where
  "run_bounded srv m \<longleftrightarrow> okR (\<lambda>r. case r of None \<Rightarrow> True | Some (eff, srv') \<Rightarrow> bounded srv srv') m"

lemma run_bounded_stay [simp]: "run_bounded srv (Inr None)" "run_bounded srv (Inl e)" "run_bounded srv (Inr (Some (eff, srv'))) = bounded srv srv'"
  by (simp_all add: run_bounded_def)

lemma run_bounded_then:
  assumes "run_bounded srv m" "\<And>s. bounded srv s \<Longrightarrow> run_bounded srv (f s)"
  shows "run_bounded srv (then_run m f)"
  unfolding run_bounded_def then_run_def
proof (rule okR_bind [OF assms(1) [unfolded run_bounded_def]])
  fix r :: "(effect list \<times> csrv) option"
  assume r: "case r of None \<Rightarrow> True | Some (eff, srv') \<Rightarrow> bounded srv srv'"
  show "okR (\<lambda>r. case r of None \<Rightarrow> True | Some (eff, srv') \<Rightarrow> bounded srv srv') (case r of None \<Rightarrow> Inr None
     | Some (eff, srv) \<Rightarrow> bindR (f srv) (\<lambda>r. Inr (map_option (\<lambda>(eff', srv). (eff @ eff', srv)) r)))"
  proof (cases r)
    case (Some p)
    then show ?thesis using r assms(2) [of "snd p"]
      by (auto simp: run_bounded_def split_def split: option.splits intro!: okR_bind [of _ "f (snd p)"])
  qed simp
qed

lemma run_bounded_trans: "bounded a b \<Longrightarrow> run_bounded b m \<Longrightarrow> run_bounded a m"
  unfolding run_bounded_def by (erule okR_mono) (auto split: option.splits intro: bounded_trans)

lemma machine_bounded:
  "okR (\<lambda>r. case r of None \<Rightarrow> True | Some (eff, srv', con') \<Rightarrow> bounded srv srv') (connection_state_machine n env k srv con)"
proof (induction n arbitrary: k srv con)
  case (Suc n)
  have *: "okR (\<lambda>r. case r of None \<Rightarrow> True | Some (eff, srv', con') \<Rightarrow> bounded srv srv')
      (bindR (connection_state_machine n env (k + 1) s c) (\<lambda>r. Inr (map_option (\<lambda>(eff', r). (eff @ eff', r)) r)))"
    if "bounded srv s" for s c eff
    using that by (intro okR_bind [OF Suc.IH]) (auto split: option.splits intro: bounded_trans)
  show ?case unfolding connection_state_machine.simps
    by (rule okR_bind [OF sm_step_bounded]) (auto intro: * split del: if_split intro!: okR_if)
qed simp

lemma run_conn_bounded: "run_bounded srv (run_conn n env srv c)"
  unfolding run_conn_def run_bounded_def
  by (rule okR_bind [OF machine_bounded]) (auto split: option.splits)

lemma accept_bounded: "okR (\<lambda>(eff, srv', c). bounded srv srv') (connection_accept e fd fcntl srv)"
proof (cases "pl_used (cs_pool srv) < cs_max_conns srv \<and> fd \<noteq> None")
  case True
  then obtain cnt where fd: "fd = Some cnt" "pl_used (cs_pool srv) < cs_max_conns srv" by auto
  have p: "okR (\<lambda>(c, p'). pl_used p' = pl_used (cs_pool srv) + 1 \<and> (pool_ok (cs_pool srv) \<longrightarrow> pool_ok p')) (pool_new (cs_pool srv))"
    unfolding okR_def
  proof clarify
    fix c p' assume h: "pool_new (cs_pool srv) = Inr (c, p')"
    then have "pl_used p' = pl_used (cs_pool srv) + 1" by (auto simp: pool_new_def Let_def bindR_eq_Inr split: if_splits)
    then show "pl_used p' = pl_used (cs_pool srv) + 1 \<and> (pool_ok (cs_pool srv) \<longrightarrow> pool_ok p')" using h pool_new_ok by fastforce
  qed
  show ?thesis unfolding connection_accept_def fd(1) Let_def
    apply (rule okR_if, simp)
    apply (simp only: option.case)
    apply (rule okR_bind [OF p], clarify)
    apply (rule okR_bind_any, clarify)
    using fd(2) apply (auto simp: bounded_def)
    done
qed (auto simp: connection_accept_def)

lemma accept_loop_bounded: "run_bounded srv (accept_loop n l m k srv)"
proof (induction m arbitrary: k srv)
  case (Suc m)
  have "run_bounded srv (case con of None \<Rightarrow> Inr (Some (eff, s))
       | Some con \<Rightarrow> let c = cx_id con in then_run (then_run (Inr (Some (eff, s))) (\<lambda>srv. run_conn n (le_env l k) srv c)) (\<lambda>srv.
                accept_loop n l m (k + 1) (put_conn c (le_joblist l (cs_conns srv c)) srv)))" if "bounded srv s" for eff s con
    using that
    by (auto simp: Let_def split: option.split intro!: run_bounded_then run_bounded_trans [OF _ run_conn_bounded] run_bounded_trans [OF _ Suc.IH])
  then show ?case unfolding accept_loop.simps run_bounded_def
    by (intro okR_bind [OF accept_bounded]) (simp only: split_def)
qed simp

lemma visit_bounded: "run_bounded srv (visit_conn n env srv c)"
  unfolding visit_conn_def Let_def split_def
  by (rule run_bounded_then) (auto intro: run_bounded_trans [OF _ run_conn_bounded])

lemma walk_bounded: "run_bounded srv (timeout_walk n env k ndx srv)"
proof (induction k arbitrary: ndx srv)
  case (Suc k)
  have "run_bounded srv (then_run (visit_conn n (env ndx) srv c) (timeout_walk n env k (ndx + 1)))" for c
    by (intro run_bounded_then visit_bounded run_bounded_trans [OF _ Suc.IH])
  then show ?case by (auto simp: run_bounded_def intro!: okR_bind_any)
qed simp

lemma second_bounded: "run_bounded srv (new_second n env min_ts srv)"
  unfolding new_second_def by (auto intro: run_bounded_trans [OF _ walk_bounded])

lemma fdwait_bounded: "run_bounded srv (fdwait_loop n env k srv)"
proof (induction k arbitrary: srv)
  case (Suc k)
  show ?case
  proof (cases "cs_fdwaitqueue srv")
    case (Cons c cs)
    then show ?thesis
      by (auto simp: fdwaitqueue_unshift_def intro!: run_bounded_then run_bounded_trans [OF _ run_conn_bounded] run_bounded_trans [OF _ Suc.IH])
  qed (simp add: fdwaitqueue_unshift_def)
qed simp

lemma job_bounded: "run_bounded srv (job_loop n env hook k ndx srv)"
proof (induction k arbitrary: ndx srv)
  case (Suc k)
  show ?case by (auto simp: Let_def intro!: run_bounded_then run_conn_bounded run_bounded_trans [OF _ Suc.IH])
qed simp

lemma fdevent_bounded: "okR (\<lambda>(eff, srv', con'). bounded srv srv') (connection_handle_fdevent e rv srv con)"
proof -
  have w: "okR (\<lambda>(eff, srv', con'). bounded srv srv') (write_queue e (joblist_append srv con) c)" for c
    by (rule okR_mono [OF write_queue_bounded]) (auto intro: bounded_trans [rotated])
  show ?thesis unfolding connection_handle_fdevent_def Let_def
    apply (rule okR_bind_any, clarify)
    subgoal for eff c
      by (rule okR_bind [where Q = "\<lambda>(eff, srv', con'). bounded srv srv'"]) (auto intro!: okR_if w)
    done
qed

lemma poll_bounded: "run_bounded srv (poll_loop n ps srv)"
proof (induction ps arbitrary: srv)
  case (Cons p ps)
  show ?case
  proof (cases p)
    case (OnListen l rv)
    then show ?thesis
      by (auto simp: network_server_handle_fdevent_def intro!: run_bounded_then accept_loop_bounded run_bounded_trans [OF _ Cons.IH])
  next
    case (OnConn c rv e)
    have "run_bounded srv (then_run (Inr (Some (eff, put_conn c con s))) (poll_loop n ps))" if "bounded srv s" for eff s con
      using that by (auto intro!: run_bounded_then run_bounded_trans [OF _ Cons.IH])
    then show ?thesis unfolding OnConn poll_loop.simps run_bounded_def
      by (intro okR_bind [OF fdevent_bounded]) (simp only: split_def)
  qed
qed simp

lemma turn_bounded:
  "okR (\<lambda>r. case r of None \<Rightarrow> True | Some (eff, srv', ml') \<Rightarrow> bounded srv srv') (main_turn n t (srv, ml))"
proof -
  have b: "run_bounded s (then_run (then_run (serve_fdwait n (tu_fdwait t) s) (poll_loop n (tu_polled t)))
      (job_loop n (tu_jobs t) (tu_joblist t) n 0))" for s
    by (auto simp: serve_fdwait_def intro!: run_bounded_then fdwait_bounded run_bounded_trans [OF _ poll_bounded] run_bounded_trans [OF _ job_bounded])
  have b': "okR (\<lambda>r. case r of None \<Rightarrow> True | Some (eff, srv', ml') \<Rightarrow> bounded srv srv')
      (bindR (then_run (then_run (serve_fdwait n (tu_fdwait t) s) (poll_loop n (tu_polled t)))
        (job_loop n (tu_jobs t) (tu_joblist t) n 0)) (\<lambda>r. Inr (map_option (\<lambda>(eff'', srv). (eff @ eff' @ eff'', srv, m)) r)))"
    if "bounded srv s" for s eff eff' m
    using that by (intro okR_bind [OF b [unfolded run_bounded_def]]) (auto split: option.splits intro: bounded_trans)
  show ?thesis unfolding main_turn_def Let_def prod.case
    apply (rule okR_bind [OF second_bounded [unfolded run_bounded_def]])
    subgoal for r
    proof (cases r)
      case (Some p)
      obtain eff s where p: "p = (eff, s)" by (cases p)
      obtain eff' m where m: "switch_sockets (tu_graceful t) s ml = (eff', m)" by (cases "switch_sockets (tu_graceful t) s ml")
      assume "case r of None \<Rightarrow> True | Some (eff, srv') \<Rightarrow> bounded srv srv'"
      then have "bounded srv s" using Some p by simp
      then show ?thesis unfolding Some option.case p prod.case m by (rule b')
    qed simp
    done
qed

lemma main_loop_bounded:
  "okR (\<lambda>r. case r of None \<Rightarrow> True | Some (eff, srv', ml') \<Rightarrow> bounded srv srv') (main_loop n ts (srv, ml))"
proof (induction ts arbitrary: srv ml)
  case (Cons t ts)
  have *: "okR (\<lambda>r. case r of None \<Rightarrow> True | Some (eff, srv', ml') \<Rightarrow> bounded srv srv')
      (bindR (main_loop n ts (s, m)) (\<lambda>r. Inr (map_option (\<lambda>(eff', s). (eff @ eff', s)) r)))" if "bounded srv s" for s m eff
    using that by (intro okR_bind [OF Cons.IH]) (auto split: option.splits intro: bounded_trans)
  show ?case unfolding main_loop.simps
    apply (rule okR_if, simp)
    apply (rule okR_bind [OF turn_bounded])
    subgoal for r by (cases r) (auto intro: *)
    done
qed simp

text \<open>
  C37. However many turns the main loop takes, whatever the clients, the clock and the handlers do, the table
  of connections stays sound and within its limit.
\<close>

theorem connections_stay_within_limit:
  assumes "main_loop n ts (srv, ml) = Inr (Some (eff, srv', ml'))" "pool_ok (cs_pool srv)" "pl_used (cs_pool srv) \<le> cs_max_conns srv"
  shows "cs_max_conns srv' = cs_max_conns srv \<and> pool_ok (cs_pool srv') \<and> pl_used (cs_pool srv') \<le> cs_max_conns srv' \<and>
    card (pool_open (cs_pool srv')) \<le> cs_max_conns srv'"
proof -
  have b: "bounded srv srv'" using okR_D [OF main_loop_bounded assms(1)] by simp
  have "card (pool_open (cs_pool srv')) \<le> length (take (pl_used (cs_pool srv')) (pl_ptr (cs_pool srv')))"
    unfolding pool_open_def by (rule card_length)
  then show ?thesis using b assms(2,3) by (auto simp: bounded_def)
qed

section \<open>Connections that are overdue\<close>

lemma connect_keeps_server:
  assumes "cx_state con = CON_STATE_CONNECT" "connection_state_machine n env k srv con = Inr (Some (eff, srv', con'))"
  shows "srv' = srv"
proof (cases n)
  case (Suc m)
  then show ?thesis using assms by (auto simp: sm_step_def sm_connect_def bindR_eq_Inr)
qed (use assms in simp)

text \<open>A server that has closed connection \<open>c\<close> and nothing else of the table.\<close>

definition same_rest :: "csrv \<Rightarrow> csrv \<Rightarrow> bool" where
  "same_rest srv srv' \<longleftrightarrow> cs_conns srv' = cs_conns srv \<and> cs_cur_ts srv' = cs_cur_ts srv \<and> cs_joblist srv' = cs_joblist srv \<and>
     cs_want_fds srv' = cs_want_fds srv"

definition closed_from :: "csrv \<Rightarrow> nat \<Rightarrow> csrv \<Rightarrow> bool" where
  "closed_from srv c srv' \<longleftrightarrow> (\<exists>r. connection_del (cs_pool srv) c = Inr (r, cs_pool srv')) \<and> same_rest srv srv'"

lemma close_closed: "connection_close srv con = Inr (eff, srv', con') \<Longrightarrow> closed_from srv (cx_id con) srv'"
  by (auto simp: connection_close_def bindR_eq_Inr closed_from_def same_rest_def)

lemma close_run:
  assumes "cx_state con = CON_STATE_CLOSE" "\<not> keeps_alive con" "1 < cs_cur_ts srv"
    "connection_state_machine n env k srv con = Inr (Some (eff, srv', con'))"
  shows "closed_from srv (cx_id con) srv'"
proof (cases n)
  case (Suc m)
  obtain eff1 again s1 c1 where st: "sm_close (env k) srv con = Inr (eff1, again, s1, c1)"
    using assms(1,4) Suc by (auto simp: sm_step_def bindR_eq_Inr)
  have c: "cx_state c1 = CON_STATE_CONNECT" using close_step(3) [OF st assms(1-3)] by simp
  obtain eff2 where "connection_state_machine m env (k + 1) s1 c1 = Inr (Some (eff2, srv', con'))"
    using assms(1,4) Suc st c by (auto simp: sm_step_def bindR_eq_Inr)
  then have "srv' = s1" using c connect_keeps_server by blast
  moreover have "connection_close srv (con\<lparr>cx_close_timeout_ts := 0\<rparr>) = Inr (eff1, s1, c1)"
    using st assms(2,3) by (auto simp: sm_close_def Let_def bindR_eq_Inr split: if_splits)
  ultimately show ?thesis using close_closed by fastforce
qed (use assms in simp)

lemma error_step_closes:
  assumes "hooks_ok e" "sm_error e srv con = Inr (eff, again, srv', con')"
  shows "cx_state con' = CON_STATE_CLOSE \<and> cs_pool srv' = cs_pool srv \<and> same_rest srv srv' \<or>
    cx_state con' = CON_STATE_CONNECT \<and> closed_from srv (cx_id con) srv'"
proof -
  define c0 where "c0 = (if cn_http_status (cx_req con) \<noteq> 0 then se_request_done e con else con)"
  define c1 where "c1 = (if cx_mode c0 = DIRECT then c0 else se_connection_close e c0)"
  have "leaves con c0" "leaves c0 c1" using assms(1) by (auto simp: hooks_ok_def c0_def c1_def)
  then have l: "cx_id c1 = cx_id con" by (auto simp: leaves_simps)
  obtain eff1 c2 eff2 s3 c3 where r: "connection_reset e srv c1 = Inr (eff1, c2)"
      and m: "(if keeps_alive c2 \<and> se_shutdown e
                then Inr ([], srv, connection_set_state (c2\<lparr>cx_close_timeout_ts := cs_cur_ts srv\<rparr>) CON_STATE_CLOSE)
                else connection_close srv c2) = Inr (eff2, s3, c3)"
      and f: "srv' = s3\<lparr>cs_con_closed := cs_con_closed s3 + 1\<rparr>" "con' = set_keep_alive c3 False"
    using assms(2) unfolding sm_error_def Let_def c0_def [symmetric] c1_def [symmetric] by (auto simp: bindR_eq_Inr)
  have id: "cx_id c2 = cx_id con" using reset_keeps(2) [OF assms(1) r] l by simp
  have "cx_state c3 = CON_STATE_CLOSE \<and> s3 = srv \<or> cx_state c3 = CON_STATE_CONNECT \<and> closed_from srv (cx_id con) s3"
    using m id close_closed [of srv c2 eff2 s3 c3] close_spec [of srv c2 eff2 s3 c3] by (auto split: if_splits)
  then show ?thesis using f by (auto simp: set_keep_alive_def closed_from_def same_rest_def)
qed

lemma error_run:
  assumes "cx_state con = CON_STATE_ERROR" "\<forall>j. hooks_ok (env j)" "1 < cs_cur_ts srv"
    "connection_state_machine n env k srv con = Inr (Some (eff, srv', con'))"
  shows "closed_from srv (cx_id con) srv'"
proof (cases n)
  case (Suc m)
  have e: "hooks_ok (env k)" using assms(2) by simp
  obtain eff1 again s1 c1 where st: "sm_error (env k) srv con = Inr (eff1, again, s1, c1)"
    using assms(1,4) Suc by (auto simp: sm_step_def bindR_eq_Inr)
  note c = error_step [OF e st] and d = error_step_closes [OF e st]
  have "cx_state c1 \<noteq> CON_STATE_ERROR" using c(2) by auto
  then obtain eff2 where r: "connection_state_machine m env (k + 1) s1 c1 = Inr (Some (eff2, srv', con'))"
    using assms(1,4) Suc st by (auto simp: sm_step_def bindR_eq_Inr)
  from d show ?thesis
  proof
    assume h: "cx_state c1 = CON_STATE_CLOSE \<and> cs_pool s1 = cs_pool srv \<and> same_rest srv s1"
    then have "closed_from s1 (cx_id c1) srv'" using close_run [OF _ c(3) _ r] assms(3) by (simp add: same_rest_def)
    then show ?thesis using h c(5) by (simp add: closed_from_def same_rest_def)
  next
    assume "cx_state c1 = CON_STATE_CONNECT \<and> closed_from srv (cx_id con) s1"
    then show ?thesis using connect_keeps_server [OF _ r] by simp
  qed
qed (use assms in simp)

definition overdue :: "int \<Rightarrow> connection \<Rightarrow> bool" where
  "overdue now con \<longleftrightarrow> read_timeout now con \<or> write_timeout now con"

lemma check_overdue:
  assumes "overdue now con" "check_conn now con = (b, con')"
  shows "b" "cx_state con' = CON_STATE_ERROR" "cx_fd con' = cx_fd con" "cx_id con' = cx_id con" "clean_conn con' = clean_conn con"
proof -
  define late where "late = read_timeout now con"
  define c1 where "c1 = (if late then connection_set_state con CON_STATE_ERROR else con)"
  define stuck where "stuck = write_timeout now c1"
  define c2 where "c2 = (if stuck then connection_set_state c1 CON_STATE_ERROR else c1)"
  have o: "late \<or> stuck" using assms(1) by (auto simp: overdue_def late_def stuck_def c1_def)
  then have c2: "cx_state c2 = CON_STATE_ERROR" "cx_fd c2 = cx_fd con" "cx_id c2 = cx_id con" by (auto simp: c2_def c1_def)
  have cl: "clean_conn c2 = clean_conn con" by (simp add: c2_def c1_def clean_conn_def connection_set_state_def)
  define t_diff where "t_diff = (if now - cx_connection_start c2 = 0 then 1 else now - cx_connection_start c2)"
  define free where "free = (cx_traffic_limit_reached c2 \<and>
                  (cx_kbytes_per_second c2 = 0 \<or> c_quot (cx_bytes_written c2) t_diff < cx_kbytes_per_second c2 * 1024))"
  have "(late \<or> stuck \<or> free, if free then c2\<lparr>cx_traffic_limit_reached := False\<rparr> else c2) = (b, con')"
    using assms(2) unfolding check_conn_def Let_def late_def c1_def stuck_def c2_def t_diff_def free_def by assumption
  then have "b = (late \<or> stuck \<or> free)" "con' = (if free then c2\<lparr>cx_traffic_limit_reached := False\<rparr> else c2)" by simp_all
  then show "b" "cx_state con' = CON_STATE_ERROR" "cx_fd con' = cx_fd con" "cx_id con' = cx_id con" "clean_conn con' = clean_conn con"
    using o c2 cl by (auto simp: clean_conn_def)
qed

lemma visit_overdue:
  assumes "overdue (cs_cur_ts srv) (cs_conns srv c)" "\<forall>j. hooks_ok (env j)" "1 < cs_cur_ts srv" "cx_id (cs_conns srv c) = c"
    "visit_conn n env srv c = Inr (Some (eff, srv'))"
  shows "cx_state (cs_conns srv' c) = CON_STATE_CONNECT" "CloseSocket (cx_fd (cs_conns srv c)) \<in> set eff"
    "\<exists>r. connection_del (cs_pool srv) c = Inr (r, cs_pool srv')" "\<forall>d. d \<noteq> c \<longrightarrow> cs_conns srv' d = cs_conns srv d"
    "cs_joblist srv' = cs_joblist srv" "cs_want_fds srv' = cs_want_fds srv"
proof -
  obtain b con where k: "check_conn (cs_cur_ts srv) (cs_conns srv c) = (b, con)" by (cases "check_conn (cs_cur_ts srv) (cs_conns srv c)")
  note k' = check_overdue [OF assms(1) k]
  obtain s1 c1 where m: "connection_state_machine n env 0 (put_conn c con srv) con = Inr (Some (eff, s1, c1))"
      and s: "srv' = (put_conn c (c1\<lparr>cx_bytes_written_cur_second := 0\<rparr>) s1)\<lparr>cs_global_bytes := 0\<rparr>"
    using assms(5) k k'(1) by (auto simp: visit_conn_def then_run_def run_conn_def bindR_eq_Inr put_conn_def split: option.splits)
  have ts: "1 < cs_cur_ts (put_conn c con srv)" using assms(3) by (simp add: put_conn_def)
  have "cx_state c1 = CON_STATE_CONNECT" "CloseSocket (cx_fd con) \<in> set eff" using error_machine_closes [OF k'(2) assms(2) ts m] by simp_all
  then show "cx_state (cs_conns srv' c) = CON_STATE_CONNECT" "CloseSocket (cx_fd (cs_conns srv c)) \<in> set eff"
    using s k'(3) by (simp_all add: put_conn_def)
  have "closed_from (put_conn c con srv) c s1" using error_run [OF k'(2) assms(2) ts m] k'(4) assms(4) by simp
  then show "\<exists>r. connection_del (cs_pool srv) c = Inr (r, cs_pool srv')" "\<forall>d. d \<noteq> c \<longrightarrow> cs_conns srv' d = cs_conns srv d"
    "cs_joblist srv' = cs_joblist srv" "cs_want_fds srv' = cs_want_fds srv"
    using s by (auto simp: closed_from_def same_rest_def put_conn_def)
qed

lemma visit_on_time:
  assumes "\<not> overdue (cs_cur_ts srv) (cs_conns srv c)" "\<not> cx_traffic_limit_reached (cs_conns srv c)"
  shows "visit_conn n env srv c = Inr (Some ([], srv\<lparr>cs_conns := (cs_conns srv)(c := (cs_conns srv c)\<lparr>cx_bytes_written_cur_second := 0\<rparr>),
    cs_global_bytes := 0\<rparr>))"
  using assms by (simp add: visit_conn_def check_conn_def overdue_def Let_def then_run_def put_conn_def)

lemma visit_runs:
  assumes "overdue (cs_cur_ts srv) (cs_conns srv c)" "clean_conn (cs_conns srv c)" "cx_id (cs_conns srv c) = c"
    "connection_del (cs_pool srv) c = Inr (r, p)"
  shows "\<exists>eff srv'. visit_conn 2 (\<lambda>_. env_quiet) srv c = Inr (Some (eff, srv'))"
proof -
  obtain b con where k: "check_conn (cs_cur_ts srv) (cs_conns srv c) = (b, con)" by (cases "check_conn (cs_cur_ts srv) (cs_conns srv c)")
  note k' = check_overdue [OF assms(1) k]
  have "connection_del (cs_pool (put_conn c con srv)) (cx_id con) = Inr (r, p)" using assms(3,4) k'(4) by (simp add: put_conn_def)
  from error_machine_runs [OF k'(2) _ this] obtain eff s1 c1
    where "connection_state_machine 2 (\<lambda>_. env_quiet) 0 (put_conn c con srv) con = Inr (Some (eff, s1, c1))"
    using k'(5) assms(2) by blast
  then show ?thesis using k k'(1) by (auto simp: visit_conn_def then_run_def run_conn_def put_conn_def)
qed


definition con_late :: "nat \<Rightarrow> connection" where
  "con_late i = (connection_init conf_plain [] i)\<lparr>cx_state := CON_STATE_READ, cx_fd := 5 + int i\<rparr>"

definition srv_two :: csrv where
  "srv_two = srv_small\<lparr>cs_pool := \<lparr>pl_ptr = [0, 1], pl_used = 2, pl_ndx = (\<lambda>_. -1)(0 := 0, 1 := 1)\<rparr>, cs_conns := con_late\<rparr>"

lemma srv_two_facts:
  "pool_ok (cs_pool srv_two)" "cs_cur_ts srv_two = 100" "cs_conns srv_two = con_late" "pl_ptr (cs_pool srv_two) = [0, 1]" "pl_used (cs_pool srv_two) = 2"
  "cx_id (con_late i) = i" "cx_fd (con_late i) = 5 + int i" "clean_conn (con_late i)" "overdue 100 (con_late i)" "\<not> cx_traffic_limit_reached (con_late i)"
proof -
  have "(\<forall>i < (2 :: nat). pl_ndx (cs_pool srv_two) ([0, 1] ! i) = int i)" by (auto simp: less_2_cases_iff srv_two_def)
  then show "pool_ok (cs_pool srv_two)" by (auto simp: pool_ok_def srv_two_def)
  show "cs_cur_ts srv_two = 100" "cs_conns srv_two = con_late" "pl_ptr (cs_pool srv_two) = [0, 1]" "pl_used (cs_pool srv_two) = 2"
    by (simp_all add: srv_two_def srv_small_def)
  show "cx_id (con_late i) = i" "cx_fd (con_late i) = 5 + int i" "\<not> cx_traffic_limit_reached (con_late i)"
    by (simp_all add: con_late_def connection_init_def config_setup_connection_def)
  show "clean_conn (con_late i)"
    by (simp add: con_late_def clean_conn_def connection_init_def config_setup_connection_def req_zero_def chunkqueue_set_tempdirs_def chunkqueue_init_def)
  show "overdue 100 (con_late i)"
    by (simp add: overdue_def read_timeout_def con_late_def connection_init_def config_setup_connection_def req_zero_def conf_plain_def)
qed

lemma visit_two: "\<exists>eff srv'. visit_conn 2 (\<lambda>_. env_quiet) srv_two 0 = Inr (Some (eff, srv'))"
proof -
  have "\<exists>p. connection_del (cs_pool srv_two) 0 = Inr (0, p)"
    using pool_del_ok [OF srv_two_facts(1), of 0] by (auto simp: pool_open_def srv_two_facts)
  then show ?thesis using visit_runs [of srv_two 0] by (auto simp: srv_two_facts)
qed


section \<open>The connection that is skipped\<close>

lemma del_two:
  assumes "pool_ok p" "pl_used p = 2" "connection_del p (pl_ptr p ! 0) = Inr (r, p')"
  shows "pl_used p' = 1" "pool_open p' = {pl_ptr p ! 1}"
proof -
  have l: "2 \<le> length (pl_ptr p)" "distinct (pl_ptr p)" "pl_ndx p (pl_ptr p ! 0) = 0" using assms(1,2) by (auto simp: pool_ok_def)
  have o: "pool_open p = {pl_ptr p ! 0, pl_ptr p ! 1}"
    using l(1) assms(2) by (cases "pl_ptr p"; cases "tl (pl_ptr p)") (auto simp: pool_open_def)
  have "pl_ptr p ! 0 \<noteq> pl_ptr p ! 1" using l by (subst nth_eq_iff_index_eq) auto
  then show "pool_open p' = {pl_ptr p ! 1}" using pool_del_ok [OF assms(1), of "pl_ptr p ! 0"] o assms(3) by auto
  show "pl_used p' = 1" using assms(2,3) l(3) by (auto simp: connection_del_def Let_def bindR_eq_Inr split: if_splits)
qed


lemma walk_two:
  "\<exists>eff srv'. timeout_walk 2 (\<lambda>_ _. env_quiet) 2 0 srv_two = Inr (Some (eff, srv')) \<and> cs_joblist srv' = [] \<and> cs_want_fds srv' = 0"
proof -
  obtain eff s1 where v: "visit_conn 2 (\<lambda>_. env_quiet) srv_two 0 = Inr (Some (eff, s1))" using visit_two by blast
  note o = visit_overdue(3,5,6) [OF _ _ _ _ v]
  have "\<exists>r. connection_del (cs_pool srv_two) 0 = Inr (r, cs_pool s1)" "cs_joblist s1 = []" "cs_want_fds s1 = 0"
    using o env_quiet_ok by (simp_all add: srv_two_facts) (simp_all add: srv_two_def srv_small_def)
  then have "pl_used (cs_pool s1) = 1" using del_two(1) [OF srv_two_facts(1)] by (auto simp: srv_two_facts)
  then show ?thesis using v \<open>cs_joblist s1 = []\<close> \<open>cs_want_fds s1 = 0\<close> by (simp add: numeral_2_eq_2 srv_two_facts get_at_def then_run_def)
qed


section \<open>A turn\<close>

definition turn_idle :: turn_env where
  "turn_idle = \<lparr>tu_now = 100, tu_graceful = False, tu_second = (\<lambda>_ _. env_quiet), tu_fdwait = (\<lambda>_ _. env_quiet), tu_polled = [],
     tu_jobs = (\<lambda>_ _. env_quiet), tu_joblist = (\<lambda>c. c)\<rparr>"

definition ml_start :: mainloop where
  "ml_start = \<lparr>ml_sockets_disabled = False, ml_srv_sockets = [3], ml_pid_file = [], ml_changeroot = [], ml_shutdown = False\<rparr>"

theorem connections_stay_within_limit_witness:
  "\<exists>eff srv' ml'. main_loop 2 [turn_idle] (srv_two\<lparr>cs_cur_ts := 99\<rparr>, ml_start) = Inr (Some (eff, srv', ml')) \<and>
     pl_used (cs_pool srv') \<le> 10 \<and> pool_ok (cs_pool srv')"
proof -
  let ?s = "srv_two\<lparr>cs_cur_ts := 99\<rparr>"
  obtain eff s where w: "timeout_walk 2 (\<lambda>_ _. env_quiet) 2 0 srv_two = Inr (Some (eff, s))" "cs_joblist s = []" "cs_want_fds s = 0"
    using walk_two by blast
  have ts: "srv_two\<lparr>cs_cur_ts := 100\<rparr> = srv_two" by (simp add: srv_two_def srv_small_def)
  have n: "new_second 2 (tu_second turn_idle) (tu_now turn_idle) ?s = Inr (Some (eff, s))"
    by (simp add: new_second_def turn_idle_def srv_two_facts) (simp only: ts w(1))
  have p: "then_run (then_run (serve_fdwait 2 (tu_fdwait turn_idle) s) (poll_loop 2 (tu_polled turn_idle)))
      (job_loop 2 (tu_jobs turn_idle) (tu_joblist turn_idle) 2 0) = Inr (Some ([], s\<lparr>cs_joblist := []\<rparr>))"
    using w(2,3) by (simp add: serve_fdwait_def then_run_def turn_idle_def numeral_2_eq_2)
  have "\<exists>eff srv' ml'. main_loop 2 [turn_idle] (?s, ml_start) = Inr (Some (eff, srv', ml'))"
    using n p by (simp add: main_turn_def ml_start_def Let_def split_def)
  then obtain eff1 srv' ml' where m: "main_loop 2 [turn_idle] (?s, ml_start) = Inr (Some (eff1, srv', ml'))" by blast
  have "cs_max_conns ?s = 10" by (simp add: srv_two_def srv_small_def)
  then show ?thesis using connections_stay_within_limit [OF m] m by (auto simp: srv_two_facts)
qed

section \<open>A full table\<close>

text \<open>
  With the table full, an event on a listening socket is left unanswered and the sockets stay enabled: the
  test in \<open>disable_sockets\<close> asks for more connections than there can be.
\<close>

lemma full_table_keeps_listening:
  assumes "pl_used (cs_pool srv) = cs_max_conns srv" "10 * (cs_cur_fds srv + cs_want_fds srv) \<le> 9 * cs_max_fds srv" "\<not> ml_sockets_disabled ml"
  shows "network_server_handle_fdevent n l rv_readable srv = (HANDLER_GO_ON, Inr (Some ([], srv)))" "switch_sockets False srv ml = ([], ml)"
proof -
  have "accept_loop n l (Suc m) k srv = Inr (Some ([], srv))" for m k
    unfolding accept_loop.simps using assms(1) by (simp add: connection_accept_def)
  then have "accept_loop n l 100 0 srv = Inr (Some ([], srv))" unfolding numeral_eq_Suc by blast
  then show "network_server_handle_fdevent n l rv_readable srv = (HANDLER_GO_ON, Inr (Some ([], srv)))"
    unfolding network_server_handle_fdevent_def by simp
  show "switch_sockets False srv ml = ([], ml)" using assms by (simp add: switch_sockets_def disable_sockets_def)
qed

end
