(* ===== verification/Spec2Isabelle.thy ===== *)
theory Spec2Isabelle
  imports Admission Protocol Token_Check Lt_Text Lt_Splay Lt_Chunk_Facts Lt_Md5
    Lt_Keyvalue Lt_Request_Round Lt_Conn_Write Lt_Server_Facts
begin

text \<open>
  WebQ protects a web application from overload by giving every user a waiting time. Three programs
  work together:

  \<^item> \<^bold>\<open>TokenGen\<close> (\<open>src/TokenGen/src\<close>), several FastCGI proxies. Each answers a request with a redirect that the
    browser follows after some seconds; the seconds are booked in a ring of 1000 counters so that no
    second gets more requests than the proxy's share of the server's capacity.
  \<^item> \<^bold>\<open>Controller\<close> (\<open>src/Controller/src\<close>), a primary and a backup. The primary collects the incoming rates
    of the TokenGens, splits the capacity among them and sends heartbeats to the backup, which asks
    the TokenGens for their votes when the heartbeats stop.
  \<^item> \<^bold>\<open>TokenCheck\<close> (\<open>src/TokenCheck/lighttpd\<close>), a lighttpd in front of the application with hooks in
    \<open>mod_status.c\<close> and \<open>btp.h\<close> that look at the token and report arrivals and departures.

  \<^bold>\<open>Theories.\<close> \<open>Webq_Prelude\<close>: results with faults (\<open>'a res\<close>, every crash, overrun, \<open>exit\<close> or read of an
  uninitialised variable of the C code is a value of \<open>fault\<close>), wrapping integers, the C string
  routines the sources use. \<open>C_Float\<close>: rounding to single precision on rationals. \<open>Wire\<close>: integers as
  bytes, sockets as lists of segments, the answers of the network as the record \<open>netenv\<close>.

  \<^item> \<open>Stat_Queue\<close> models \<open>queue.h\<close>: nodes in a heap, every operation; the lemmas show it refines a
    list, and that \<open>push_back\<close> keeps a window with correct totals.
  \<^item> \<open>Shared_Vars\<close> models \<open>functions.h\<close>: tokens, their keyed hash, the updates of shared variables. The
    two copies of the file are the same text; OpenSSL's HMAC is a parameter.
  \<^item> \<open>Config_Parser\<close> models both \<open>parser.h\<close>; the bytes \<open>malloc\<close> provides are a parameter.
  \<^item> \<open>Token_Gen\<close> models the globals, start-up and request loop of TokenGen's \<open>proxy1.c\<close> and the per-second
    \<open>log_data\<close> of \<open>timer.h\<close>. \<open>Wait_Slots\<close> states the interface of a queue of seconds as a locale with its
    consequences, \<open>Token_Gen_Slots\<close> interprets it on the ring, \<open>Admission\<close> draws the conclusions for
    TokenGen: no second over the share, first free second, order of arrival, bursts, full ring.
  \<^item> \<open>Token_Gen_Net\<close> models TokenGen's senders, message handlers, listening socket and timer.
  \<^item> \<open>Capacity_Share\<close> models the Controller's globals and \<open>calcSoc\<close>; the lemmas bound the rounding errors.
  \<^item> \<open>Controller\<close> models the messages, senders, log and start-up of the Controller, \<open>Controller_Thread\<close> its
    thread \<open>controller\<close> with \<open>timer_fn\<close>, \<open>timeout\<close> and \<open>switch_controller\<close> as a machine whose steps
    interleave with message handlers. \<open>Election\<close> proves the invariants (shape of the state, votes
    counted, acknowledgements), \<open>Takeover\<close> the properties of elections; the ballot is a locale
    there, interpreted on the Controller.
  \<^item> \<open>Protocol\<close> relates what one program writes to what the other reads; the present theory composes
    them: reports, shares, votes, acknowledgements, failover and the capacity of the whole system.
  \<^item> \<open>Token_Check\<close> models \<open>btp.h\<close> and the hooks of \<open>mod_status.c\<close>.
  \<^item> \<open>Lt_Buffer\<close> and \<open>Lt_Codec\<close> model \<open>buffer.c\<close>, the string layer of the web server, down to the bytes of
    each block; \<open>Lt_Path\<close>, \<open>Lt_Codec_Facts\<close> and \<open>Lt_Text\<close> show that appends stay in bounds, that paths are
    simplified, URIs decoded to what was encoded, numbers printed in decimal. \<open>Lt_Splay\<close> models
    \<open>splaytree.c\<close> and shows that it implements a finite map.
  \<^item> \<open>Lt_Chunk\<close> models \<open>chunk.c\<close>, the queues of memory and file chunks a response waits in, and the chunked
    transfer encoding of \<open>http_chunk.c\<close>; \<open>Lt_Chunk_Facts\<close> decodes what was encoded and shows which bytes
    the removal of sent chunks keeps. \<open>Lt_Md5\<close> models \<open>md5.c\<close> and compares feeding in pieces with the digest
    of the whole message, including a test vector of RFC 1321.
  \<^item> \<open>Lt_Array\<close> models \<open>array.c\<close> with strings, counters and integers as elements (\<open>data_string.c\<close>,
    \<open>data_count.c\<close>, \<open>data_integer.c\<close>), down to the index that is searched by halving steps. \<open>Lt_Array_Facts\<close>
    states what the search needs of a comparison as a locale, interprets it on the caseless comparison
    for keys without the six characters between the two alphabets, and shows that the array implements
    a table without case.
  \<^item> \<open>Lt_Keyvalue\<close> models the tables and lookups of \<open>keyvalue.c\<close>, \<open>Lt_Host\<close> the check of host names and
    \<open>Lt_Request\<close> the rest of \<open>request.c\<close>: request line, header lines with folding, the actions of the eight
    known headers, the checks at the end. The pointers into the header values are symbolic, so that one
    that outlives its element is seen. \<open>Lt_Request_Facts\<close> collects what each part keeps,
    \<open>Lt_Request_Round\<close> writes a request and reads it back.
  \<^item> \<open>Lt_Conn_Read\<close> and \<open>Lt_Conn\<close> model \<open>connections.c\<close>: the read from a client, the search for the end of the header
    in the read queue, the collection of bodies, the table of connections, the response with its error
    pages and header (\<open>response.c\<close>, \<open>http-header-glue.c\<close>), the jobs (\<open>joblist.c\<close>) and the state machine with one
    definition per state. \<open>Lt_Conn_Read_Facts\<close> shows where headers and bodies are cut and that nothing
    behind them is lost; \<open>Lt_Conn_Facts\<close> states what a table of connections promises as a locale and
    interprets it on the code; \<open>Lt_Conn_Machine\<close> shows in which states the machine rests and that errors
    close, \<open>Lt_Conn_Loop\<close> that it ends.
  \<^item> \<open>Lt_Net\<close> models the three ways of writing a queue to a socket on Linux (\<open>network_write.c\<close>,
    \<open>network_writev.c\<close>, \<open>network_linux_sendfile.c\<close>) and the choice among them (\<open>network.c\<close>). \<open>Lt_Net_Facts\<close> states
    what a connection relies on as the locale \<open>backend\<close>, and as \<open>live_backend\<close> what makes it end, and interprets
    them on the three: whatever the socket takes in each call, the client gets the bytes of the queue in
    their order. \<open>Lt_Conn_Write\<close> carries this to connections: a response whose socket keeps becoming writable
    reaches its client whole.
  \<^item> \<open>Lt_Server\<close> models the main loop of \<open>server.c\<close> and the handler of the listening sockets in \<open>network.c\<close>: timeouts,
    the switch of the listening sockets, waiting descriptors, events, jobs. \<open>Lt_Server_Facts\<close> shows, with
    rules that take an operation apart along \<open>bindR\<close>, that the table of connections stays sound and within its
    limit, that overdue connections are closed, and which one the walk over the table misses.

  \<^bold>\<open>Time, threads and loops.\<close> An operation under the lock of \<open>functions.h\<close> is one step. A TokenGen is a
  sequence of arrivals, seconds and share messages; the Controller's thread stops between any two
  points where it sleeps, polls or turns a loop, and messages arrive there. Endless loops that
  send are given by the outcomes of the turns observed; loops that read end with their input and are
  proved to terminate. Fuel is in three places: \<open>display\<close>, whose walk along the list is bounded by a number of
  steps; \<open>connection_state_machine\<close>, whose loop depends on the answers of handlers, where \<open>machine_ends\<close> shows that
  20 turns for each byte that is waiting or still to come are enough; and \<open>job_loop\<close>, whose list grows while it
  is worked through. The main loop is given by the answers in each of its turns.

  \<^bold>\<open>Numbers.\<close> C integers are \<open>int\<close> with the wrap-around written out or words of their width; \<open>float\<close> is a
  rational rounded to 24 bits, without the limits of the exponent, which no rate or capacity that
  fits an \<open>int\<close> reaches. The \<open>double\<close> counters of \<open>mod_status\<close> and hardness values hold whole numbers only
  and are integers.

  \<^bold>\<open>Not modelled.\<close> The rest of lighttpd (start-up and signals of \<open>server.c\<close>, plugins, event handlers, parser
  generator): third-party code around descriptors and processes. Of the code that the connections call, \<open>http_response_prepare\<close>
  behind its first test, the hooks of plugins, the system calls and the cache of file attributes are
  parameters; the OpenSSL build is left out, and so are the setup of listening sockets and \<open>TCP_CORK\<close>. Arrays inside arrays and the conditional parts of the configuration; the
  table of regular expressions in \<open>keyvalue.c\<close>. Log messages of the web server. The capacity estimator (Java), load scripts and PHP pages. Debug output
  (\<open>printValues\<close>, \<open>debug_printf\<close>), libevent's dispatch, the HTML pages and the configuration of
  \<open>mod_status\<close>, globals that are written and never read. A failing \<open>pthread_create\<close> or \<open>malloc\<close>.
\<close>

section \<open>A small system for concrete runs\<close>

text \<open>Controller 1 as primary of two TokenGens, and a TokenGen \<open>i\<close> that follows controller \<open>ctl\<close>.\<close>

definition ct_primary :: controller where
  "ct_primary = ct_backup\<lparr>ct_id := 1, ct_capacity := 720, ct_incomingR := [30, 60, 0, 0, 0], ct_soc := [240, 480, 1, 1, 1]\<rparr>"

definition tg_peer :: "int \<Rightarrow> int \<Rightarrow> tokengen" where
  "tg_peer i ctl = (tg_started 2)\<lparr>tg_myId := i, tg_id := ctl, tg_incoming := 40,
     tg_cfg := cfg_init\<lparr>cf_ip_controller := [Some ''10.0.0.2'', Some ''10.0.0.3'']\<rparr>\<rparr>"

definition te_at :: "int \<Rightarrow> tg_env" where
  "te_at t = \<lparr>te_now = t, te_net = net_ok, te_fopen = True\<rparr>"

lemma ct_primary_facts: "ct_inv ct_primary" "ct_id ct_primary = 1" "ct_myId ct_primary = 1" "ct_n ct_primary = 2"
  "ct_incomingR ct_primary = [30, 60, 0, 0, 0]" "ct_capacity ct_primary = 720" "ct_soc ct_primary = [240, 480, 1, 1, 1]"
  using ct_backup_ready by (simp_all add: ct_primary_def ct_backup_simps ct_inv_def PEERS_def)

lemma tg_peer_facts: "tg_myId (tg_peer i ctl) = i" "tg_id (tg_peer i ctl) = ctl" "tg_incoming (tg_peer i ctl) = 40"
  "tg_knows 1 (tg_peer i ctl)" "cf_ip_controller (tg_cfg (tg_peer i ctl)) = [Some ''10.0.0.2'', Some ''10.0.0.3'']"
  by (simp_all add: tg_peer_def tg_knows_def)

section \<open>Rates and shares\<close>

text \<open>
  C10. A rate reported by a TokenGen reaches the Controller unchanged: one turn of TokenGen's sender,
  read by the Controller's \<open>readFromClient\<close>, stores the rate under the sender's id, and a primary
  has recomputed every share from it when the read returns.
\<close>

theorem report_reaches_controller:
  assumes "ct_inv c" "0 \<le> tg_myId t" "tg_myId t < int PEERS" "int32 (tg_incoming t)" "\<And>j. w j"
    and "tg_write_iter w t = (go, out, t')"
  shows "\<exists>c'. ct_readFromClient env k out c = Inr ([], c') \<and>
    ct_incomingR c' = (ct_incomingR c)[nat (tg_myId t) := tg_incoming t] \<and>
    (ct_id c = ct_myId c \<longrightarrow> take (nat (ct_n c)) (ct_soc c') =
       soc_list (ct_capacity c) (take (nat (ct_n c)) (ct_incomingR c')))"
proof -
  have o: "out = report t" using assms(6) tg_write_iter_report [of w, OF assms(5)] by simp
  have n: "nat (ct_n c) \<le> PEERS" "length (ct_incomingR c) = PEERS" using assms(1) by (auto simp: ct_inv_def)
  have "length (soc_list (ct_capacity c) (take (nat (ct_n c)) ((ct_incomingR c)[nat (tg_myId t) := tg_incoming t]))) =
      nat (ct_n c)" using n by simp
  with report_read [OF assms(1-4)] o show ?thesis by (simp add: ct_take_rate_def Let_def)
qed

theorem report_reaches_controller_witness:
  "\<exists>c'. ct_readFromClient (\<lambda>_. env_at 5) 0 (report (tg_peer 1 1)) ct_primary = Inr ([], c') \<and>
     ct_incomingR c' = [30, 40, 0, 0, 0] \<and> take 2 (ct_soc c') = soc_list 720 [30, 40]"
proof -
  have w: "tg_write_iter (\<lambda>_. True) (tg_peer 1 1) =
      (True, report (tg_peer 1 1), (tg_peer 1 1)\<lparr>tg_numbytes := wrap32 (tg_numbytes (tg_peer 1 1) + 4)\<rparr>)"
    by (rule tg_write_iter_report) simp
  have "\<exists>c'. ct_readFromClient (\<lambda>_. env_at 5) 0 (report (tg_peer 1 1)) ct_primary = Inr ([], c') \<and>
      ct_incomingR c' = (ct_incomingR ct_primary)[nat (tg_myId (tg_peer 1 1)) := tg_incoming (tg_peer 1 1)] \<and>
      (ct_id ct_primary = ct_myId ct_primary \<longrightarrow> take (nat (ct_n ct_primary)) (ct_soc c') =
         soc_list (ct_capacity ct_primary) (take (nat (ct_n ct_primary)) (ct_incomingR c')))"
    by (rule report_reaches_controller [OF _ _ _ _ _ w])
       (simp_all add: ct_primary_facts tg_peer_facts PEERS_def int32_def)
  then show ?thesis by (auto simp: ct_primary_facts tg_peer_facts)
qed

text \<open>
  C11. A share sent by a Controller is adopted by the TokenGen that follows it, and by no other: a
  TokenGen that follows another controller keeps its state.
\<close>

theorem share_reaches_follower:
  assumes "ct_write_turn counter w c = Inr (True, out)" "\<And>j. w j" "ct_inv c"
    and "\<forall>v \<in> set (ct_soc c). int32 v"
  shows "\<exists>t'. tg_readFromClient env k cd out t = Inr ([], t') \<and> ct_id c = ct_myId c \<and>
    (if tg_follows (ct_myId c) t
     then tg_share t' = (if ct_soc c ! nat counter \<noteq> 0 then ct_soc c ! nat counter else tg_share t) \<and>
          tg_id t' = ct_myId c \<and> tg_startTime t' = te_now (env k)
     else t' = t)"
proof -
  have "ct_id c = ct_myId c" using assms(1) by (auto simp: ct_write_turn_def split: if_splits)
  moreover have "int32 (ct_myId c)" "ct_myId c \<noteq> -1" using assms(3) by (auto simp: ct_inv_def int32_def)
  ultimately show ?thesis using share_read [OF assms(1), of env k cd t] assms(2,4)
    by (auto simp: tg_take_share_def tg_follows_def)
qed

theorem share_reaches_follower_witness:
  "\<exists>t'. tg_readFromClient (\<lambda>_. te_at 5) 0 0 [[char_byte (CHR ''s'')], int_bytes 1, int_bytes 480] (tg_peer 1 1) = Inr ([], t') \<and>
     tg_share t' = 480 \<and> tg_startTime t' = 5"
proof -
  have w: "ct_write_turn 1 (\<lambda>_. True) ct_primary = Inr (True, [[char_byte (CHR ''s'')], int_bytes 1, int_bytes 480])"
    by (simp add: ct_write_turn_def ct_primary_facts get_at_def)
  have "tg_follows 1 (tg_peer 1 1)" by (simp add: tg_follows_def tg_peer_facts)
  with share_reaches_follower [OF w _ ct_primary_facts(1), of "\<lambda>_. te_at 5" 0 0 "tg_peer 1 1"]
  show ?thesis by (auto simp: ct_primary_facts int32_def te_at_def)
qed



section \<open>Failover\<close>

text \<open>
  A TokenGen votes for a backup only while it has no controller: the request \<open>x\<close> is answered by \<open>p\<close>
  exactly then, otherwise by \<open>n\<close>, and its own view of the controller does not change.
\<close>

lemma vote_only_without_controller:
  assumes "changeController ne ip c = Inr out" "net_up ne" "int32 (ct_myId c)"
    and "net_up (te_net (env k))" "tg_knows (ct_myId c) t"
  shows "\<exists>t'. tg_readFromClient env k cd out t =
      Inr ([Sent (cf_ip_controller (tg_cfg t) ! nat (ct_myId c))
              [[char_byte (if tg_id t = -1 then CHR ''p'' else CHR ''n'')], int_bytes (tg_myId t)]], t') \<and>
    tg_id t' = tg_id t \<and> tg_prevId t' = tg_prevId t"
  using vote_read [OF assms(1-3), of env k t cd] assms(4,5) by (simp add: tg_reply_def)

lemma vote_only_without_controller_example:
  "\<exists>t'. tg_readFromClient (\<lambda>_. te_at 5) 0 0 [[char_byte (CHR ''x'')], int_bytes 1] (tg_peer 0 (-1)) =
      Inr ([Sent (Some ''10.0.0.3'') [[char_byte (CHR ''p'')], int_bytes 0]], t') \<and> tg_id t' = -1"
proof -
  have c: "changeController net_ok (Some ''10.0.0.4'') ct_primary = Inr [[char_byte (CHR ''x'')], int_bytes 1]"
    by (simp add: changeController_def ct_primary_facts) (simp add: net_ok_def)
  show ?thesis
    using vote_only_without_controller [OF c net_ok_up, of "\<lambda>_. te_at 5" 0 "tg_peer 0 (-1)" 0]
    by (auto simp: ct_primary_facts tg_peer_facts te_at_def int32_def)
qed

text \<open>
  C12. The change of controller is confirmed end to end: the announcement \<open>t\<close>, read by a TokenGen, makes it
  follow the new primary and store its id, and its answer, read by the primary, clears the flag
  that keeps the announcement being repeated.
\<close>

theorem announcement_is_acknowledged:
  assumes "sendID ne ip (CHR ''t'') c = Inr out" "net_up ne" "ct_inv c" "ct_id c = ct_myId c"
    and "net_up (te_net (env k))" "tg_knows (ct_myId c) t" "0 \<le> tg_myId t" "tg_myId t < ct_n c"
  shows "\<exists>t' ack. tg_readFromClient env k cd out t =
      Inr ([Sent (cf_ip_controller (tg_cfg t) ! nat (ct_myId c)) ack, SpawnSender], t') \<and>
    tg_id t' = ct_myId c \<and> (te_fopen (env k) \<longrightarrow> tg_idstore t' = Some (show_int (ct_myId c))) \<and>
    ct_readFromClient env' k' ack c = Inr ([], c\<lparr>ct_flagTG := (ct_flagTG c)[nat (tg_myId t) := 0]\<rparr>)"
proof -
  have "int32 (ct_myId c)" using assms(3) by (auto simp: ct_inv_def int32_def)
  note ch = change_read [OF assms(1,2) this, of env k t cd, OF assms(5,6)]
  have "tg_myId t < int PEERS" using assms(3,8) by (auto simp: ct_inv_def)
  with ch ack_read [OF assms(3,4,7), of env' k'] show ?thesis by (auto simp: tg_adopt_def)
qed

theorem announcement_is_acknowledged_witness:
  "\<exists>t' ack. tg_readFromClient (\<lambda>_. te_at 5) 0 0 [[char_byte (CHR ''t'')], int_bytes 1] (tg_peer 0 (-1)) =
      Inr ([Sent (Some ''10.0.0.3'') ack, SpawnSender], t') \<and> tg_id t' = 1 \<and>
    ct_readFromClient (\<lambda>_. env_at 6) 0 ack ct_primary = Inr ([], ct_primary\<lparr>ct_flagTG := (ct_flagTG ct_primary)[0 := 0]\<rparr>)"
proof -
  have c: "sendID net_ok (Some ''10.0.0.4'') (CHR ''t'') ct_primary = Inr [[char_byte (CHR ''t'')], int_bytes 1]"
    by (simp add: sendID_def ct_primary_facts) (simp add: net_ok_def)
  show ?thesis
    using announcement_is_acknowledged [OF c net_ok_up ct_primary_facts(1), of "\<lambda>_. te_at 5" 0 "tg_peer 0 (-1)" 0 "\<lambda>_. env_at 6" 0]
    by (auto simp: ct_primary_facts tg_peer_facts te_at_def)
qed



end
